(* ===== verification/Prelude.thy ===== *)
theory Prelude
  imports Main "HOL-Library.Word"
begin

unbundle bit_operations_syntax

text \<open>
  Shared vocabulary of the development: names for the machine integers of the C++ sources, the
  exceptions they throw, the result type of code that may throw, readers that consume a byte
  stream, and the generic facts on words, lists and little-endian byte strings that the component
  theories use.
\<close>

section \<open>Types\<close>

type_synonym u8 = "8 word"
type_synonym u16 = "16 word"
type_synonym u32 = "32 word"
type_synonym u64 = "64 word"

text \<open>
  A byte string (\<^verbatim>\<open>std::string\<close>, \<^verbatim>\<open>std::vector<uint8_t>\<close>, a POD viewed as memory). Hashes, keys,
  key images and signatures are PODs of fixed length; the length is a well-formedness predicate,
  not a type.
\<close>

type_synonym bytes = "u8 list"
type_synonym hash = bytes

definition wf_hash :: "hash \<Rightarrow> bool" where
  "wf_hash h \<longleftrightarrow> length h = 32"

text \<open>The exceptions thrown by the modelled code, one constructor for each message.\<close>

datatype exc =
    StreamReadFailed
  | StreamWriteFailed
  | VarintOverflow
  | VarintRepresentation
  | UnknownVariantTag
  | WrongTransactionVersion
  | WrongMajorVersion
  | UnexpectedSignaturesSize
  | SignaturesNotExpected
  | IndexDisabled
  | OutOfRange
  | InvalidArgument

type_synonym 'a result = "exc + 'a"

text \<open>A reader consumes a prefix of the bytes that are left in the input stream.\<close>

type_synonym 'a reader = "bytes \<Rightarrow> ('a \<times> bytes) result"

section \<open>Collections of facts\<close>

named_theorems word_nat \<open>transfer of word operations to natural numbers\<close>
named_theorems reads \<open>what a reader returns on what the matching writer produced\<close>

section \<open>Results and readers\<close>

definition andThen :: "'a result \<Rightarrow> ('a \<Rightarrow> 'b result) \<Rightarrow> 'b result" where
  "andThen m f = (case m of Inl e \<Rightarrow> Inl e | Inr x \<Rightarrow> f x)"

lemma andThen_simps [simp]:
  "andThen (Inl e) f = Inl e"
  "andThen (Inr x) f = f x"
  by (simp_all add: andThen_def)

lemma andThen_eq_Inr_iff: "andThen m f = Inr y \<longleftrightarrow> (\<exists>x. m = Inr x \<and> f x = Inr y)"
  by (cases m) simp_all

lemma andThen_eq_Inl_iff: "andThen m f = Inl e \<longleftrightarrow> m = Inl e \<or> (\<exists>x. m = Inr x \<and> f x = Inl e)"
  by (cases m) simp_all

lemma andThen_assoc: "andThen (andThen m f) g = andThen m (\<lambda>x. andThen (f x) g)"
  by (cases m) simp_all

definition rret :: "'a \<Rightarrow> 'a reader" where
  "rret x bs = Inr (x, bs)"

definition rfail :: "exc \<Rightarrow> 'a reader" where
  "rfail e bs = Inl e"

definition rbind :: "'a reader \<Rightarrow> ('a \<Rightarrow> 'b reader) \<Rightarrow> 'b reader" where
  "rbind r f bs = (case r bs of Inl e \<Rightarrow> Inl e | Inr (x, bs') \<Rightarrow> f x bs')"

lemma rret_apply [simp]: "rret x bs = Inr (x, bs)"
  by (simp add: rret_def)

lemma rfail_apply [simp]: "rfail e bs = Inl e"
  by (simp add: rfail_def)

lemma rbind_Inr [reads]: "r bs = Inr (x, bs') \<Longrightarrow> rbind r f bs = f x bs'"
  by (simp add: rbind_def)

lemma rbind_Inl: "r bs = Inl e \<Longrightarrow> rbind r f bs = Inl e"
  by (simp add: rbind_def)

lemma rbind_eq_Inr_iff:
  "rbind r f bs = Inr y \<longleftrightarrow> (\<exists>x bs'. r bs = Inr (x, bs') \<and> f x bs' = Inr y)"
  by (auto simp: rbind_def split: sum.splits prod.splits)

text \<open>Read \<open>n\<close> items one after the other.\<close>

primrec rrepeat :: "nat \<Rightarrow> 'a reader \<Rightarrow> 'a list reader" where
  "rrepeat 0 r = rret []"
| "rrepeat (Suc n) r = rbind r (\<lambda>x. rbind (rrepeat n r) (\<lambda>xs. rret (x # xs)))"

lemma rrepeat_concat [reads]:
  assumes "\<And>x rest. x \<in> set xs \<Longrightarrow> r (w x @ rest) = Inr (x, rest)"
  shows "rrepeat (length xs) r (concat (map w xs) @ rest) = Inr (xs, rest)"
  using assms by (induction xs) (simp_all add: rbind_def)

lemma rrepeat_length: "rrepeat n r bs = Inr (xs, rest) \<Longrightarrow> length xs = n"
  by (induction n arbitrary: bs xs rest) (auto simp: rbind_eq_Inr_iff)

lemma list_all_upt: "list_all P [0..<n] \<Longrightarrow> i < n \<Longrightarrow> P i"
  by (simp add: list_all_iff)

section \<open>Words\<close>

lemma unat_drop_bit_div [word_nat]: "unat (drop_bit n w) = unat (w :: 'a::len word) div 2 ^ n"
  unfolding unat_drop_bit_eq by (rule drop_bit_eq_div)

lemma unat_take_bit_mod [word_nat]: "unat (take_bit n w) = unat (w :: 'a::len word) mod 2 ^ n"
  unfolding unsigned_take_bit_eq by (rule take_bit_eq_mod)

lemma unat_and_mask [word_nat]: "unat (w AND mask n) = unat (w :: 'a::len word) mod 2 ^ n"
  unfolding take_bit_eq_mask [symmetric] by (rule unat_take_bit_mod)

lemma unat_push_bit [word_nat]:
  "unat (push_bit n w) = unat (w :: 'a::len word) * 2 ^ n mod 2 ^ LENGTH('a)"
  by (simp only: unsigned_push_bit_eq take_bit_eq_mod push_bit_eq_mult [where ?'a = nat])

lemma unat_ucast_mod [word_nat]:
  "unat (ucast (w :: 'a::len word) :: 'b::len word) = unat w mod 2 ^ LENGTH('b)"
  by (simp add: unsigned_ucast_eq take_bit_eq_mod)

lemma unat_ucast_up:
  "LENGTH('a) \<le> LENGTH('b) \<Longrightarrow> unat (ucast (w :: 'a::len word) :: 'b::len word) = unat w"
proof -
  assume "LENGTH('a) \<le> LENGTH('b)"
  then have "(2 :: nat) ^ LENGTH('a) \<le> 2 ^ LENGTH('b)" by simp
  with unsigned_less [of w, where 'a = nat] have "unat w < 2 ^ LENGTH('b)"
    by linarith
  then show ?thesis by (simp add: unat_ucast_mod)
qed

lemma unat_or_disjoint:
  fixes a b :: "'a::len word"
  assumes "unat a < 2 ^ n" and "2 ^ n dvd unat b"
  shows "unat (a OR b) = unat a + unat b"
proof -
  obtain q where q: "unat b = 2 ^ n * q" using assms(2) by blast
  have "unat a AND unat b = 0"
  proof (rule bit_eqI)
    fix k
    have "bit (unat a) k \<Longrightarrow> k < n"
      using assms(1) bit_take_bit_iff [of n "unat a" k] by (simp add: take_bit_nat_eq_self)
    moreover have "bit (unat b) k \<Longrightarrow> n \<le> k"
      unfolding q by (simp add: push_bit_eq_mult [symmetric] mult.commute bit_push_bit_iff)
    ultimately show "bit (unat a AND unat b) k = bit 0 k"
      by (auto simp: bit_and_iff)
  qed
  then have "unat a + unat b = unat a OR unat b"
    by (rule disjunctive_add_eq_or)
  then show ?thesis
    by (simp add: unsigned_or_eq)
qed

lemma unat_byte_bound [simp]: "unat (b :: u8) < 256"
  using unsigned_less [of b, where 'a = nat] by simp

lemma word_eq_of_natI: "unat w = k \<Longrightarrow> w = word_of_nat k"
  by auto

text \<open>Unsigned addition wraps exactly when the sum is smaller than an operand.\<close>

lemma word_add_wraps_iff:
  fixes a b :: "'a::len word"
  shows "a + b < a \<longleftrightarrow> 2 ^ LENGTH('a) \<le> unat a + unat b"
proof (cases "unat a + unat b < 2 ^ LENGTH('a)")
  case True
  then have "unat (a + b) = unat a + unat b"
    by (simp add: unat_word_ariths)
  with True show ?thesis by (simp add: word_less_nat_alt)
next
  case False
  have b: "unat b < 2 ^ LENGTH('a)" and a: "unat a < 2 ^ LENGTH('a)" by simp_all
  from a b have "unat a + unat b - 2 ^ LENGTH('a) < 2 ^ LENGTH('a)" by linarith
  with False have "unat (a + b) = unat a + unat b - 2 ^ LENGTH('a)"
    by (simp add: unat_word_ariths le_mod_geq)
  moreover from False b have "unat a + unat b - 2 ^ LENGTH('a) < unat a" by linarith
  ultimately show ?thesis using False by (simp add: word_less_nat_alt)
qed

lemma unat_add_carry:
  fixes a b :: "'a::len word"
  shows "unat (a + b) + (if a + b < a then 2 ^ LENGTH('a) else 0) = unat a + unat b"
proof (cases "a + b < a")
  case True
  then have ge: "2 ^ LENGTH('a) \<le> unat a + unat b" by (simp add: word_add_wraps_iff)
  have "unat b < 2 ^ LENGTH('a)" and "unat a < 2 ^ LENGTH('a)" by simp_all
  then have "unat a + unat b - 2 ^ LENGTH('a) < 2 ^ LENGTH('a)" by linarith
  with ge True show ?thesis by (simp add: unat_word_ariths le_mod_geq)
next
  case False
  then show ?thesis by (simp add: word_add_wraps_iff unat_word_ariths)
qed

lemma unat_add_no_wrap:
  fixes a b :: "'a::len word"
  shows "unat a + unat b < 2 ^ LENGTH('a) \<Longrightarrow> unat (a + b) = unat a + unat b"
  by (simp add: unat_word_ariths)

lemma unat_mult_no_wrap:
  fixes a b :: "'a::len word"
  shows "unat a * unat b < 2 ^ LENGTH('a) \<Longrightarrow> unat (a * b) = unat a * unat b"
  by (simp add: unat_word_ariths)

section \<open>Little-endian byte strings\<close>

fun le_nat :: "bytes \<Rightarrow> nat" where
  "le_nat [] = 0"
| "le_nat (b # bs) = unat b + 256 * le_nat bs"

fun le_bytes :: "nat \<Rightarrow> nat \<Rightarrow> bytes" where
  "le_bytes 0 n = []"
| "le_bytes (Suc k) n = word_of_nat (n mod 256) # le_bytes k (n div 256)"

lemma length_le_bytes [simp]: "length (le_bytes k n) = k"
  by (induction k arbitrary: n) simp_all

lemma le_nat_append: "le_nat (xs @ ys) = le_nat xs + 256 ^ length xs * le_nat ys"
  by (induction xs) (simp_all add: algebra_simps)

lemma le_nat_bound: "le_nat bs < 256 ^ length bs"
proof (induction bs)
  case (Cons b bs)
  have "unat b + 256 * le_nat bs < 256 + 256 * le_nat bs" by simp
  also have "\<dots> \<le> 256 * 256 ^ length bs" using Cons by simp
  finally show ?case by simp
qed simp

lemma le_nat_le_bytes [simp]: "le_nat (le_bytes k n) = n mod 256 ^ k"
proof (induction k arbitrary: n)
  case (Suc k)
  have "unat (word_of_nat (n mod 256) :: u8) = n mod 256"
    by (simp add: unat_of_nat)
  then have "le_nat (le_bytes (Suc k) n) = n mod 256 + 256 * (n div 256 mod 256 ^ k)"
    using Suc by simp
  also have "\<dots> = n mod (256 * 256 ^ k)"
    by (simp only: mod_mult2_eq add.commute)
  finally show ?case by simp
qed simp

lemma le_bytes_le_nat [simp]: "le_bytes (length bs) (le_nat bs) = bs"
proof (induction bs)
  case (Cons b bs)
  have "(unat b + 256 * le_nat bs) mod 256 = unat b" by simp
  moreover have "(unat b + 256 * le_nat bs) div 256 = le_nat bs" by simp
  ultimately show ?case using Cons by (simp del: unat_byte_bound)
qed simp

lemma le_bytes_nth: "i < k \<Longrightarrow> le_bytes k n ! i = word_of_nat (n div 256 ^ i mod 256)"
proof (induction k arbitrary: n i)
  case (Suc k)
  then show ?case by (cases i) (simp_all add: div_mult2_eq)
qed simp

lemma le_nat_zeros [simp]: "le_nat (replicate n 0) = 0"
  by (induction n) simp_all

lemma bit_le_bytes: "i < k \<Longrightarrow> bit (le_bytes k n ! i) m \<longleftrightarrow> m < 8 \<and> bit n (8 * i + m)"
proof -
  assume i: "i < k"
  have "n div 256 ^ i = drop_bit (8 * i) n"
    by (simp add: drop_bit_eq_div power_mult)
  then have "n div 256 ^ i mod 256 = take_bit 8 (drop_bit (8 * i) n)"
    by (simp add: take_bit_eq_mod)
  then show ?thesis
    by (auto simp: le_bytes_nth [OF i] bit_of_nat_iff bit_take_bit_iff bit_drop_bit_eq add.commute)
qed

lemma le_bytes_xor: "le_bytes k (m XOR n) = map2 (XOR) (le_bytes k m) (le_bytes k n)"
proof (rule nth_equalityI)
  fix i assume "i < length (le_bytes k (m XOR n))"
  then have i: "i < k" by simp
  show "le_bytes k (m XOR n) ! i = map2 (XOR) (le_bytes k m) (le_bytes k n) ! i"
    by (rule bit_word_eqI) (use i in \<open>auto simp: bit_le_bytes bit_xor_iff\<close>)
qed simp

end
