(* ===== verification/IntUtil.thy ===== *)
theory IntUtil
  imports Prelude "HOL-Library.Monad_Syntax"
begin

unbundle bit_operations_syntax

text \<open>
  Multi-word arithmetic: \<^verbatim>\<open>lib/Common/int-util.h\<close> (128-bit products and quotients, byte swap),
  the proof-of-work test of \<^verbatim>\<open>lib/CryptoNoteCore/Difficulty.cpp\<close> built on it, and the block size
  penalty \<^verbatim>\<open>getPenalizedAmount\<close> of \<^verbatim>\<open>lib/CryptoNoteCore/CryptoNoteBasicImpl.cpp\<close>. Output
  parameters are components of the result; a division that would trap is \<open>None\<close>.
\<close>

section \<open>Definitions\<close>

definition hi_dword :: "u64 \<Rightarrow> u64" where
  "hi_dword val = drop_bit 32 val"

definition lo_dword :: "u64 \<Rightarrow> u64" where
  "lo_dword val = val AND 0xFFFFFFFF"

text \<open>The result is \<open>(product_lo, product_hi)\<close>.\<close>

definition mul128 :: "u64 \<Rightarrow> u64 \<Rightarrow> u64 \<times> u64" where
  "mul128 multiplier multiplicand =
     (let a = hi_dword multiplier; b = lo_dword multiplier;
          c = hi_dword multiplicand; d = lo_dword multiplicand;
          ac = a * c; ad = a * d; bc = b * c; bd = b * d;
          adbc = ad + bc;
          adbc_carry = (if adbc < ad then 1 else 0);
          product_lo = bd + push_bit 32 adbc;
          product_lo_carry = (if product_lo < bd then 1 else 0);
          product_hi = ac + drop_bit 32 adbc + push_bit 32 adbc_carry + product_lo_carry
      in (product_lo, product_hi))"

text \<open>The result is the quotient and the new remainder.\<close>

definition div_with_reminder :: "u64 \<Rightarrow> u32 \<Rightarrow> u32 \<Rightarrow> (u64 \<times> u32) option" where
  "div_with_reminder dividend divisor remainder =
     (let dividend = dividend OR push_bit 32 (ucast remainder)
      in if divisor = 0 then None
         else Some (dividend div ucast divisor, ucast (dividend mod ucast divisor)))"

text \<open>The result is \<open>(quotient_hi, quotient_lo, remainder)\<close>.\<close>

definition div128_32 :: "u64 \<Rightarrow> u64 \<Rightarrow> u32 \<Rightarrow> (u64 \<times> u64 \<times> u32) option" where
  "div128_32 dividend_hi dividend_lo divisor = do {
     (q3, r3) \<leftarrow> div_with_reminder (hi_dword dividend_hi) divisor 0;
     (q2, r2) \<leftarrow> div_with_reminder (lo_dword dividend_hi) divisor r3;
     (q1, r1) \<leftarrow> div_with_reminder (hi_dword dividend_lo) divisor r2;
     (q0, r0) \<leftarrow> div_with_reminder (lo_dword dividend_lo) divisor r1;
     Some (push_bit 32 q3 OR q2, push_bit 32 q1 OR q0, r0)
   }"

definition swap64 :: "u64 \<Rightarrow> u64" where
  "swap64 x =
     (let x = push_bit 8 (x AND 0x00ff00ff00ff00ff) OR drop_bit 8 (x AND 0xff00ff00ff00ff00);
          x = push_bit 16 (x AND 0x0000ffff0000ffff) OR drop_bit 16 (x AND 0xffff0000ffff0000)
      in push_bit 32 x OR drop_bit 32 x)"

text \<open>
  \<^verbatim>\<open>Difficulty.cpp\<close>. With \<^verbatim>\<open>__SIZEOF_INT128__\<close> the product is computed at 128 bits, otherwise by
  \<^verbatim>\<open>mul128\<close>; the two are shown equal below. The result is \<open>(low, high)\<close>.
\<close>

definition mul_int128 :: "u64 \<Rightarrow> u64 \<Rightarrow> u64 \<times> u64" where
  "mul_int128 a b = (let res = (ucast a :: 128 word) * ucast b in (ucast res, ucast (drop_bit 64 res)))"

definition cadd :: "u64 \<Rightarrow> u64 \<Rightarrow> bool" where
  "cadd a b \<longleftrightarrow> a + b < a"

definition cadc :: "u64 \<Rightarrow> u64 \<Rightarrow> bool \<Rightarrow> bool" where
  "cadc a b c \<longleftrightarrow> a + b < a \<or> (c \<and> a + b = - 1)"

text \<open>
  \<^verbatim>\<open>swap64le(((const uint64_t *) &hash)[i])\<close>: the \<open>i\<close>-th little-endian word of the hash, on
  machines of either byte order.
\<close>

definition hash_word :: "hash \<Rightarrow> nat \<Rightarrow> u64" where
  "hash_word h i = word_of_nat (le_nat (take 8 (drop (8 * i) h)))"

definition check_hash :: "hash \<Rightarrow> u64 \<Rightarrow> bool" where
  "check_hash h difficulty =
     (let (top, high) = mul_int128 (hash_word h 3) difficulty
      in if high \<noteq> 0 then False
         else
           (let (low, cur) = mul_int128 (hash_word h 0) difficulty;
                (low, high) = mul_int128 (hash_word h 1) difficulty;
                carry = cadd cur low;
                cur = high;
                (low, high) = mul_int128 (hash_word h 2) difficulty;
                carry = cadc cur low carry;
                carry = cadc high top carry
            in \<not> carry))"

text \<open>
  \<^verbatim>\<open>getPenalizedAmount\<close> of \<^verbatim>\<open>CryptoNoteBasicImpl.cpp\<close>. Its first three asserts are its
  precondition (see \<open>penalized_pre\<close>); its last two are proved to hold.
\<close>

definition penalized_pre :: "u64 \<Rightarrow> u64 \<Rightarrow> bool" where
  "penalized_pre medianSize currentBlockSize \<longleftrightarrow>
     currentBlockSize \<le> 2 * medianSize \<and> medianSize \<le> 0xFFFFFFFF \<and> currentBlockSize \<le> 0xFFFFFFFF"

definition getPenalizedAmount :: "u64 \<Rightarrow> u64 \<Rightarrow> u64 \<Rightarrow> u64 option" where
  "getPenalizedAmount amount medianSize currentBlockSize =
     (if amount = 0 then Some 0
      else if currentBlockSize \<le> medianSize then Some amount
      else
        (let multiplicand = (2 * medianSize - currentBlockSize) * currentBlockSize;
             (productLo, productHi) = mul128 amount multiplicand
         in do {
              (hi1, lo1, _) \<leftarrow> div128_32 productHi productLo (ucast medianSize);
              (hi2, lo2, _) \<leftarrow> div128_32 hi1 lo1 (ucast medianSize);
              Some lo2
            }))"

section \<open>128-bit products\<close>

lemma unat_hi_dword [word_nat]: "unat (hi_dword v) = unat v div 2 ^ 32"
  by (simp add: hi_dword_def unat_drop_bit_div)

lemma unat_lo_dword [word_nat]: "unat (lo_dword v) = unat v mod 2 ^ 32"
proof -
  have "lo_dword v = v AND mask 32" by (simp add: lo_dword_def mask_eq_exp_minus_1)
  then show ?thesis by (simp only: unat_and_mask)
qed

lemma hi_dword_bound: "unat (hi_dword v) < 2 ^ 32"
  using unsigned_less [of v, where 'a = nat] by (simp add: unat_hi_dword less_mult_imp_div_less)

lemma lo_dword_bound: "unat (lo_dword v) < 2 ^ 32"
  by (simp add: unat_lo_dword)

lemma dword_split: "unat v = unat (hi_dword v) * 2 ^ 32 + unat (lo_dword v)"
  by (simp add: unat_hi_dword unat_lo_dword)

lemma dword_product_bound:
  assumes "(x :: nat) < 2 ^ 32" and "y < 2 ^ 32"
  shows "x * y < 2 ^ 64"
proof -
  have "x * y \<le> (2 ^ 32 - 1) * (2 ^ 32 - 1)" using assms by (intro mult_le_mono) simp_all
  also have "\<dots> < 2 ^ 64" by simp
  finally show ?thesis .
qed

lemma unat_dword_mult:
  assumes "unat x < 2 ^ 32" and "unat y < 2 ^ 32"
  shows "unat (x * y :: u64) = unat x * unat y"
  using dword_product_bound [OF assms] by (simp add: unat_mult_no_wrap)

lemma unat_push_dword: "unat (push_bit 32 v :: u64) = unat v mod 2 ^ 32 * 2 ^ 32"
  using mult_mod_left [of "unat v" "2 ^ 32" "2 ^ 32"] by (simp add: unat_push_bit)

lemma nat_mult_split:
  fixes m n a b c d :: nat
  assumes "m = a * 2 ^ 32 + b" and "n = c * 2 ^ 32 + d"
  shows "m * n = a * c * 2 ^ 64 + (a * d + b * c) * 2 ^ 32 + b * d"
  unfolding assms by (simp add: algebra_simps)

lemma nat_carry_sum:
  fixes ac q r k j lo bd A :: nat
  assumes lo: "lo + j * 2 ^ 64 = bd + r * 2 ^ 32" and A: "A = q * 2 ^ 32 + r"
  shows "(ac + q + k * 2 ^ 32 + j) * 2 ^ 64 + lo = ac * 2 ^ 64 + (A + k * 2 ^ 64) * 2 ^ 32 + bd"
proof -
  have "(ac + q + k * 2 ^ 32 + j) * 2 ^ 64 + lo
      = ac * 2 ^ 64 + (q * 2 ^ 32 + k * 2 ^ 64) * 2 ^ 32 + (lo + j * 2 ^ 64)"
    by (simp add: algebra_simps)
  then show ?thesis unfolding lo A by (simp add: algebra_simps)
qed

lemma u64_product_bound: "unat (m :: u64) * unat (n :: u64) < 2 ^ 128"
proof -
  have "unat m \<le> 2 ^ 64 - 1" "unat n \<le> 2 ^ 64 - 1"
    using unsigned_less [of m, where 'a = nat] unsigned_less [of n, where 'a = nat] by simp_all
  then have "unat m * unat n \<le> (2 ^ 64 - 1) * (2 ^ 64 - 1)" by (rule mult_le_mono)
  also have "\<dots> < 2 ^ 128" by simp
  finally show ?thesis .
qed

lemma mul128_correct:
  assumes "mul128 m n = (lo, hi)"
  shows "unat hi * 2 ^ 64 + unat lo = unat m * unat n"
proof -
  define a b c d where "a = hi_dword m" and "b = lo_dword m" and "c = hi_dword n" and "d = lo_dword n"
  define adbc where "adbc = a * d + b * c"
  define k j :: u64 where "k = (if adbc < a * d then 1 else 0)" and "j = (if lo < b * d then 1 else 0)"
  note bounds = hi_dword_bound [of m] lo_dword_bound [of m] hi_dword_bound [of n] lo_dword_bound [of n]
  have prod: "unat (a * c) = unat a * unat c" "unat (a * d) = unat a * unat d"
    "unat (b * c) = unat b * unat c" "unat (b * d) = unat b * unat d"
    unfolding a_def b_def c_def d_def by (intro unat_dword_mult bounds)+
  have lo: "lo = b * d + push_bit 32 adbc"
    and hi: "hi = a * c + drop_bit 32 adbc + push_bit 32 k + j"
    using assms unfolding mul128_def Let_def adbc_def k_def j_def a_def b_def c_def d_def by auto
  have k: "unat adbc + unat k * 2 ^ 64 = unat a * unat d + unat b * unat c"
    using unat_add_carry [of "a * d" "b * c"] unfolding adbc_def [symmetric] k_def prod by (simp split: if_splits)
  have j: "unat lo + unat j * 2 ^ 64 = unat b * unat d + unat adbc mod 2 ^ 32 * 2 ^ 32"
    using unat_add_carry [of "b * d" "push_bit 32 adbc"]
    unfolding lo [symmetric] j_def prod unat_push_dword by (simp split: if_splits)
  define H where "H = unat a * unat c + unat adbc div 2 ^ 32 + unat k * 2 ^ 32 + unat j"
  have kb: "unat (push_bit 32 k) = unat k * 2 ^ 32"
    by (simp add: unat_push_dword k_def)
  have "unat hi = H mod 2 ^ 64"
    unfolding hi H_def by (simp add: unat_word_ariths mod_simps prod kb unat_drop_bit_div)
  moreover have "H * 2 ^ 64 + unat lo = unat m * unat n"
  proof -
    have split: "unat adbc = unat adbc div 2 ^ 32 * 2 ^ 32 + unat adbc mod 2 ^ 32" by simp
    have "H * 2 ^ 64 + unat lo
        = unat a * unat c * 2 ^ 64 + (unat adbc + unat k * 2 ^ 64) * 2 ^ 32 + unat b * unat d"
      unfolding H_def by (rule nat_carry_sum [OF j split])
    also have "\<dots>
        = unat a * unat c * 2 ^ 64 + (unat a * unat d + unat b * unat c) * 2 ^ 32 + unat b * unat d"
      by (simp only: k)
    also have "\<dots> = unat m * unat n"
      by (rule nat_mult_split [symmetric]) (simp_all only: a_def b_def c_def d_def dword_split [symmetric])
    finally show ?thesis .
  qed
  moreover have "unat m * unat n < 2 ^ 128" by (rule u64_product_bound)
  ultimately show ?thesis by simp
qed

lemma mul_int128_correct:
  assumes "mul_int128 m n = (lo, hi)"
  shows "unat hi * 2 ^ 64 + unat lo = unat m * unat n"
proof -
  define P where "P = (ucast m :: 128 word) * ucast n"
  have "unat P = unat m * unat n"
    unfolding P_def using u64_product_bound [of m n] by (simp add: unat_mult_no_wrap unat_ucast_up)
  moreover have "unat P div 2 ^ 64 < 2 ^ 64"
    using unsigned_less [of P, where 'a = nat] by (simp add: less_mult_imp_div_less)
  ultimately have "unat hi = unat m * unat n div 2 ^ 64" and "unat lo = unat m * unat n mod 2 ^ 64"
    using assms unfolding mul_int128_def Let_def P_def [symmetric]
    by (auto simp: unat_ucast_mod unat_drop_bit_div)
  then show ?thesis by simp
qed

lemma two_word_unique:
  assumes "unat (hi :: u64) * 2 ^ 64 + unat (lo :: u64) = unat (hi' :: u64) * 2 ^ 64 + unat (lo' :: u64)"
  shows "hi = hi' \<and> lo = lo'"
proof -
  have "unat lo < 2 ^ 64" "unat lo' < 2 ^ 64" 
    using unsigned_less [of lo, where 'a = nat] unsigned_less [of lo', where 'a = nat] by simp_all
  with assms have "unat lo = unat lo'" by (metis mod_less mod_mult_self3)
  with assms have "unat hi = unat hi'" by simp
  with \<open>unat lo = unat lo'\<close> show ?thesis by (simp add: unat_arith_simps(3))
qed

lemma mul128_eq_mul_int128: "mul128 m n = mul_int128 m n"
proof -
  obtain lo hi lo' hi' where "mul128 m n = (lo, hi)" "mul_int128 m n = (lo', hi')" by fastforce
  with mul128_correct mul_int128_correct two_word_unique show ?thesis by metis
qed

lemma div_with_reminder_correct:
  assumes "unat dividend < 2 ^ 32" and "unat remainder < unat divisor"
  shows "\<exists>q r. div_with_reminder dividend divisor remainder = Some (q, r)
    \<and> unat remainder * 2 ^ 32 + unat dividend = unat q * unat divisor + unat r
    \<and> unat r < unat divisor \<and> unat q < 2 ^ 32"
proof -
  define D where "D = dividend OR push_bit 32 (ucast remainder :: u64)"
  have "unat (push_bit 32 (ucast remainder) :: u64) = unat remainder * 2 ^ 32"
    using unsigned_less [of remainder, where 'a = nat] by (simp add: unat_push_bit unat_ucast_up)
  then have D: "unat D = unat remainder * 2 ^ 32 + unat dividend"
    unfolding D_def using unat_or_disjoint [OF assms(1), of "push_bit 32 (ucast remainder)"] by simp
  have d: "unat (ucast divisor :: u64) = unat divisor" by (simp add: unat_ucast_up)
  have mod_lt: "unat D mod unat divisor < unat divisor" using assms(2) by simp
  then have "unat D mod unat divisor < 2 ^ 32"
    using unsigned_less [of divisor, where 'a = nat] by simp
  then have r: "unat (ucast (D mod ucast divisor) :: u32) = unat D mod unat divisor"
    unfolding unat_ucast_mod [of "D mod ucast divisor"] by (simp add: unat_mod_distrib d)
  have q: "unat (D div ucast divisor) = unat D div unat divisor" by (simp add: unat_div_distrib d)
  have "unat remainder * 2 ^ 32 + unat dividend < unat divisor * 2 ^ 32"
  proof -
    have "(unat remainder + 1) * 2 ^ 32 \<le> unat divisor * 2 ^ 32" using assms(2) by (intro mult_le_mono1) simp
    with assms(1) show ?thesis by simp
  qed
  then have "unat D div unat divisor < 2 ^ 32"
    unfolding D using assms(2) by (simp add: less_mult_imp_div_less mult.commute)
  then show ?thesis
    using mod_lt r q D assms(2) unfolding div_with_reminder_def Let_def D_def [symmetric]
    by (auto simp del: unsigned_ucast_eq simp add: D)
qed

section \<open>Long division\<close>

lemma nat_long_division:
  fixes x3 x2 x1 x0 q3 q2 q1 q0 r3 r2 r1 r0 d :: nat
  assumes 3: "x3 = q3 * d + r3" and 2: "r3 * 2 ^ 32 + x2 = q2 * d + r2"
    and 1: "r2 * 2 ^ 32 + x1 = q1 * d + r1" and 0: "r1 * 2 ^ 32 + x0 = q0 * d + r0"
  shows "(x3 * 2 ^ 32 + x2) * 2 ^ 64 + (x1 * 2 ^ 32 + x0)
    = ((q3 * 2 ^ 32 + q2) * 2 ^ 64 + (q1 * 2 ^ 32 + q0)) * d + r0"
proof -
  have "(x3 * 2 ^ 32 + x2) * 2 ^ 64 = (q3 * d * 2 ^ 32 + (q2 * d + r2)) * 2 ^ 64"
    unfolding 3 2 [symmetric] by (simp add: algebra_simps)
  moreover have "r2 * 2 ^ 64 + x1 * 2 ^ 32 = (q1 * d + r1) * 2 ^ 32"
    unfolding 1 [symmetric] by (simp add: algebra_simps)
  ultimately show ?thesis using 0 by (simp add: algebra_simps)
qed

lemma unat_join_dwords:
  assumes "unat (q :: u64) < 2 ^ 32" and "unat (p :: u64) < 2 ^ 32"
  shows "unat (push_bit 32 q OR p) = unat q * 2 ^ 32 + unat p"
proof -
  have "unat (push_bit 32 q) = unat q * 2 ^ 32"
    using assms(1) by (simp add: unat_push_dword)
  then show ?thesis
    using unat_or_disjoint [OF assms(2), of "push_bit 32 q"] by (simp add: or.commute)
qed

lemma div128_32_step:
  assumes "divisor \<noteq> 0"
  shows "\<exists>qh ql r. div128_32 hi lo divisor = Some (qh, ql, r)
    \<and> unat hi * 2 ^ 64 + unat lo = (unat qh * 2 ^ 64 + unat ql) * unat divisor + unat r
    \<and> unat r < unat divisor"
proof -
  have "unat (0 :: u32) < unat divisor" using assms by (simp add: unat_gt_0)
  from div_with_reminder_correct [OF hi_dword_bound [of hi] this] obtain q3 r3 where
    3: "div_with_reminder (hi_dword hi) divisor 0 = Some (q3, r3)"
    "unat (hi_dword hi) = unat q3 * unat divisor + unat r3" "unat r3 < unat divisor" "unat q3 < 2 ^ 32"
    by auto
  from div_with_reminder_correct [OF lo_dword_bound [of hi] 3(3)] obtain q2 r2 where
    2: "div_with_reminder (lo_dword hi) divisor r3 = Some (q2, r2)"
    "unat r3 * 2 ^ 32 + unat (lo_dword hi) = unat q2 * unat divisor + unat r2"
    "unat r2 < unat divisor" "unat q2 < 2 ^ 32" by blast
  from div_with_reminder_correct [OF hi_dword_bound [of lo] 2(3)] obtain q1 r1 where
    1: "div_with_reminder (hi_dword lo) divisor r2 = Some (q1, r1)"
    "unat r2 * 2 ^ 32 + unat (hi_dword lo) = unat q1 * unat divisor + unat r1"
    "unat r1 < unat divisor" "unat q1 < 2 ^ 32" by blast
  from div_with_reminder_correct [OF lo_dword_bound [of lo] 1(3)] obtain q0 r0 where
    0: "div_with_reminder (lo_dword lo) divisor r1 = Some (q0, r0)"
    "unat r1 * 2 ^ 32 + unat (lo_dword lo) = unat q0 * unat divisor + unat r0"
    "unat r0 < unat divisor" "unat q0 < 2 ^ 32" by blast
  have "div128_32 hi lo divisor = Some (push_bit 32 q3 OR q2, push_bit 32 q1 OR q0, r0)"
    by (simp add: div128_32_def 3(1) 2(1) 1(1) 0(1))
  moreover have "unat hi * 2 ^ 64 + unat lo
      = (unat (push_bit 32 q3 OR q2) * 2 ^ 64 + unat (push_bit 32 q1 OR q0)) * unat divisor + unat r0"
    unfolding unat_join_dwords [OF 3(4) 2(4)] unat_join_dwords [OF 1(4) 0(4)]
      dword_split [of hi] dword_split [of lo]
    by (rule nat_long_division [OF 3(2) 2(2) 1(2) 0(2)])
  ultimately show ?thesis using 0(3) by blast
qed

lemma div128_32_correct:
  assumes "divisor \<noteq> 0" and "div128_32 hi lo divisor = Some (qh, ql, r)"
  shows "unat qh * 2 ^ 64 + unat ql = (unat hi * 2 ^ 64 + unat lo) div unat divisor"
    and "unat r = (unat hi * 2 ^ 64 + unat lo) mod unat divisor"
  using div128_32_step [OF assms(1), of hi lo] assms(2) by (auto simp del: power_numeral)

section \<open>Proof of work\<close>

lemma cadd_iff: "cadd a b \<longleftrightarrow> 2 ^ 64 \<le> unat a + unat b"
  by (simp add: cadd_def word_add_wraps_iff)

lemma cadc_iff: "cadc a b c \<longleftrightarrow> 2 ^ 64 \<le> unat a + unat b + of_bool c"
proof (cases "a + b < a")
  case True
  then show ?thesis using word_add_wraps_iff [of a b] by (simp add: cadc_def)
next
  case False
  then have sum: "unat (a + b) = unat a + unat b" using unat_add_carry [of a b] by simp
  have "a + b = - 1 \<longleftrightarrow> unat (a + b) = 2 ^ 64 - 1"
    by (simp add: unat_arith_simps(3) unsigned_minus_1_eq_mask mask_eq_exp_minus_1)
  moreover have "unat a + unat b < 2 ^ 64" using False word_add_wraps_iff [of a b] by simp
  ultimately show ?thesis using False unfolding cadc_def sum by (cases c) auto
qed

lemma carry_chain:
  fixes l0 s1 s2 s3 h3 :: nat
  assumes "l0 < 2 ^ 64" and "s1 < 2 * 2 ^ 64 - 1" and "s2 < 2 * 2 ^ 64 - 1"  and "s3 < 2 * 2 ^ 64 - 1" 
  shows "l0 + s1 * 2 ^ 64 + s2 * 2 ^ 128 + s3 * 2 ^ 192 + h3 * 2 ^ 256 < 2 ^ 256 \<longleftrightarrow>
    h3 = 0 \<and> \<not> 2 ^ 64 \<le> s3 + of_bool (2 ^ 64 \<le> s2 + of_bool (2 ^ 64 \<le> s1))"
  using assms by (simp add: of_bool_def) arith

lemma unat_hash_word:
  assumes "wf_hash h" and "i < 4"
  shows "unat (hash_word h i) = le_nat (take 8 (drop (8 * i) h))"
proof -
  have "length (take 8 (drop (8 * i) h)) = 8" using assms by (simp add: wf_hash_def)
  then have "le_nat (take 8 (drop (8 * i) h)) < 256 ^ 8" using le_nat_bound by metis
  then show ?thesis by (simp add: hash_word_def unat_of_nat)
qed

lemma hash_suffix_value:
  assumes "wf_hash h" and "i < 4" and "j = i + 1"
  shows "le_nat (drop (8 * i) h) = unat (hash_word h i) + 2 ^ 64 * le_nat (drop (8 * j) h)"
proof -
  have "length (take 8 (drop (8 * i) h)) = 8" using assms by (simp add: wf_hash_def)
  moreover have "drop 8 (drop (8 * i) h) = drop (8 * j) h" using assms(3) by simp
  ultimately show ?thesis
    using le_nat_append [of "take 8 (drop (8 * i) h)" "drop 8 (drop (8 * i) h)"]
    unfolding append_take_drop_id unat_hash_word [OF assms(1,2)] by simp
qed

lemma hash_value_words:
  assumes "wf_hash h"
  shows "le_nat h = unat (hash_word h 0) + unat (hash_word h 1) * 2 ^ 64
    + unat (hash_word h 2) * 2 ^ 128 + unat (hash_word h 3) * 2 ^ 192"
proof -
  define X where "X i = le_nat (drop (8 * i) h)" for i
  have X: "X i = unat (hash_word h i) + 2 ^ 64 * X j" if "i < 4" "j = i + 1" for i j
    unfolding X_def by (rule hash_suffix_value [OF assms that])
  have "X 0 = unat (hash_word h 0) + 2 ^ 64 * X 1" "X 1 = unat (hash_word h 1) + 2 ^ 64 * X 2"
    "X 2 = unat (hash_word h 2) + 2 ^ 64 * X 3" "X 3 = unat (hash_word h 3) + 2 ^ 64 * X 4"
    by (rule X; simp)+
  moreover have "X 4 = 0" using assms by (simp add: X_def wf_hash_def)
  moreover have "X 0 = le_nat h" by (simp add: X_def)
  ultimately show ?thesis by simp
qed

lemma check_hash_correct:
  assumes "wf_hash h"
  shows "check_hash h difficulty \<longleftrightarrow> le_nat h * unat difficulty < 2 ^ 256"
proof -
  obtain l0 h0 l1 h1 l2 h2 l3 h3 where
    m: "mul_int128 (hash_word h 0) difficulty = (l0, h0)" "mul_int128 (hash_word h 1) difficulty = (l1, h1)"
    "mul_int128 (hash_word h 2) difficulty = (l2, h2)" "mul_int128 (hash_word h 3) difficulty = (l3, h3)"
    by fastforce
  note p = m [THEN mul_int128_correct]
  have "check_hash h difficulty \<longleftrightarrow> h3 = 0 \<and> \<not> cadc h2 l3 (cadc h1 l2 (cadd h0 l1))"
    using m(2) by (simp add: check_hash_def m)
  also have "\<dots> \<longleftrightarrow> unat l0 + (unat h0 + unat l1) * 2 ^ 64 + (unat h1 + unat l2) * 2 ^ 128
      + (unat h2 + unat l3) * 2 ^ 192 + unat h3 * 2 ^ 256 < 2 ^ 256"
  proof -
    have b: "unat (x :: u64) \<le> 2 ^ 64 - 1" for x
      using unsigned_less [of x, where 'a = nat] by simp
    have s: "unat (x :: u64) + unat (y :: u64) < 2 * 2 ^ 64 - 1" for x y
      using b [of x] b [of y] by simp
    have "unat l0 < 2 ^ 64" using b [of l0] by simp
    from carry_chain [OF this s s s] show ?thesis
      by (simp add: cadc_iff cadd_iff unat_eq_zero)
  qed
  also have "unat l0 + (unat h0 + unat l1) * 2 ^ 64 + (unat h1 + unat l2) * 2 ^ 128
      + (unat h2 + unat l3) * 2 ^ 192 + unat h3 * 2 ^ 256 = le_nat h * unat difficulty"
    unfolding hash_value_words [OF assms] distrib_right using p by (simp add: algebra_simps)
  finally show ?thesis .
qed

section \<open>Block size penalty\<close>

lemma mult_div_le:
  fixes a b c :: nat
  assumes "b \<le> c" and "0 < c"
  shows "a * b div c \<le> a"
proof -
  have "a * b \<le> a * c" using assms(1) by simp
  then have "a * b div c \<le> a * c div c" by (rule div_le_mono)
  then show ?thesis using assms(2) by simp
qed

lemma penalty_factor:
  fixes m s :: nat
  assumes "m < s" and "s \<le> 2 * m"
  shows "(2 * m - s) * s < m * m"
proof -
  obtain e where s: "s = m + e" using assms(1) less_imp_add_positive by blast
  then have "e \<le> m" "0 < e" using assms by simp_all
  then obtain k where m: "m = e + k" using le_Suc_ex by blast
  have "(2 * m - s) * s = k * (e + k + e)" unfolding s m by simp
  also have "\<dots> < (e + k) * (e + k)" using \<open>0 < e\<close> by (simp add: algebra_simps)
  finally show ?thesis unfolding m .
qed

lemma getPenalizedAmount_correct:
  assumes "penalized_pre medianSize currentBlockSize" and "medianSize < currentBlockSize"
  shows "\<exists>p. getPenalizedAmount amount medianSize currentBlockSize = Some p \<and>
    unat p = unat amount * ((2 * unat medianSize - unat currentBlockSize) * unat currentBlockSize)
               div (unat medianSize * unat medianSize) \<and>
    (amount \<noteq> 0 \<longrightarrow> p < amount)"
proof (cases "amount = 0")
  case True
  then show ?thesis by (simp add: getPenalizedAmount_def)
next
  case False
  define m s where "m = unat medianSize" and "s = unat currentBlockSize"
  have m32: "m < 2 ^ 32" and s32: "s < 2 ^ 32" and ms: "m < s"
    using assms by (simp_all add: penalized_pre_def m_def s_def word_le_nat_alt word_less_nat_alt)
  have "unat (2 * medianSize) = 2 * m"
    using m32 unfolding m_def by (simp add: unat_mult_no_wrap)
  with assms have s2m: "s \<le> 2 * m" by (simp add: penalized_pre_def s_def word_le_nat_alt)
  define f where "f = (2 * medianSize - currentBlockSize) * currentBlockSize"
  have diff: "unat (2 * medianSize - currentBlockSize) = 2 * m - s"
    using \<open>unat (2 * medianSize) = 2 * m\<close> s2m by (simp add: s_def unat_sub word_le_nat_alt)
  have "2 * m - s < 2 ^ 32" using m32 ms by linarith
  then have f: "unat f = (2 * m - s) * s"
    unfolding f_def using dword_product_bound [OF _ s32, of "2 * m - s"] diff
    by (simp add: s_def unat_mult_no_wrap)
  obtain lo hi where mul: "mul128 amount f = (lo, hi)" by fastforce
  have "0 < m" using ms s2m by linarith
  have d: "unat (ucast medianSize :: u32) = m"
    using m32 by (simp add: unat_ucast_mod m_def)
  then have d0: "(ucast medianSize :: u32) \<noteq> 0" using \<open>0 < m\<close> by auto
  obtain h1 l1 r1 where 1: "div128_32 hi lo (ucast medianSize) = Some (h1, l1, r1)"
    using div128_32_step [OF d0, of hi lo] by blast
  obtain h2 l2 r2 where 2: "div128_32 h1 l1 (ucast medianSize) = Some (h2, l2, r2)"
    using div128_32_step [OF d0, of h1 l1] by blast
  define q where "q = unat amount * unat f div (m * m)"
  have res: "unat h2 * 2 ^ 64 + unat l2 = q"
    unfolding div128_32_correct(1) [OF d0 2] div128_32_correct(1) [OF d0 1] mul128_correct [OF mul] d q_def
    by (simp add: div_mult2_eq)
  have lt: "q < unat amount"
  proof -
    have "unat f < m * m" using penalty_factor [OF ms s2m] f by simp
    then have "unat amount * unat f < unat amount * (m * m)" using False by (simp add: unat_gt_0)
    then show ?thesis unfolding q_def using \<open>0 < m\<close> by (simp add: less_mult_imp_div_less)
  qed
  moreover have "unat amount < 2 ^ 64" using unsigned_less [of amount, where 'a = nat] by simp
  ultimately have "unat h2 = 0" using res by (cases "unat h2") simp_all
  then have l2: "unat l2 = q" using res by simp
  have "\<not> currentBlockSize \<le> medianSize" using assms(2) by simp
  then have "getPenalizedAmount amount medianSize currentBlockSize = Some l2"
    using False 1 2 mul unfolding f_def
    by (simp add: getPenalizedAmount_def)
  moreover have "l2 < amount" unfolding word_less_nat_alt l2 by (rule lt)
  moreover note l2 [unfolded q_def f m_def s_def]
  ultimately show ?thesis by (intro exI conjI impI)
qed

section \<open>Byte order\<close>

lemma bit_swap64_all: "\<forall>n \<in> set [0..<64]. bit (swap64 x) n = bit x (8 * (7 - n div 8) + n mod 8)"
  by (simp add: upt_rec swap64_def bit_simps) (simp add: numeral_eq_Suc)

lemma bit_swap64: "n < 64 \<Longrightarrow> bit (swap64 x) n \<longleftrightarrow> bit x (8 * (7 - n div 8) + n mod 8)"
  using bit_swap64_all [of x] by simp

lemma bit_le_bytes_word:
  assumes "i < 8" and "k < 8"
  shows "bit (le_bytes 8 (unat (x :: u64)) ! i) k \<longleftrightarrow> bit x (8 * i + k)"
proof -
  have "le_bytes 8 (unat x) ! i = word_of_nat (unat x div 2 ^ (8 * i))"
    using assms(1) by (simp add: le_bytes_nth power_mult word_of_nat_eq_iff take_bit_eq_mod)
  then show ?thesis using assms(2)
    by (simp add: bit_of_nat_iff bit_unsigned_iff bit_drop_bit_eq flip: drop_bit_eq_div)
qed

lemma swap64_bytes: "le_bytes 8 (unat (swap64 x)) = rev (le_bytes 8 (unat x))"
proof (rule nth_equalityI)
  show "length (le_bytes 8 (unat (swap64 x))) = length (rev (le_bytes 8 (unat x)))" by simp
next
  fix i assume "i < length (le_bytes 8 (unat (swap64 x)))"
  then have i: "i < 8" by simp
  show "le_bytes 8 (unat (swap64 x)) ! i = rev (le_bytes 8 (unat x)) ! i"
  proof (rule bit_word_eqI)
    fix k assume "k < LENGTH(8)"
    then have k: "k < 8" by simp
    have "bit (le_bytes 8 (unat (swap64 x)) ! i) k = bit x (8 * (7 - i) + k)"
      using i k by (simp add: bit_le_bytes_word bit_swap64)
    then show "bit (le_bytes 8 (unat (swap64 x)) ! i) k = bit (rev (le_bytes 8 (unat x)) ! i) k"
      using i k by (simp add: rev_nth bit_le_bytes_word)
  qed
qed

lemma swap64_involution: "swap64 (swap64 x) = x"
proof -
  have "le_nat (le_bytes 8 (unat (swap64 (swap64 x)))) = le_nat (le_bytes 8 (unat x))"
    by (simp only: swap64_bytes rev_rev_ident)
  then show ?thesis
    using unsigned_less [of x, where 'a = nat] unsigned_less [of "swap64 (swap64 x)", where 'a = nat]
    by (simp add: unat_arith_simps(3))
qed

section \<open>Properties\<close>

text \<open>
  C11: a hash passes \<^verbatim>\<open>check_hash\<close> exactly when its value, read as a 256-bit little-endian number,
  times the difficulty fits 256 bits; the word-by-word carry propagation is exact.
\<close>

theorem check_hash_exact:
  assumes "wf_hash h"
  shows "check_hash h difficulty \<longleftrightarrow> le_nat h * unat difficulty < 2 ^ 256"
  using assms by (rule check_hash_correct)

theorem check_hash_exact_witness:
  "check_hash (replicate 31 0 @ [1]) 255 \<and> \<not> check_hash (replicate 31 0 @ [1]) 256"
proof -
  have wf: "wf_hash (replicate 31 0 @ [1])" by (simp add: wf_hash_def)
  have "le_nat (replicate 31 0 @ [1]) = 256 ^ 31" by (simp add: le_nat_append)
  then show ?thesis
    using check_hash_exact [OF wf, of 255] check_hash_exact [OF wf, of 256] by simp
qed

text \<open>
  \<^verbatim>\<open>mul128\<close> returns the two words of the exact 128-bit product, and agrees with the variant of
  \<^verbatim>\<open>mul\<close> that uses the compiler's 128-bit integers, so the proof-of-work test does not depend on
  the platform.
\<close>

theorem mul128_exact:
  "(case mul128 m n of (lo, hi) \<Rightarrow> unat hi * 2 ^ 64 + unat lo = unat m * unat n)
   \<and> mul128 m n = mul_int128 m n"
  using mul128_correct [of m n] by (auto simp: mul128_eq_mul_int128)

text \<open>
  For a non-zero divisor \<^verbatim>\<open>div128_32\<close> returns the quotient and the remainder of the 128-bit
  dividend; for a zero divisor the hardware division traps.
\<close>

theorem div128_32_exact:
  "div128_32 hi lo 0 = None \<and>
   (divisor \<noteq> 0 \<longrightarrow>
     (\<exists>qh ql r. div128_32 hi lo divisor = Some (qh, ql, r)
        \<and> unat qh * 2 ^ 64 + unat ql = (unat hi * 2 ^ 64 + unat lo) div unat divisor
        \<and> unat r = (unat hi * 2 ^ 64 + unat lo) mod unat divisor))"
proof (intro conjI impI)
  show "div128_32 hi lo 0 = None" by (simp add: div128_32_def div_with_reminder_def)
next
  assume d: "divisor \<noteq> 0"
  then obtain qh ql r where "div128_32 hi lo divisor = Some (qh, ql, r)"
    using div128_32_step by blast
  with div128_32_correct [OF d this] show "\<exists>qh ql r. div128_32 hi lo divisor = Some (qh, ql, r)
        \<and> unat qh * 2 ^ 64 + unat ql = (unat hi * 2 ^ 64 + unat lo) div unat divisor
        \<and> unat r = (unat hi * 2 ^ 64 + unat lo) mod unat divisor"
    by (intro exI conjI)
qed

theorem div128_32_exact_witness:
  "(7 :: u32) \<noteq> 0 \<and> (\<exists>qh ql r. div128_32 1 5 7 = Some (qh, ql, r) \<and> unat r = (2 ^ 64 + 5) mod 7)"
  using div128_32_exact [of 1 5 7] by auto



end
