(* ===== verification/Streams.thy ===== *)
theory Streams
  imports Prelude
begin

unbundle bit_operations_syntax

text \<open>
  Byte streams and variable-length integers: the stream classes \<^verbatim>\<open>MemoryInputStream\<close>,
  \<^verbatim>\<open>StringInputStream\<close>, \<^verbatim>\<open>StringOutputStream\<close> and \<^verbatim>\<open>VectorOutputStream\<close> of \<^verbatim>\<open>lib/Common\<close>, the
  loops of \<^verbatim>\<open>StreamTools.cpp\<close> over them, and the varint codecs of \<^verbatim>\<open>StreamTools.cpp\<close> and
  \<^verbatim>\<open>Varint.h\<close>. The interface \<^verbatim>\<open>IInputStream\<close> is a locale; every reader of the later theories
  works on the bytes that are left in a stream (\<open>read_bytes\<close>), which the locale shows to be what
  the loop \<^verbatim>\<open>read\<close> does on any stream that satisfies the interface.
\<close>

section \<open>Definitions: streams\<close>

record MemoryInputStream =
  ms_buffer :: bytes
  ms_position :: nat

definition MemoryInputStream_new :: "bytes \<Rightarrow> MemoryInputStream" where
  "MemoryInputStream_new buf = \<lparr>ms_buffer = buf, ms_position = 0\<rparr>"

definition endOfStream :: "MemoryInputStream \<Rightarrow> bool" where
  "endOfStream s \<longleftrightarrow> ms_position s = length (ms_buffer s)"

definition MemoryInputStream_readSome :: "MemoryInputStream \<Rightarrow> nat \<Rightarrow> bytes \<times> MemoryInputStream" where
  "MemoryInputStream_readSome s sz =
     (let readSize = min sz (length (ms_buffer s) - ms_position s)
      in if readSize > 0
         then (take readSize (drop (ms_position s) (ms_buffer s)),
               s\<lparr>ms_position := ms_position s + readSize\<rparr>)
         else ([], s))"

record StringInputStream =
  ss_in :: bytes
  ss_offset :: nat

definition StringInputStream_readSome :: "StringInputStream \<Rightarrow> nat \<Rightarrow> bytes \<times> StringInputStream" where
  "StringInputStream_readSome s sz =
     (let sz = (if sz > length (ss_in s) - ss_offset s then length (ss_in s) - ss_offset s else sz)
      in (take sz (drop (ss_offset s) (ss_in s)), s\<lparr>ss_offset := ss_offset s + sz\<rparr>))"

text \<open>Both output streams append everything they are given; the result is the number of bytes written.\<close>

definition VectorOutputStream_writeSome :: "bytes \<Rightarrow> bytes \<Rightarrow> nat \<times> bytes" where
  "VectorOutputStream_writeSome out data = (length data, out @ data)"

definition StringOutputStream_writeSome :: "bytes \<Rightarrow> bytes \<Rightarrow> nat \<times> bytes" where
  "StringOutputStream_writeSome out data = (length data, out @ data)"

text \<open>\<^verbatim>\<open>read(IInputStream &, void *, size_t)\<close>: the loop around \<^verbatim>\<open>readSome\<close>.\<close>

function stream_read :: "('s \<Rightarrow> nat \<Rightarrow> bytes \<times> 's) \<Rightarrow> 's \<Rightarrow> nat \<Rightarrow> (bytes \<times> 's) result" where
  "stream_read readSome s sz =
     (if sz = 0 then Inr ([], s)
      else
        (case readSome s sz of (data, s') \<Rightarrow>
           if data = [] then Inl StreamReadFailed
           else (case stream_read readSome s' (sz - length data) of
                   Inl e \<Rightarrow> Inl e
                 | Inr (rest, s'') \<Rightarrow> Inr (data @ rest, s''))))"
  by pat_completeness auto
termination
  by (relation "measure (\<lambda>(readSome, s, sz). sz)") auto

declare stream_read.simps [simp del]

text \<open>\<^verbatim>\<open>write(IOutputStream &, const void *, size_t)\<close>: the loop around \<^verbatim>\<open>writeSome\<close>.\<close>

function stream_write :: "('s \<Rightarrow> bytes \<Rightarrow> nat \<times> 's) \<Rightarrow> 's \<Rightarrow> bytes \<Rightarrow> 's result" where
  "stream_write writeSome s data =
     (if data = [] then Inr s
      else
        (case writeSome s data of (writtenSize, s') \<Rightarrow>
           if writtenSize = 0 then Inl StreamWriteFailed
           else stream_write writeSome s' (drop writtenSize data)))"
  by pat_completeness auto
termination
  by (relation "measure (\<lambda>(writeSome, s, data). length data)") auto

declare stream_write.simps [simp del]

text \<open>
  The typed overloads of \<^verbatim>\<open>read\<close> and \<^verbatim>\<open>write\<close>, on the bytes that are left in the input and on the
  bytes written, for a little-endian machine (which the source assumes: its TODO comments).
\<close>

definition read_bytes :: "nat \<Rightarrow> bytes reader" where
  "read_bytes n bs = (if n \<le> length bs then Inr (take n bs, drop n bs) else Inl StreamReadFailed)"

definition read_u8 :: "u8 reader" where
  "read_u8 = rbind (read_bytes 1) (\<lambda>d. rret (word_of_nat (le_nat d)))"

definition read_u16 :: "u16 reader" where
  "read_u16 = rbind (read_bytes 2) (\<lambda>d. rret (word_of_nat (le_nat d)))"

definition read_u32 :: "u32 reader" where
  "read_u32 = rbind (read_bytes 4) (\<lambda>d. rret (word_of_nat (le_nat d)))"

definition read_u64 :: "u64 reader" where
  "read_u64 = rbind (read_bytes 8) (\<lambda>d. rret (word_of_nat (le_nat d)))"

definition write_u8 :: "u8 \<Rightarrow> bytes" where
  "write_u8 v = le_bytes 1 (unat v)"

definition write_u16 :: "u16 \<Rightarrow> bytes" where
  "write_u16 v = le_bytes 2 (unat v)"

definition write_u32 :: "u32 \<Rightarrow> bytes" where
  "write_u32 v = le_bytes 4 (unat v)"

definition write_u64 :: "u64 \<Rightarrow> bytes" where
  "write_u64 v = le_bytes 8 (unat v)"

section \<open>Definitions: varints\<close>

text \<open>
  \<^verbatim>\<open>readVarint\<close>: the overloads for 8, 16, 32 and 64 bits run the same loop with \<^verbatim>\<open>sizeof(temp) * 8\<close>
  equal to the width of the result.
\<close>

lemma read_u8_Nil_Cons: "read_u8 bs = (case bs of [] \<Rightarrow> Inl StreamReadFailed | b # bs' \<Rightarrow> Inr (b, bs'))"
  by (cases bs) (simp_all add: read_u8_def read_bytes_def rbind_def)

function readVarint_loop :: "'a::len word \<Rightarrow> nat \<Rightarrow> 'a word reader" where
  "readVarint_loop temp shift bs =
     (case read_u8 bs of
        Inl e \<Rightarrow> Inl e
      | Inr (piece, bs') \<Rightarrow>
          if LENGTH('a) - 7 \<le> shift \<and> 2 ^ (LENGTH('a) - shift) \<le> unat piece then Inl VarintOverflow
          else
            (let temp = temp OR push_bit shift (ucast (piece AND 0x7f))
             in if piece AND 0x80 = 0
                then (if piece = 0 \<and> shift \<noteq> 0 then Inl VarintRepresentation else Inr (temp, bs'))
                else readVarint_loop temp (shift + 7) bs'))"
  by pat_completeness auto
termination
  by (relation "measure (\<lambda>(temp, shift, bs). length bs)") (auto simp: read_u8_Nil_Cons neq_Nil_conv split: list.splits)

declare readVarint_loop.simps [simp del]

definition readVarint :: "'a::len word reader" where
  "readVarint = readVarint_loop 0 0"

text \<open>\<^verbatim>\<open>writeVarint(IOutputStream &, uint64_t)\<close>, the only overload that \<^verbatim>\<open>StreamTools.h\<close> declares.\<close>

function writeVarint :: "u64 \<Rightarrow> bytes" where
  "writeVarint value =
     (if value \<ge> 0x80 then ucast (value OR 0x80) # writeVarint (drop_bit 7 value)
      else [ucast value])"
  by pat_completeness auto
termination
proof (relation "measure unat")
  fix v :: u64
  assume "v \<ge> 0x80"
  then have "0 < unat v" by (simp add: word_le_nat_alt)
  then show "(drop_bit 7 v, v) \<in> measure unat"
    by (simp add: unat_drop_bit_div)
qed simp

declare writeVarint.simps [simp del]

text \<open>\<^verbatim>\<open>Tools::write_varint\<close> and \<^verbatim>\<open>get_varint_data\<close> of \<^verbatim>\<open>Varint.h\<close>, at 64 bits.\<close>

function write_varint :: "u64 \<Rightarrow> bytes" where
  "write_varint i =
     (if i \<ge> 0x80 then ((ucast i AND 0x7f) OR 0x80) # write_varint (drop_bit 7 i)
      else [ucast i])"
  by pat_completeness auto
termination
proof (relation "measure unat")
  fix i :: u64
  assume "i \<ge> 0x80"
  then have "0 < unat i" by (simp add: word_le_nat_alt)
  then show "(drop_bit 7 i, i) \<in> measure unat"
    by (simp add: unat_drop_bit_div)
qed simp

declare write_varint.simps [simp del]

definition get_varint_data :: "u64 \<Rightarrow> bytes" where
  "get_varint_data v = write_varint v"

text \<open>
  \<^verbatim>\<open>Tools::read_varint\<close>: returns the number of bytes read, -1 for an overflow or -2 for a
  non-canonical form, and leaves what was accumulated so far in the output parameter. At the end
  of the input it returns the count read so far.
\<close>

fun read_varint_loop :: "nat \<Rightarrow> int \<Rightarrow> u64 \<Rightarrow> nat \<Rightarrow> bytes \<Rightarrow> int \<times> u64" where
  "read_varint_loop bits rd i shift [] = (rd, i)"
| "read_varint_loop bits rd i shift (byte # rest) =
     (let rd = rd + 1
      in if bits \<le> shift + 7 \<and> 2 ^ (bits - shift) \<le> unat byte then (- 1, i)
         else if byte = 0 \<and> shift \<noteq> 0 then (- 2, i)
         else
           (let i = i OR push_bit shift (ucast (byte AND 0x7f))
            in if byte AND 0x80 = 0 then (rd, i) else read_varint_loop bits rd i (shift + 7) rest))"

definition read_varint :: "bytes \<Rightarrow> int \<times> u64" where
  "read_varint input = read_varint_loop 64 0 0 0 input"

text \<open>The abstract encoding: base 128, least significant digit first, continuation bit on all but the last.\<close>

fun varint_bytes :: "nat \<Rightarrow> bytes" where
  "varint_bytes n = (if n < 128 then [word_of_nat n] else word_of_nat (n mod 128 + 128) # varint_bytes (n div 128))"

declare varint_bytes.simps [simp del]

section \<open>The input stream interface\<close>

text \<open>
  What \<^verbatim>\<open>StreamTools.cpp\<close> relies on of an \<^verbatim>\<open>IInputStream\<close>: a call hands out a prefix of what is left,
  at most as much as asked for, and something unless the stream is at its end.
\<close>

locale IInputStream =
  fixes readSome :: "'s \<Rightarrow> nat \<Rightarrow> bytes \<times> 's"
    and content :: "'s \<Rightarrow> bytes"
    and ok :: "'s \<Rightarrow> bool"
  assumes readSome_content: "ok s \<Longrightarrow> readSome s n = (d, s') \<Longrightarrow> content s = d @ content s'"
    and readSome_length: "ok s \<Longrightarrow> readSome s n = (d, s') \<Longrightarrow> length d \<le> n"
    and readSome_progress: "ok s \<Longrightarrow> readSome s n = (d, s') \<Longrightarrow> n > 0 \<Longrightarrow> content s \<noteq> [] \<Longrightarrow> d \<noteq> []"
    and readSome_ok: "ok s \<Longrightarrow> readSome s n = (d, s') \<Longrightarrow> ok s'"
begin

lemma stream_read_content:
  "ok s \<Longrightarrow> (case stream_read readSome s n of
     Inl e \<Rightarrow> e = StreamReadFailed \<and> length (content s) < n
   | Inr (d, s') \<Rightarrow> n \<le> length (content s) \<and> d = take n (content s) \<and> content s' = drop n (content s) \<and> ok s')"
proof (induction n arbitrary: s rule: less_induct)
  case (less n)
  obtain d s' where r: "readSome s n = (d, s')" by fastforce
  note facts = readSome_content [OF less.prems r] readSome_length [OF less.prems r]
    readSome_progress [OF less.prems r] readSome_ok [OF less.prems r]
  show ?case
  proof (cases "n = 0 \<or> d = []")
    case True
    then show ?thesis
      using r facts less.prems
      by (cases "content s = []") (auto simp: stream_read.simps [of readSome s n])
  next
    case False
    then have "n - length d < n" by simp
    from less.IH [OF this facts(4)] show ?thesis
      using False r facts(1,2) by (auto simp: stream_read.simps [of readSome s n] split: sum.splits)
  qed
qed

lemma stream_read_refines:
  assumes "ok s"
  shows "map_sum id (\<lambda>(d, s'). (d, content s')) (stream_read readSome s n) = read_bytes n (content s)"
  using stream_read_content [OF assms, of n] by (auto simp: read_bytes_def split: sum.splits)

end

definition ms_content :: "MemoryInputStream \<Rightarrow> bytes" where
  "ms_content s = drop (ms_position s) (ms_buffer s)"

definition ms_ok :: "MemoryInputStream \<Rightarrow> bool" where
  "ms_ok s \<longleftrightarrow> ms_position s \<le> length (ms_buffer s)"

definition ss_content :: "StringInputStream \<Rightarrow> bytes" where
  "ss_content s = drop (ss_offset s) (ss_in s)"

definition ss_ok :: "StringInputStream \<Rightarrow> bool" where
  "ss_ok s \<longleftrightarrow> ss_offset s \<le> length (ss_in s)"

lemma drop_split: "drop p b = take k (drop p b) @ drop (p + k) b"
  by (metis append_take_drop_id drop_drop add.commute)

interpretation mis: IInputStream MemoryInputStream_readSome ms_content ms_ok
proof unfold_locales
  fix s n d s'
  assume ok: "ms_ok s" and r: "MemoryInputStream_readSome s n = (d, s')"
  show "ms_content s = d @ ms_content s'" "length d \<le> n" "ms_ok s'"
    using ok r by (auto simp: MemoryInputStream_readSome_def ms_content_def ms_ok_def Let_def
        split: if_splits intro: drop_split)
  show "n > 0 \<Longrightarrow> ms_content s \<noteq> [] \<Longrightarrow> d \<noteq> []"
    using ok r by (auto simp: MemoryInputStream_readSome_def ms_content_def ms_ok_def Let_def split: if_splits)
qed

interpretation sis: IInputStream StringInputStream_readSome ss_content ss_ok
proof unfold_locales
  fix s n d s'
  assume ok: "ss_ok s" and r: "StringInputStream_readSome s n = (d, s')"
  show "ss_content s = d @ ss_content s'" "length d \<le> n" "ss_ok s'"
    using ok r by (auto simp: StringInputStream_readSome_def ss_content_def ss_ok_def Let_def
        split: if_splits intro: drop_split)
  show "n > 0 \<Longrightarrow> ss_content s \<noteq> [] \<Longrightarrow> d \<noteq> []"
    using ok r by (auto simp: StringInputStream_readSome_def ss_content_def ss_ok_def Let_def split: if_splits)
qed

lemma stream_write_vector: "stream_write VectorOutputStream_writeSome out data = Inr (out @ data)"
  by (subst stream_write.simps)
    (simp add: VectorOutputStream_writeSome_def stream_write.simps [of _ _ "[]"])

lemma stream_write_string: "stream_write StringOutputStream_writeSome out data = Inr (out @ data)"
  by (subst stream_write.simps)
    (simp add: StringOutputStream_writeSome_def stream_write.simps [of _ _ "[]"])

lemma ms_content_new: "ms_content (MemoryInputStream_new bs) = bs" "ms_ok (MemoryInputStream_new bs)"
  by (simp_all add: ms_content_def ms_ok_def MemoryInputStream_new_def)

lemma endOfStream_content: "ms_ok s \<Longrightarrow> endOfStream s \<longleftrightarrow> ms_content s = []"
  by (auto simp: endOfStream_def ms_content_def ms_ok_def)

section \<open>Fixed-width integers\<close>

lemma read_bytes_append [reads]: "length d = n \<Longrightarrow> read_bytes n (d @ rest) = Inr (d, rest)"
  by (simp add: read_bytes_def)

lemma read_u8_Cons [reads]: "read_u8 (b # rest) = Inr (b, rest)"
  by (simp add: read_u8_Nil_Cons)

lemma write_u8_Cons [simp]: "write_u8 b = [b]"
  using le_bytes_le_nat [of "[b]"] by (simp add: write_u8_def)

lemma read_write_u16 [reads]: "read_u16 (write_u16 v @ rest) = Inr (v, rest)"
  using unsigned_less [of v, where 'a = nat]
  by (simp add: read_u16_def write_u16_def rbind_def read_bytes_append)

lemma read_write_u32 [reads]: "read_u32 (write_u32 v @ rest) = Inr (v, rest)"
  using unsigned_less [of v, where 'a = nat]
  by (simp add: read_u32_def write_u32_def rbind_def read_bytes_append)

lemma read_write_u64 [reads]: "read_u64 (write_u64 v @ rest) = Inr (v, rest)"
  using unsigned_less [of v, where 'a = nat]
  by (simp add: read_u64_def write_u64_def rbind_def read_bytes_append)

section \<open>Varints\<close>

lemma unat_ge_0x80: "v \<ge> 0x80 \<longleftrightarrow> 128 \<le> unat (v :: u64)"
  by (simp add: word_le_nat_alt)

lemma unat_and_0x7f: "unat (b AND 0x7f :: u8) = unat b mod 128"
proof -
  have "b AND 0x7f = b AND mask 7" by (simp add: mask_eq_exp_minus_1)
  then show ?thesis by (simp only: unat_and_mask) simp
qed

lemma and_0x80_zero_iff: "b AND 0x80 = 0 \<longleftrightarrow> unat (b :: u8) < 128"
proof -
  have "b AND 0x80 = 0 \<longleftrightarrow> \<not> bit b 7"
    using and_exp_eq_0_iff_not_bit [of b 7] by simp
  also have "\<dots> \<longleftrightarrow> even (unat b div 128)"
  proof -
    have "bit b 7 = bit (unat b) 7" by (simp add: bit_unsigned_iff)
    also have "\<dots> = odd (unat b div 2 ^ 7)" by (rule bit_iff_odd)
    finally show ?thesis by simp
  qed
  also have "\<dots> \<longleftrightarrow> unat b < 128"
  proof -
    have "unat b div 128 < 2" using unat_byte_bound [of b] by (simp add: less_mult_imp_div_less)
    then show ?thesis by (auto simp: less_2_cases_iff div_eq_0_iff)
  qed
  finally show ?thesis .
qed
lemma or_0x80: "unat ((b AND 0x7f) OR 0x80 :: u8) = unat b mod 128 + 128"
proof -
  have "unat (b AND 0x7f) < 2 ^ 7" by (simp add: unat_and_0x7f)
  from unat_or_disjoint [OF this, of "0x80"] show ?thesis by (simp add: unat_and_0x7f)
qed

lemma ucast_or_0x80: "(ucast (v OR 0x80) :: u8) = (ucast v AND 0x7f) OR 0x80" for v :: u64
  by (rule bit_word_eqI) (auto simp: bit_simps less_Suc_eq numeral_eq_Suc)

lemma writeVarint_eq_write_varint: "writeVarint v = write_varint v"
  by (induction v rule: writeVarint.induct)
    (simp add: writeVarint.simps [of v for v] write_varint.simps [of v for v] ucast_or_0x80)

lemma write_varint_eq_varint_bytes: "write_varint v = varint_bytes (unat v)"
proof (induction v rule: write_varint.induct)
  case (1 v)
  show ?case
  proof (cases "v \<ge> 0x80")
    case True
    have "(ucast v AND 0x7f) OR 0x80 = (word_of_nat (unat v mod 128 + 128) :: u8)"
    proof -
      have "unat ((ucast v AND 0x7f) OR 0x80 :: u8) = unat v mod 128 + 128"
        using mod_mod_cancel [of 128 256 "unat v"] by (simp add: or_0x80 unat_ucast_mod)
      then show ?thesis by (rule word_eq_of_natI)
    qed
    then show ?thesis
      using True "1.IH" unfolding unat_ge_0x80
      by (simp add: write_varint.simps [of v] varint_bytes.simps [of "unat v"] unat_ge_0x80 unat_drop_bit_div)
  next
    case False
    then show ?thesis
      by (simp add: write_varint.simps [of v] varint_bytes.simps [of "unat v"] unat_ge_0x80)
  qed
qed

lemma writeVarint_eq_varint_bytes: "writeVarint v = varint_bytes (unat v)"
  by (simp add: writeVarint_eq_write_varint write_varint_eq_varint_bytes)

text \<open>One step of the reader, on natural numbers.\<close>

lemma unat_or_piece:
  fixes temp :: "'a::len word"
  assumes "unat temp < 2 ^ shift" and "unat p * 2 ^ shift < 2 ^ LENGTH('a)"
  shows "unat (temp OR push_bit shift (ucast (p :: u8))) = unat temp + unat p * 2 ^ shift"
proof -
  have "unat p mod 2 ^ LENGTH('a) * 2 ^ shift mod 2 ^ LENGTH('a) = unat p * 2 ^ shift mod 2 ^ LENGTH('a)"
    by (rule mod_mult_left_eq)
  then have *: "unat (push_bit shift (ucast p) :: 'a word) = unat p * 2 ^ shift"
    using assms(2) by (simp add: unat_push_bit unat_ucast_mod)
  then show ?thesis
    using unat_or_disjoint [OF assms(1), of "push_bit shift (ucast p)"] by simp
qed

lemma base128_shift: "(a + 128 * b) * 2 ^ s = a * 2 ^ s + b * 2 ^ (s + 7)" for a b s :: nat
  by (simp add: power_add algebra_simps)

lemma readVarint_loop_varint_bytes:
  fixes temp :: "'a::len word"
  assumes "unat temp < 2 ^ shift" and "n * 2 ^ shift < 2 ^ LENGTH('a)" and "shift \<noteq> 0 \<longrightarrow> n \<noteq> 0"
    and "shift < LENGTH('a)"
  shows "\<exists>x. readVarint_loop temp shift (varint_bytes n @ rest) = Inr (x, rest)
    \<and> unat (x :: 'a word) = unat temp + n * 2 ^ shift"
  using assms
proof (induction n arbitrary: temp shift rule: varint_bytes.induct)
  case (1 n)
  define piece :: u8 where "piece = word_of_nat (if n < 128 then n else n mod 128 + 128)"
  have piece: "unat piece = (if n < 128 then n else n mod 128 + 128)"
    by (simp add: piece_def unat_of_nat)
  have bytes: "varint_bytes n = piece # (if n < 128 then [] else varint_bytes (n div 128))"
    by (simp add: varint_bytes.simps [of n] piece_def)
  have mod: "unat (piece AND 0x7f) = n mod 128" by (simp add: unat_and_0x7f piece)
  have no_overflow: "\<not> (LENGTH('a) - 7 \<le> shift \<and> 2 ^ (LENGTH('a) - shift) \<le> unat piece)"
  proof
    assume *: "LENGTH('a) - 7 \<le> shift \<and> 2 ^ (LENGTH('a) - shift) \<le> unat piece"
    have "n * 2 ^ shift < 2 ^ (LENGTH('a) - shift) * 2 ^ shift"
      using "1.prems"(2,4) by (simp flip: power_add)
    then have n: "n < 2 ^ (LENGTH('a) - shift)" by simp
    moreover have "(2 :: nat) ^ (LENGTH('a) - shift) \<le> 2 ^ 7" using * by (intro power_increasing) auto
    ultimately have "n < 128" by simp
    with n * piece show False by simp
  qed
  have "n mod 128 * 2 ^ shift \<le> n * 2 ^ shift" by simp
  with "1.prems"(2) have fits: "unat (piece AND 0x7f) * 2 ^ shift < 2 ^ LENGTH('a)"
    unfolding mod by linarith
  define temp' where "temp' = temp OR push_bit shift (ucast (piece AND 0x7f))"
  have temp': "unat temp' = unat temp + n mod 128 * 2 ^ shift"
    unfolding temp'_def unat_or_piece [OF "1.prems"(1) fits] mod by simp
  show ?case
  proof (cases "n < 128")
    case True
    have "piece AND 0x80 = 0" unfolding and_0x80_zero_iff piece using True by simp
    moreover have "\<not> (piece = 0 \<and> shift \<noteq> 0)"
      using "1.prems"(3) piece True by (metis unsigned_0)
    ultimately have "readVarint_loop temp shift (varint_bytes n @ rest) = Inr (temp', rest)"
      using no_overflow True unfolding temp'_def
      by (simp add: readVarint_loop.simps [of temp shift] bytes read_u8_Cons)
    then show ?thesis using temp' True by simp
  next
    case False
    then have "\<not> piece AND 0x80 = 0" unfolding and_0x80_zero_iff piece by simp
    then have step: "readVarint_loop temp shift (varint_bytes n @ rest)
        = readVarint_loop temp' (shift + 7) (varint_bytes (n div 128) @ rest)"
      using no_overflow False unfolding temp'_def
      by (auto simp: readVarint_loop.simps [of temp shift] bytes read_u8_Cons Let_def)
    have "n div 128 * 2 ^ (shift + 7) \<le> n * 2 ^ shift"
      by (simp add: power_add)
    moreover have "unat temp' < 2 ^ (shift + 7)"
    proof -
      have "n mod 128 * 2 ^ shift \<le> 127 * 2 ^ shift" by simp
      with "1.prems"(1) have "unat temp' < 2 ^ shift + 127 * 2 ^ shift" unfolding temp' by linarith
      then show ?thesis by (simp add: power_add)
    qed
    moreover have "n div 128 \<noteq> 0" using False by (simp add: div_eq_0_iff)
    moreover have "shift + 7 < LENGTH('a)"
    proof (rule ccontr)
      assume "\<not> ?thesis"
      then have "(2 :: nat) ^ LENGTH('a) \<le> 2 ^ (shift + 7)" by (intro power_increasing) simp_all
      also have "\<dots> = 128 * 2 ^ shift" by (simp add: power_add)
      also have "\<dots> \<le> n * 2 ^ shift" using False by simp
      finally show False using "1.prems"(2) by simp
    qed
    ultimately obtain x where "readVarint_loop temp' (shift + 7) (varint_bytes (n div 128) @ rest) = Inr (x, rest)"
      "unat x = unat temp' + n div 128 * 2 ^ (shift + 7)"
      using "1.IH" [OF False, of temp' "shift + 7"] "1.prems"(2) by auto
    moreover have "n mod 128 * 2 ^ shift + n div 128 * 2 ^ (shift + 7) = n * 2 ^ shift"
      using base128_shift [of "n mod 128" "n div 128" shift] by simp
    ultimately show ?thesis using step temp' by auto
  qed
qed

lemma varint_bytes_Cons:
  assumes "128 \<le> unat (piece :: u8)" and "m \<noteq> 0"
  shows "varint_bytes (unat piece mod 128 + 128 * m) = piece # varint_bytes m"
proof -
  have "unat piece < 256" by simp
  then have "(unat piece - 128) mod 128 = unat piece - 128" by (intro mod_less) linarith
  then have "unat piece mod 128 + 128 = unat piece" using assms(1) by (simp add: le_mod_geq)
  moreover have "\<not> unat piece mod 128 + 128 * m < 128" using assms(2) by simp
  ultimately show ?thesis
    by (simp add: varint_bytes.simps [of "unat piece mod 128 + 128 * m"] flip: word_of_nat_eq_iff)
qed

lemma piece_fits:
  assumes "\<not> (w - 7 \<le> shift \<and> 2 ^ (w - shift) \<le> unat (piece :: u8))" and "unat piece < 128" and "shift < w"
  shows "unat piece * 2 ^ shift < (2 :: nat) ^ w"
proof (cases "w - 7 \<le> shift")
  case True
  with assms(1) have "unat piece < 2 ^ (w - shift)" by simp
  then have "unat piece * 2 ^ shift < 2 ^ (w - shift) * 2 ^ shift" by simp
  also have "\<dots> = 2 ^ w" using assms(3) by (simp flip: power_add)
  finally show ?thesis .
next
  case False
  have "unat piece * 2 ^ shift < 2 ^ 7 * 2 ^ shift" using assms(2) by simp
  also have "\<dots> \<le> 2 ^ w" unfolding power_add [symmetric] using False by (intro power_increasing) auto
  finally show ?thesis .
qed

lemma readVarint_loop_canonical:
  fixes temp :: "'a::len word"
  assumes "readVarint_loop temp shift bs = Inr (x, rest)" and "unat temp < 2 ^ shift" and "shift < LENGTH('a)"
  shows "\<exists>n. bs = varint_bytes n @ rest \<and> unat x = unat temp + n * 2 ^ shift
    \<and> n * 2 ^ shift < 2 ^ LENGTH('a) \<and> (shift \<noteq> 0 \<longrightarrow> n \<noteq> 0)"
  using assms
proof (induction bs arbitrary: temp shift)
  case Nil
  then show ?case by (simp add: readVarint_loop.simps read_u8_Nil_Cons)
next
  case (Cons piece bs)
  define temp' where "temp' = temp OR push_bit shift (ucast (piece AND 0x7f))"
  have ok: "\<not> (LENGTH('a) - 7 \<le> shift \<and> 2 ^ (LENGTH('a) - shift) \<le> unat piece)"
    using Cons.prems(1) by (auto simp: readVarint_loop.simps [of temp shift] read_u8_Cons)
  show ?case
  proof (cases "unat piece < 128")
    case True
    with Cons.prems(1) ok have "x = temp'" "rest = bs" "\<not> (piece = 0 \<and> shift \<noteq> 0)"
      unfolding temp'_def and_0x80_zero_iff [symmetric]
      by (auto simp: readVarint_loop.simps [of temp shift] read_u8_Cons Let_def split: if_splits)
    moreover have "unat (piece AND 0x7f) = unat piece" using True by (simp add: unat_and_0x7f)
    moreover note piece_fits [OF ok True Cons.prems(3)]
    ultimately show ?thesis
      using unat_or_piece [OF Cons.prems(2), of "piece AND 0x7f"] True unfolding temp'_def
      by (intro exI [of _ "unat piece"]) (auto simp: varint_bytes.simps [of "unat piece"] unat_eq_zero)
  next
    case False
    with Cons.prems(1) ok have rec: "readVarint_loop temp' (shift + 7) bs = Inr (x, rest)"
      unfolding temp'_def and_0x80_zero_iff [symmetric]
      by (auto simp: readVarint_loop.simps [of temp shift] read_u8_Cons Let_def)
    have shift7: "shift + 7 < LENGTH('a)"
    proof (rule ccontr)
      assume *: "\<not> ?thesis"
      then have "(2 :: nat) ^ (LENGTH('a) - shift) \<le> 2 ^ 7" by (intro power_increasing) auto
      with * False ok show False by simp
    qed
    have "(2 :: nat) ^ (shift + 7) \<le> 2 ^ LENGTH('a)" using shift7 by (intro power_increasing) auto
    moreover have "unat piece mod 128 * 2 ^ shift \<le> 127 * 2 ^ shift" by simp
    moreover have "(127 :: nat) * 2 ^ shift < 2 ^ (shift + 7)" by (simp add: power_add)
    ultimately have fits: "unat (piece AND 0x7f) * 2 ^ shift < 2 ^ LENGTH('a)"
      unfolding unat_and_0x7f by linarith
    have temp': "unat temp' = unat temp + unat piece mod 128 * 2 ^ shift"
      unfolding temp'_def unat_or_piece [OF Cons.prems(2) fits] unat_and_0x7f by simp
    with Cons.prems(2) \<open>unat piece mod 128 * 2 ^ shift \<le> _\<close>
    have "unat temp' < 2 ^ shift + 127 * 2 ^ shift" by linarith
    then have "unat temp' < 2 ^ (shift + 7)" by (simp add: power_add)
    from Cons.IH [OF rec this shift7] obtain n where n: "bs = varint_bytes n @ rest"
      "unat x = unat temp' + n * 2 ^ (shift + 7)" "n * 2 ^ (shift + 7) < 2 ^ LENGTH('a)" "n \<noteq> 0"
      by auto
    let ?m = "unat piece mod 128 + 128 * n"
    have m: "?m * 2 ^ shift = unat piece mod 128 * 2 ^ shift + n * 2 ^ (shift + 7)"
      by (rule base128_shift)
    have "piece # bs = varint_bytes ?m @ rest"
      using n(1,4) False varint_bytes_Cons [of piece n] by simp
    moreover have "unat x = unat temp + ?m * 2 ^ shift" using n(2) temp' m by simp
    moreover from this have "?m * 2 ^ shift < 2 ^ LENGTH('a)"
      using unsigned_less [of x, where 'a = nat] by linarith
    moreover have "?m \<noteq> 0" using n(4) by simp
    ultimately show ?thesis by blast
  qed
qed

lemma readVarint_varint_bytes [reads]:
  fixes x :: "'a::len word"
  assumes "7 \<le> LENGTH('a)"
  shows "readVarint (varint_bytes (unat x) @ rest) = Inr (x, rest)"
proof -
  have "unat x * 2 ^ 0 < 2 ^ LENGTH('a)" using unsigned_less [of x, where 'a = nat] by simp
  then obtain y :: "'a word" where "readVarint_loop 0 0 (varint_bytes (unat x) @ rest) = Inr (y, rest)"
    "unat y = unat x"
    using readVarint_loop_varint_bytes [of "0 :: 'a word" 0 "unat x" rest] by auto
  then show ?thesis by (simp add: readVarint_def unat_arith_simps(3))
qed

lemma readVarint_iff:
  fixes x :: "'a::len word"
  assumes "7 \<le> LENGTH('a)"
  shows "readVarint bs = Inr (x, rest) \<longleftrightarrow> bs = varint_bytes (unat x) @ rest"
  using readVarint_loop_canonical [of "0 :: 'a word" 0 bs x rest] readVarint_varint_bytes [OF assms, of x rest]
  by (auto simp: readVarint_def)

lemma varint_bytes_not_Nil [simp]: "varint_bytes n \<noteq> []"
  by (simp add: varint_bytes.simps [of n])

lemma length_varint_bytes: "n < 128 ^ k \<Longrightarrow> 0 < k \<Longrightarrow> length (varint_bytes n) \<le> k"
proof (induction k arbitrary: n)
  case 0
  then show ?case by simp
next
  case (Suc k)
  show ?case
  proof (cases "n < 128")
    case True
    then show ?thesis by (simp add: varint_bytes.simps [of n])
  next
    case False
    with Suc.prems have "0 < k" by (cases k) auto
    moreover have "n div 128 < 128 ^ k" using Suc.prems by (simp add: less_mult_imp_div_less mult.commute)
    ultimately show ?thesis using Suc.IH [of "n div 128"] False by (simp add: varint_bytes.simps [of n])
  qed
qed

lemma length_writeVarint: "length (writeVarint v) \<le> 10"
proof -
  have "unat v < 128 ^ 10" using unsigned_less [of v, where 'a = nat] by (simp add: less_le_trans)
  then show ?thesis unfolding writeVarint_eq_varint_bytes by (rule length_varint_bytes) simp
qed

lemma writeVarint_not_Nil [simp]: "writeVarint v \<noteq> []"
  by (simp add: writeVarint_eq_varint_bytes)

lemma readVarint_writeVarint [reads]:
  fixes x :: "'a::len word"
  assumes "7 \<le> LENGTH('a)" and "LENGTH('a) \<le> 64"
  shows "readVarint (writeVarint (ucast x) @ rest) = Inr (x, rest)"
  using assms by (simp add: writeVarint_eq_varint_bytes readVarint_varint_bytes unat_ucast_up)

lemma read_varint_loop_readVarint_loop:
  assumes "readVarint_loop (i :: u64) shift bs = Inr (x, rest)"
  shows "read_varint_loop 64 rd i shift bs = (rd + int (length bs) - int (length rest), x)"
  using assms
proof (induction bs arbitrary: i shift rd)
  case Nil
  then show ?case by (simp add: readVarint_loop.simps read_u8_Nil_Cons)
next
  case (Cons piece bs)
  have eq: "(64 \<le> shift + 7) = (57 \<le> shift)" by linarith
  show ?case
  proof (cases "piece AND 0x80 = 0")
    case True
    with Cons.prems show ?thesis
      by (auto simp: readVarint_loop.simps [of i shift] read_u8_Cons Let_def eq split: if_splits)
  next
    case False
    with Cons.prems Cons.IH [of _ _ "rd + 1"] show ?thesis
      by (auto simp: readVarint_loop.simps [of i shift] read_u8_Cons Let_def eq split: if_splits)
  qed
qed

lemma read_varint_get_varint_data:
  "read_varint (get_varint_data v @ rest) = (int (length (get_varint_data v)), v)"
  using read_varint_loop_readVarint_loop [of 0 0 "get_varint_data v @ rest" v rest 0]
    readVarint_varint_bytes [of v rest]
  by (simp add: read_varint_def get_varint_data_def write_varint_eq_varint_bytes readVarint_def)

section \<open>Codecs\<close>

text \<open>
  The contract between a writer and the reader of the same format: the reader takes exactly what
  the writer produced off the front of the input. A canonical format has no other accepted input.
\<close>

locale codec =
  fixes encode :: "'a \<Rightarrow> bytes"
    and decode :: "'a reader"
    and valid :: "'a \<Rightarrow> bool"
  assumes decode_encode: "valid x \<Longrightarrow> decode (encode x @ rest) = Inr (x, rest)"
begin

lemma prefix_free:
  assumes "valid x" and "valid y" and "encode x @ r = encode y @ r'"
  shows "x = y \<and> r = r'"
  using decode_encode [OF assms(1), of r, unfolded assms(3)] decode_encode [OF assms(2), of r'] by simp

lemma encode_inj: "inj_on encode {x. valid x}"
proof (rule inj_onI)
  fix x y
  assume "x \<in> {x. valid x}" "y \<in> {x. valid x}" "encode x = encode y"
  then show "x = y" using prefix_free [of x y "[]" "[]"] by simp
qed

lemma decode_many:
  assumes "list_all valid xs"
  shows "rrepeat (length xs) decode (concat (map encode xs) @ rest) = Inr (xs, rest)"
proof (rule rrepeat_concat)
  fix x rest'
  assume "x \<in> set xs"
  with assms have "valid x" by (simp add: list_all_iff)
  then show "decode (encode x @ rest') = Inr (x, rest')" by (rule decode_encode)
qed

end

locale canonical_codec = codec +
  assumes decode_canonical: "decode bs = Inr (x, rest) \<Longrightarrow> valid x \<and> bs = encode x @ rest"
begin

lemma decode_iff: "decode bs = Inr (x, rest) \<longleftrightarrow> valid x \<and> bs = encode x @ rest"
  using decode_encode decode_canonical by blast

lemma many_canonical:
  "rrepeat n decode bs = Inr (xs, rest) \<Longrightarrow> list_all valid xs \<and> bs = concat (map encode xs) @ rest"
proof (induction n arbitrary: bs xs)
  case 0
  then show ?case by simp
next
  case (Suc n)
  then obtain x bs' ys where "decode bs = Inr (x, bs')" "rrepeat n decode bs' = Inr (ys, rest)" "xs = x # ys"
    by (auto simp: rbind_eq_Inr_iff)
  with Suc.IH [of bs' ys] show ?case by (auto simp: decode_iff)
qed

end

interpretation byte_codec: canonical_codec "\<lambda>b. [b]" read_u8 "\<lambda>_. True"
  by unfold_locales (auto simp: read_u8_Nil_Cons split: list.splits)

interpretation varint64: canonical_codec writeVarint "readVarint :: u64 reader" "\<lambda>_. True"
  by unfold_locales (simp_all add: readVarint_iff writeVarint_eq_varint_bytes)

interpretation varint32: canonical_codec "\<lambda>v. writeVarint (ucast v)" "readVarint :: u32 reader" "\<lambda>_. True"
  by unfold_locales (simp_all add: readVarint_iff writeVarint_eq_varint_bytes unat_ucast_up)

interpretation varint8: canonical_codec "\<lambda>v. writeVarint (ucast v)" "readVarint :: u8 reader" "\<lambda>_. True"
  by unfold_locales (simp_all add: readVarint_iff writeVarint_eq_varint_bytes unat_ucast_up)

lemma read_bytes_iff: "read_bytes n bs = Inr (d, rest) \<longleftrightarrow> length d = n \<and> bs = d @ rest"
  by (auto simp: read_bytes_def min_def)

interpretation hash_codec: canonical_codec "\<lambda>h. h" "read_bytes 32" wf_hash
  by unfold_locales (simp_all add: read_bytes_iff wf_hash_def)

section \<open>Properties\<close>

text \<open>
  C26: Variable-length integers are read back exactly. A 64-bit, 32-bit or 8-bit read succeeds with
  value \<open>x\<close> and leaves \<open>rest\<close> precisely when the input is what \<^verbatim>\<open>writeVarint\<close> produces for \<open>x\<close> followed
  by \<open>rest\<close>: nothing is lost on a round trip, and over-long or overflowing encodings are all rejected.
\<close>

theorem varint_exact:
  "(readVarint bs = Inr (x :: u64, rest) \<longleftrightarrow> bs = writeVarint x @ rest) \<and>
   (readVarint bs = Inr (y :: u32, rest) \<longleftrightarrow> bs = writeVarint (ucast y) @ rest) \<and>
   (readVarint bs = Inr (z :: u8, rest) \<longleftrightarrow> bs = writeVarint (ucast z) @ rest)"
  using varint64.decode_iff [of bs x rest] varint32.decode_iff [of bs y rest] varint8.decode_iff [of bs z rest]
  by (auto simp: eq_commute [of bs])

text \<open>
  The two varint writers of the code base produce the same bytes, at most ten of them, and
  \<^verbatim>\<open>Tools::read_varint\<close> on such bytes returns the value and the number of bytes it occupies.
\<close>

theorem tools_varint_agrees:
  "get_varint_data v = writeVarint v \<and> length (writeVarint v) \<le> 10 \<and>
   read_varint (writeVarint v @ rest) = (int (length (writeVarint v)), v)"
  using read_varint_get_varint_data [of v rest] length_writeVarint [of v]
  by (simp add: get_varint_data_def writeVarint_eq_write_varint)

text \<open>
  C27: The read loop of \<^verbatim>\<open>StreamTools.cpp\<close>, run over the two concrete input streams, implements reading
  \<open>n\<close> bytes from the front of what is left: same bytes, same remaining content, and the same failure
  exactly when fewer than \<open>n\<close> bytes are left, however the stream splits the data.
\<close>

theorem stream_read_implements_read_bytes:
  assumes "ms_ok s" and "ss_ok t"
  shows "map_sum id (\<lambda>(d, s'). (d, ms_content s')) (stream_read MemoryInputStream_readSome s n)
           = read_bytes n (ms_content s) \<and>
         map_sum id (\<lambda>(d, t'). (d, ss_content t')) (stream_read StringInputStream_readSome t n)
           = read_bytes n (ss_content t)"
  using mis.stream_read_refines [OF assms(1)] sis.stream_read_refines [OF assms(2)] by blast

theorem stream_read_implements_read_bytes_witness:
  "map_sum id (\<lambda>(d, s'). (d, ms_content s')) (stream_read MemoryInputStream_readSome
     (MemoryInputStream_new [1, 2, 3]) 2) = Inr ([1, 2], [3])"
proof -
  have "ms_ok (MemoryInputStream_new [1, 2, 3])" and "ss_ok \<lparr>ss_in = [1], ss_offset = 1\<rparr>"
    by (simp_all add: ms_content_new ss_ok_def)
  from stream_read_implements_read_bytes [OF this, of 2] show ?thesis
    by (simp add: ms_content_new read_bytes_def)
qed

end
