(* ===== verification/Keccak.thy ===== *)
theory Keccak
  imports Prelude
begin

text \<open>
  The hash function of the code base, \<^verbatim>\<open>lib/crypto/keccak.c\<close> and \<^verbatim>\<open>cn_fast_hash\<close> of \<^verbatim>\<open>hash.c\<close>, on a
  little-endian machine and for inputs whose length fits an \<^verbatim>\<open>int\<close>. The state is a list of 25 lanes.
  The in-place loops of Theta and Chi write lanes that no later iteration reads, so they are maps;
  Rho and Pi move one lane along a cycle and are a fold. The absorbing loop with its separately padded
  last block is shown to be the sponge construction over the padded message, and the padding to be
  injective.
\<close>

unbundle bit_operations_syntax

section \<open>Definitions\<close>

definition keccakf_rndc :: "u64 list" where
  "keccakf_rndc =
     [0x0000000000000001, 0x0000000000008082, 0x800000000000808a, 0x8000000080008000, 0x000000000000808b,
      0x0000000080000001, 0x8000000080008081, 0x8000000000008009, 0x000000000000008a, 0x0000000000000088,
      0x0000000080008009, 0x000000008000000a, 0x000000008000808b, 0x800000000000008b, 0x8000000000008089,
      0x8000000000008003, 0x8000000000008002, 0x8000000000000080, 0x000000000000800a, 0x800000008000000a,
      0x8000000080008081, 0x8000000000008080, 0x0000000080000001, 0x8000000080008008]"

definition keccakf_rotc :: "nat list" where
  "keccakf_rotc = [1, 3, 6, 10, 15, 21, 28, 36, 45, 55, 2, 14, 27, 41, 56, 8, 25, 43, 62, 18, 39, 61, 20, 44]"

definition keccakf_piln :: "nat list" where
  "keccakf_piln = [10, 7, 11, 17, 18, 3, 5, 16, 8, 21, 24, 4, 15, 23, 19, 13, 12, 2, 20, 14, 22, 9, 6, 1]"

definition ROTL64 :: "u64 \<Rightarrow> nat \<Rightarrow> u64" where
  "ROTL64 x y = push_bit y x OR drop_bit (64 - y) x"

definition theta :: "u64 list \<Rightarrow> u64 list" where
  "theta st =
     (let bc = map (\<lambda>i. st ! i XOR st ! (i + 5) XOR st ! (i + 10) XOR st ! (i + 15) XOR st ! (i + 20)) [0..<5]
      in map (\<lambda>k. st ! k XOR (bc ! ((k mod 5 + 4) mod 5) XOR ROTL64 (bc ! ((k mod 5 + 1) mod 5)) 1)) [0..<25])"

definition rho_pi :: "u64 list \<Rightarrow> u64 list" where
  "rho_pi st =
     fst (fold (\<lambda>i (st, t). let j = keccakf_piln ! i in (st[j := ROTL64 t (keccakf_rotc ! i)], st ! j))
       [0..<24] (st, st ! 1))"

definition chi :: "u64 list \<Rightarrow> u64 list" where
  "chi st =
     map (\<lambda>k. let j = k div 5 * 5; i = k mod 5
              in st ! k XOR (NOT (st ! (j + (i + 1) mod 5)) AND st ! (j + (i + 2) mod 5))) [0..<25]"

definition iota :: "nat \<Rightarrow> u64 list \<Rightarrow> u64 list" where
  "iota round st = st[0 := st ! 0 XOR keccakf_rndc ! round]"

definition keccakf :: "u64 list \<Rightarrow> nat \<Rightarrow> u64 list" where
  "keccakf st rounds = fold (\<lambda>round st. iota round (chi (rho_pi (theta st)))) [0..<rounds] st"

definition absorb :: "nat \<Rightarrow> u64 list \<Rightarrow> bytes \<Rightarrow> u64 list" where
  "absorb rsizw st data =
     fold (\<lambda>i st. st[i := st ! i XOR word_of_nat (le_nat (take 8 (drop (8 * i) data)))]) [0..<rsizw] st"

function keccak_loop :: "nat \<Rightarrow> u64 list \<Rightarrow> bytes \<Rightarrow> u64 list \<times> bytes" where
  "keccak_loop rsiz st data =
     (if 0 < rsiz \<and> rsiz \<le> length data
      then keccak_loop rsiz (keccakf (absorb (rsiz div 8) st data) 24) (drop rsiz data)
      else (st, data))"
  by pat_completeness auto
termination
  by (relation "measure (\<lambda>(rsiz, st, data). length data)") auto

declare keccak_loop.simps [simp del]

definition keccak :: "bytes \<Rightarrow> nat \<Rightarrow> bytes" where
  "keccak data mdlen =
     (let rsiz = (if mdlen = 200 then 136 else 200 - 2 * mdlen);
          (st, data) = keccak_loop rsiz (replicate 25 0) data;
          temp = data @ [1] @ replicate (rsiz - (length data + 1)) 0;
          temp = temp[rsiz - 1 := temp ! (rsiz - 1) OR 0x80];
          st = keccakf (absorb (rsiz div 8) st temp) 24
      in take mdlen (concat (map (\<lambda>w. le_bytes 8 (unat w)) st)))"

definition keccak1600 :: "bytes \<Rightarrow> bytes" where
  "keccak1600 data = keccak data 200"

definition cn_fast_hash :: "bytes \<Rightarrow> hash" where
  "cn_fast_hash data = take 32 (keccak1600 data)"

section \<open>Lanes\<close>

lemma length_theta [simp]: "length (theta st) = 25"
  by (simp add: theta_def Let_def)

lemma length_chi [simp]: "length (chi st) = 25"
  by (simp add: chi_def)

lemma length_iota [simp]: "length (iota r st) = length st"
  by (simp add: iota_def)

lemma length_fold:
  assumes "\<And>i st. length (f i st) = length st"
  shows "length (fold f is st) = length (st :: 'a list)"
  using assms by (induction "is" arbitrary: st) simp_all

lemma length_rho_pi [simp]: "length (rho_pi st) = length st"
proof -
  let ?f = "\<lambda>i (st, t). let j = keccakf_piln ! i in (st[j := ROTL64 t (keccakf_rotc ! i)], st ! j)"
  have "length (fst (fold ?f is (st, t))) = length st" for "is" st t
    by (induction "is" arbitrary: st t) (simp_all add: Let_def)
  then show ?thesis unfolding rho_pi_def .
qed

lemma length_absorb [simp]: "length (absorb w st data) = length st"
  unfolding absorb_def by (rule length_fold) simp

lemma length_keccakf: "length st = 25 \<Longrightarrow> length (keccakf st n) = 25"
  unfolding keccakf_def by (induction n) simp_all

lemma absorb_cong:
  assumes "8 * w \<le> r"
  shows "absorb w st (take r data) = absorb w st data"
  unfolding absorb_def
proof (rule fold_cong)
  fix i assume "i \<in> set [0..<w]"
  then have "8 * i + 8 \<le> r" using assms by auto
  then have "take 8 (drop (8 * i) (take r data)) = take 8 (drop (8 * i) data)"
    by (simp add: drop_take)
  then show "(\<lambda>st. st[i := st ! i XOR word_of_nat (le_nat (take 8 (drop (8 * i) (take r data))))])
      = (\<lambda>st. st[i := st ! i XOR word_of_nat (le_nat (take 8 (drop (8 * i) data)))])" by simp
qed simp_all

section \<open>The sponge\<close>

definition pad_bytes :: "nat \<Rightarrow> bytes" where
  "pad_bytes q = (if q = 1 then [0x81] else 1 # replicate (q - 2) 0 @ [0x80])"

definition pad :: "nat \<Rightarrow> bytes \<Rightarrow> bytes" where
  "pad r msg = msg @ pad_bytes (r - length msg mod r)"

fun sponge :: "nat \<Rightarrow> u64 list \<Rightarrow> nat \<Rightarrow> bytes \<Rightarrow> u64 list" where
  "sponge r st 0 data = st"
| "sponge r st (Suc n) data = sponge r (keccakf (absorb (r div 8) st (take r data)) 24) n (drop r data)"

lemma length_pad_bytes: "0 < q \<Longrightarrow> length (pad_bytes q) = q"
  by (auto simp: pad_bytes_def)

lemma length_pad: "0 < r \<Longrightarrow> length (pad r msg) = (length msg div r + 1) * r"
proof -
  assume r: "0 < r"
  then have lt: "length msg mod r < r" by simp
  then have "length (pad r msg) = length msg + (r - length msg mod r)"
    by (simp add: pad_def length_pad_bytes)
  also have "\<dots> = length msg div r * r + r" using lt div_mult_mod_eq [of "length msg" r] by linarith
  finally show ?thesis by simp
qed

lemma pad_last_block:
  assumes "length d < r"
  shows "(d @ [1] @ replicate (r - (length d + 1)) 0)[r - 1 := (d @ [1] @ replicate (r - (length d + 1)) 0) ! (r - 1) OR 0x80]
    = d @ pad_bytes (r - length d)"
proof (cases "r = length d + 1")
  case True
  then show ?thesis by (simp add: pad_bytes_def list_update_append nth_append)
next
  case False
  define k where "k = r - length d - 2"
  with False assms have r: "r = length d + Suc (Suc k)" by simp
  have "replicate (Suc k) (0 :: u8) = replicate k 0 @ [0]" by (simp add: replicate_append_same)
  then show ?thesis
    unfolding r by (simp add: pad_bytes_def list_update_append nth_append del: replicate_Suc)
qed

lemma keccak_loop_sponge:
  assumes "0 < r"
  shows "keccak_loop r st msg = (st', d) \<Longrightarrow>
    length d < r \<and> sponge r st (length msg div r + 1) (pad r msg) = keccakf (absorb (r div 8) st' (pad r d)) 24"
  using assms
proof (induction r st msg arbitrary: st' d rule: keccak_loop.induct)
  case (1 r st msg)
  show ?case
  proof (cases "r \<le> length msg")
    case True
    let ?m = "drop r msg" and ?st = "keccakf (absorb (r div 8) st msg) 24"
    have div: "length msg div r = Suc (length ?m div r)" using True "1.prems"(2) by (simp add: le_div_geq)
    have "length msg mod r = length ?m mod r" using True "1.prems"(2) by (simp add: le_mod_geq)
    then have pad: "pad r msg = take r msg @ pad r ?m" by (simp add: pad_def)
    have "keccak_loop r ?st ?m = (st', d)"
      using "1.prems" True by (simp add: keccak_loop.simps [of r st])
    from "1.IH" [OF _ this] "1.prems"(2) True
    have IH: "length d < r" "sponge r ?st (length ?m div r + 1) (pad r ?m) = keccakf (absorb (r div 8) st' (pad r d)) 24"
      by simp_all
    have "absorb (r div 8) st (take r msg) = absorb (r div 8) st msg" by (rule absorb_cong) simp
    with IH True show ?thesis by (simp add: div pad)
  next
    case False
    then have "st' = st" "d = msg" using "1.prems" by (simp_all add: keccak_loop.simps [of r st])
    moreover have "length (pad r msg) = r" using False "1.prems"(2) by (simp add: length_pad)
    ultimately show ?thesis using False by simp
  qed
qed

lemma length_keccak_loop: "keccak_loop r st msg = (st', d) \<Longrightarrow> length st = 25 \<Longrightarrow> length st' = 25"
proof (induction r st msg rule: keccak_loop.induct)
  case (1 r st msg)
  then show ?case by (cases "0 < r \<and> r \<le> length msg") (simp_all add: keccak_loop.simps [of r st] length_keccakf)
qed

lemma length_lanes_bytes: "length (concat (map (\<lambda>w. le_bytes 8 (unat w)) ws)) = 8 * length ws"
  by (induction ws) simp_all

lemma keccak_sponge:
  "keccak msg 200 = concat (map (\<lambda>w. le_bytes 8 (unat w)) (sponge 136 (replicate 25 0) (length (pad 136 msg) div 136) (pad 136 msg)))"
proof -
  obtain st d where l: "keccak_loop 136 (replicate 25 0) msg = (st, d)" by fastforce
  from keccak_loop_sponge [OF _ l] have d: "length d < 136"
    and s: "sponge 136 (replicate 25 0) (length msg div 136 + 1) (pad 136 msg) = keccakf (absorb 17 st (pad 136 d)) 24"
    by simp_all
  have "length (pad 136 msg) div 136 = length msg div 136 + 1" by (simp add: length_pad)
  moreover have "pad 136 d = d @ pad_bytes (136 - length d)" using d by (simp add: pad_def)
  moreover have "length (keccakf (absorb 17 st x) 24) = 25" for x
    using length_keccak_loop [OF l] by (simp add: length_keccakf)
  ultimately show ?thesis
    using l s d pad_last_block [OF d] by (simp add: keccak_def Let_def length_lanes_bytes)
qed

lemma length_sponge: "length st = 25 \<Longrightarrow> length (sponge r st n d) = 25"
  by (induction r st n d rule: sponge.induct) (simp_all add: length_keccakf)

lemma wf_cn_fast_hash [simp]: "wf_hash (cn_fast_hash data)"
  by (simp add: wf_hash_def cn_fast_hash_def keccak1600_def keccak_sponge length_lanes_bytes length_sponge)

lemma length_cn_fast_hash [simp]: "length (cn_fast_hash data) = 32"
  using wf_cn_fast_hash by (simp add: wf_hash_def)

section \<open>The padding is injective\<close>

lemma pad_bytes_suffix:
  assumes "0 < p" and "p < q"
  shows "drop (q - p) (pad_bytes q) \<noteq> pad_bytes p"
proof (cases "p = 1")
  case True
  have "last (drop (q - p) (pad_bytes q)) = 0x80" using assms by (simp add: pad_bytes_def last_drop)
  moreover have "last (pad_bytes p) = 0x81" using True by (simp add: pad_bytes_def)
  ultimately show ?thesis by auto
next
  case False
  have "drop (q - p) (pad_bytes q) ! 0 = pad_bytes q ! (q - p)"
    using assms by (simp add: length_pad_bytes)
  also have "\<dots> = 0" using assms False by (auto simp: pad_bytes_def nth_Cons' nth_append)
  also have "\<dots> \<noteq> pad_bytes p ! 0" using False by (simp add: pad_bytes_def)
  finally show ?thesis by auto
qed

lemma pad_inj_less:
  assumes "0 < r" and "pad r a = pad r b"
  shows "\<not> r - length a mod r < r - length b mod r"
proof
  let ?p = "r - length a mod r" and ?q = "r - length b mod r"
  assume lt: "?p < ?q"
  have "length a mod r < r" using assms(1) by simp
  then have pos: "0 < ?p" by simp
  have "length a + ?p = length b + ?q"
    using arg_cong [OF assms(2), of length] pos lt by (simp add: pad_def length_pad_bytes)
  then have "length a - length b = ?q - ?p" "length b \<le> length a" using lt by linarith+
  then have "drop (length a) (pad r b) = drop (?q - ?p) (pad_bytes ?q)" unfolding pad_def drop_append by simp
  moreover have "drop (length a) (pad r a) = pad_bytes ?p" by (simp add: pad_def)
  ultimately show False using pad_bytes_suffix [OF pos lt] assms(2) by simp
qed

lemma pad_inj:
  assumes "0 < r" and "pad r a = pad r b"
  shows "a = b"
proof -
  have "r - length a mod r = r - length b mod r"
    using pad_inj_less [OF assms] pad_inj_less [OF assms(1) assms(2) [symmetric]] by linarith
  with assms(2) show ?thesis by (simp add: pad_def)
qed

section \<open>Properties\<close>


end
