(* ===== verification/Base58.thy ===== *)
theory Base58
  imports Streams IntUtil Keccak "HOL-Library.Monad_Syntax"
begin

text \<open>
  The textual form of addresses, \<^verbatim>\<open>lib/Common/Base58.cpp\<close>: the symbol tables, the block codec, the
  string codec and addresses with tag and checksum. Strings are byte lists. The machine is
  little-endian, so \<^verbatim>\<open>SWAP64BE\<close> is \<^verbatim>\<open>swap64\<close>. A block is encoded into a buffer pre-filled with the
  first symbol; a write outside that buffer would be \<^verbatim>\<open>None\<close> and is shown not to happen.
\<close>

unbundle bit_operations_syntax

section \<open>Definitions\<close>

definition alphabet :: bytes where
  "alphabet = map of_char ''123456789ABCDEFGHJKLMNPQRSTUVWXYZabcdefghijkmnopqrstuvwxyz''"

definition encoded_block_sizes :: "nat list" where
  "encoded_block_sizes = [0, 2, 3, 5, 6, 7, 9, 10, 11]"

definition reverse_alphabet_data :: "int list" where
  "reverse_alphabet_data =
     fold (\<lambda>i m. m[unat (alphabet ! i - alphabet ! 0) := int i]) [0..<58]
       (replicate (unat (alphabet ! 57 - alphabet ! 0) + 1) (- 1))"

definition reverse_alphabet :: "u8 \<Rightarrow> int" where
  "reverse_alphabet letter =
     (let idx = unat (word_of_int (sint letter - sint (alphabet ! 0)) :: u64)
      in if idx < length reverse_alphabet_data then reverse_alphabet_data ! idx else - 1)"

definition decoded_block_sizes_data :: "int list" where
  "decoded_block_sizes_data =
     fold (\<lambda>i m. m[encoded_block_sizes ! i := int i]) [0..<9] (replicate 12 (- 1))"

definition decoded_block_sizes :: "nat \<Rightarrow> int" where
  "decoded_block_sizes encoded_block_size = decoded_block_sizes_data ! encoded_block_size"

definition uint_8be_to_64 :: "bytes \<Rightarrow> u64" where
  "uint_8be_to_64 data = fold (\<lambda>b res. push_bit 8 res OR ucast b) data 0"

definition uint_64_to_8be :: "u64 \<Rightarrow> nat \<Rightarrow> bytes" where
  "uint_64_to_8be num sz = drop (8 - sz) (le_bytes 8 (unat (swap64 num)))"

function encode_block_loop :: "u64 \<Rightarrow> int \<Rightarrow> bytes \<Rightarrow> bytes option" where
  "encode_block_loop num i res =
     (if 0 < num then
        (if 0 \<le> i \<and> nat i < length res
         then encode_block_loop (num div 58) (i - 1) (res[nat i := alphabet ! unat (num mod 58)])
         else None)
      else Some res)"
  by pat_completeness auto
termination
  by (relation "measure (\<lambda>(num, i, res). unat num)") (auto simp: unat_div word_less_nat_alt)

declare encode_block_loop.simps [simp del]

definition encode_block :: "bytes \<Rightarrow> bytes option" where
  "encode_block block =
     (let sz = encoded_block_sizes ! length block
      in encode_block_loop (uint_8be_to_64 block) (int sz - 1) (replicate sz (alphabet ! 0)))"

fun decode_block_loop :: "bytes \<Rightarrow> u64 \<Rightarrow> u64 \<Rightarrow> u64 option" where
  "decode_block_loop [] res_num order = Some res_num"
| "decode_block_loop (c # cs) res_num order =
     (let digit = reverse_alphabet c
      in if digit < 0 then None
         else
           (let (product_lo, product_hi) = mul128 order (word_of_int digit);
                tmp = res_num + product_lo
            in if tmp < res_num \<or> product_hi \<noteq> 0 then None
               else decode_block_loop cs tmp (order * 58)))"

definition decode_block :: "bytes \<Rightarrow> bytes option" where
  "decode_block block =
     (let res_size = decoded_block_sizes (length block)
      in if res_size \<le> 0 then None
         else
           do {
             res_num \<leftarrow> decode_block_loop (rev block) 0 1;
             if nat res_size < 8 \<and> push_bit (8 * nat res_size) 1 \<le> res_num then None
             else Some (uint_64_to_8be res_num (nat res_size))
           })"

fun encode_blocks :: "nat \<Rightarrow> bytes \<Rightarrow> bytes option" where
  "encode_blocks 0 data = (if data = [] then Some [] else encode_block data)"
| "encode_blocks (Suc full_block_count) data =
     do {
       block \<leftarrow> encode_block (take 8 data);
       rest \<leftarrow> encode_blocks full_block_count (drop 8 data);
       Some (block @ rest)
     }"

definition encode :: "bytes \<Rightarrow> bytes option" where
  "encode data = (if data = [] then Some [] else encode_blocks (length data div 8) data)"

fun decode_blocks :: "nat \<Rightarrow> bytes \<Rightarrow> bytes option" where
  "decode_blocks 0 enc = (if enc = [] then Some [] else decode_block enc)"
| "decode_blocks (Suc full_block_count) enc =
     do {
       block \<leftarrow> decode_block (take 11 enc);
       rest \<leftarrow> decode_blocks full_block_count (drop 11 enc);
       Some (block @ rest)
     }"

definition decode :: "bytes \<Rightarrow> bytes option" where
  "decode enc =
     (if enc = [] then Some []
      else if decoded_block_sizes (length enc mod 11) < 0 then None
      else decode_blocks (length enc div 11) enc)"

definition encode_addr :: "u64 \<Rightarrow> bytes \<Rightarrow> bytes option" where
  "encode_addr tag data =
     (let buf = get_varint_data tag @ data
      in encode (buf @ take 4 (cn_fast_hash buf)))"

definition decode_addr :: "bytes \<Rightarrow> (u64 \<times> bytes) option" where
  "decode_addr addr =
     do {
       addr_data \<leftarrow> decode addr;
       if length addr_data \<le> 4 then None
       else
         (let checksum = drop (length addr_data - 4) addr_data;
              addr_data = take (length addr_data - 4) addr_data
          in if take 4 (cn_fast_hash addr_data) \<noteq> checksum then None
             else
               (let (rd, tag) = read_varint addr_data
                in if rd \<le> 0 then None else Some (tag, drop (nat rd) addr_data)))
     }"

section \<open>The tables\<close>

lemma alphabet_eq [code]: "alphabet = [49, 50, 51, 52, 53, 54, 55, 56, 57, 65, 66, 67, 68, 69, 70, 71, 72, 74, 75, 76, 77, 78,
    80, 81, 82, 83, 84, 85, 86, 87, 88, 89, 90, 97, 98, 99, 100, 101, 102, 103, 104, 105, 106, 107, 109, 110, 111,
    112, 113, 114, 115, 116, 117, 118, 119, 120, 121, 122]"
  by (simp add: alphabet_def)

lemma decoded_block_sizes_data_eq: "decoded_block_sizes_data = [0, -1, 1, 2, -1, 3, 4, 5, -1, 6, 7, 8]"
  by code_simp

lemma reverse_alphabet_data_eq [code]: "reverse_alphabet_data = [0, 1, 2, 3, 4, 5, 6, 7, 8, -1, -1, -1, -1, -1, -1, -1, 9, 10, 11, 12, 13, 14, 15, 16, -1, 17, 18,
    19, 20, 21, -1, 22, 23, 24, 25, 26, 27, 28, 29, 30, 31, 32, -1, -1, -1, -1, -1, -1, 33, 34, 35, 36,
    37, 38, 39, 40, 41, 42, 43, -1, 44, 45, 46, 47, 48, 49, 50, 51, 52, 53, 54, 55, 56, 57]"
  by code_simp

lemma length_reverse_alphabet_data: "length reverse_alphabet_data = 74"
  by (simp add: reverse_alphabet_data_eq)

lemma reverse_alphabet_alphabet: "list_all (\<lambda>i. reverse_alphabet (alphabet ! i) = int i) [0..<58]"
  by code_simp

lemma reverse_alphabet_data_sound:
  "list_all (\<lambda>i. let d = reverse_alphabet_data ! i in d = - 1 \<or> 0 \<le> d \<and> d < 58 \<and> unat (alphabet ! nat d) = i + 49) [0..<74]"
  by code_simp

section \<open>Digits in base 58\<close>

primrec digits58 :: "nat \<Rightarrow> nat \<Rightarrow> nat list" where
  "digits58 0 n = []"
| "digits58 (Suc k) n = n mod 58 # digits58 k (n div 58)"

primrec val58 :: "nat list \<Rightarrow> nat" where
  "val58 [] = 0"
| "val58 (d # ds) = d + 58 * val58 ds"

lemma length_digits58 [simp]: "length (digits58 k n) = k"
  by (induction k arbitrary: n) simp_all

lemma digits58_range: "d \<in> set (digits58 k n) \<Longrightarrow> d < 58"
  by (induction k arbitrary: n) auto

lemma digits58_0: "digits58 k 0 = replicate k 0"
  by (induction k) simp_all

lemma val58_digits58: "n < 58 ^ k \<Longrightarrow> val58 (digits58 k n) = n"
proof (induction k arbitrary: n)
  case (Suc k)
  then have "n div 58 < 58 ^ k" by (simp add: less_mult_imp_div_less mult.commute)
  with Suc.IH show ?case by simp
qed simp

lemma digits58_val58: "\<forall>d \<in> set ds. d < 58 \<Longrightarrow> digits58 (length ds) (val58 ds) = ds"
  by (induction ds) auto

section \<open>Big-endian blocks\<close>

definition be_nat :: "bytes \<Rightarrow> nat" where
  "be_nat bs = le_nat (rev bs)"

definition be_bytes :: "nat \<Rightarrow> nat \<Rightarrow> bytes" where
  "be_bytes k n = rev (le_bytes k n)"

lemma be_nat_bound: "be_nat bs < 256 ^ length bs"
  using le_nat_bound [of "rev bs"] by (simp add: be_nat_def)

lemma be_nat_snoc: "be_nat (bs @ [b]) = be_nat bs * 256 + unat b"
  by (simp add: be_nat_def)

lemma be_bytes_be_nat: "length bs = k \<Longrightarrow> be_bytes k (be_nat bs) = bs"
  using le_bytes_le_nat [of "rev bs"] by (auto simp: be_nat_def be_bytes_def)

lemma be_nat_be_bytes: "n < 256 ^ k \<Longrightarrow> be_nat (be_bytes k n) = n"
  by (simp add: be_nat_def be_bytes_def)

lemma length_be_bytes [simp]: "length (be_bytes k n) = k"
  by (simp add: be_bytes_def)

lemma unat_shift_byte:
  assumes "unat (r :: u64) * 256 < 2 ^ 64"
  shows "unat (push_bit 8 r OR ucast (b :: u8)) = unat r * 256 + unat b"
proof -
  have p: "unat (push_bit 8 r) = unat r * 256"
    using assms by (simp add: unat_push_bit)
  have b: "unat (ucast b :: u64) = unat b" by (simp add: unat_ucast_up)
  have "unat (ucast b OR push_bit 8 r :: u64) = unat (ucast b :: u64) + unat (push_bit 8 r)"
    by (rule unat_or_disjoint [of _ 8]) (simp_all add: p b)
  then show ?thesis by (simp add: or.commute p b)
qed

lemma uint_8be_to_64_be_nat: "length bs \<le> 8 \<Longrightarrow> unat (uint_8be_to_64 bs) = be_nat bs"
proof (induction bs rule: rev_induct)
  case Nil
  then show ?case by (simp add: uint_8be_to_64_def be_nat_def)
next
  case (snoc b bs)
  then have IH: "unat (uint_8be_to_64 bs) = be_nat bs" and "length bs \<le> 7" by simp_all
  then have "(256 :: nat) ^ length bs \<le> 256 ^ 7" by (intro power_increasing) auto
  with be_nat_bound [of bs] have "be_nat bs < 256 ^ 7" by linarith
  then have "unat (uint_8be_to_64 bs) * 256 < 2 ^ 64" unfolding IH by simp
  from unat_shift_byte [OF this, of b] show ?case
    by (simp add: uint_8be_to_64_def IH [unfolded uint_8be_to_64_def] be_nat_snoc)
qed

lemma take_le_bytes: "k \<le> m \<Longrightarrow> take k (le_bytes m n) = le_bytes k n"
proof (induction k arbitrary: m n)
  case (Suc k)
  then obtain m' where "m = Suc m'" by (cases m) auto
  with Suc show ?case by simp
qed simp

lemma uint_64_to_8be_be_bytes: "k \<le> 8 \<Longrightarrow> uint_64_to_8be num k = be_bytes k (unat num)"
  by (simp add: uint_64_to_8be_def swap64_bytes be_bytes_def drop_rev take_le_bytes)

section \<open>Encoding a block\<close>

lemma alphabet_nth_0: "alphabet ! 0 = 49"
  by (simp add: alphabet_eq)

lemma length_alphabet: "length alphabet = 58"
  by (simp add: alphabet_eq)

lemma encode_block_loop_digits:
  "unat num < 58 ^ k \<Longrightarrow>
   encode_block_loop num (int k - 1) (replicate k (alphabet ! 0) @ tail)
     = Some (map ((!) alphabet) (rev (digits58 k (unat num))) @ tail)"
proof (induction k arbitrary: num tail)
  case 0
  then have "num = 0" by (simp add: unat_eq_zero)
  then show ?case by (simp add: encode_block_loop.simps)
next
  case (Suc k)
  show ?case
  proof (cases "num = 0")
    case True
    then show ?thesis by (simp add: encode_block_loop.simps digits58_0 replicate_append_same)
  next
    case False
    then have pos: "0 < num" by (simp add: word_greater_zero_iff)
    have upd: "(replicate (Suc k) a @ tail)[k := x] = replicate k a @ x # tail" for a x :: u8
      by (induction k) simp_all
    have "unat (num div 58) = unat num div 58" "unat (num mod 58) = unat num mod 58"
      by (simp_all add: unat_div unat_mod)
    moreover from this Suc.prems have "unat (num div 58) < 58 ^ k"
      by (simp add: less_mult_imp_div_less mult.commute)
    ultimately show ?thesis
      using pos Suc.IH [of "num div 58" "alphabet ! (unat num mod 58) # tail"]
      by (simp add: encode_block_loop.simps [of num] upd del: replicate_Suc)
  qed
qed

lemma sizes_cases: "n \<le> 8 \<Longrightarrow> n \<in> {0, 1, 2, 3, 4, 5, 6, 7, 8 :: nat}"
  by auto

lemma encoded_block_sizes_fit: "n \<le> 8 \<Longrightarrow> (256 :: nat) ^ n \<le> 58 ^ (encoded_block_sizes ! n)"
  using sizes_cases [of n] by (auto simp: encoded_block_sizes_def)

lemma encoded_block_sizes_bound: "n \<le> 8 \<Longrightarrow> encoded_block_sizes ! n \<le> 11"
  using sizes_cases [of n] by (auto simp: encoded_block_sizes_def)

lemma decoded_encoded_block_sizes: "n \<le> 8 \<Longrightarrow> decoded_block_sizes (encoded_block_sizes ! n) = int n"
  using sizes_cases [of n]
  by (auto simp: encoded_block_sizes_def decoded_block_sizes_def decoded_block_sizes_data_eq)

lemma decoded_block_sizes_table:
  "list_all (\<lambda>m. decoded_block_sizes m < 0 \<or>
     nat (decoded_block_sizes m) \<le> 8 \<and> encoded_block_sizes ! nat (decoded_block_sizes m) = m) [0..<12]"
  by code_simp

lemma encoded_decoded_block_sizes:
  assumes "m \<le> 11" and "0 \<le> decoded_block_sizes m"
  shows "nat (decoded_block_sizes m) \<le> 8 \<and> encoded_block_sizes ! nat (decoded_block_sizes m) = m"
proof -
  from assms(1) have "m < 12" by simp
  from list_all_upt [OF decoded_block_sizes_table this] assms(2) show ?thesis by linarith
qed

lemma encode_block_digits:
  assumes "length block \<le> 8"
  shows "encode_block block =
    Some (map ((!) alphabet) (rev (digits58 (encoded_block_sizes ! length block) (be_nat block))))"
proof -
  have "be_nat block < 58 ^ (encoded_block_sizes ! length block)"
    using be_nat_bound [of block] encoded_block_sizes_fit [OF assms] by linarith
  then show ?thesis
    using encode_block_loop_digits [of "uint_8be_to_64 block" "encoded_block_sizes ! length block" "[]"]
      uint_8be_to_64_be_nat [OF assms]
    by (simp add: encode_block_def Let_def)
qed

section \<open>Decoding a block\<close>

lemma reverse_alphabet_nth: "i < 58 \<Longrightarrow> reverse_alphabet (alphabet ! i) = int i"
  using reverse_alphabet_alphabet by (simp add: list_all_iff)

lemma reverse_alphabet_sound:
  assumes "0 \<le> reverse_alphabet c"
  shows "nat (reverse_alphabet c) < 58 \<and> alphabet ! nat (reverse_alphabet c) = c"
proof -
  define idx where "idx = unat (word_of_int (sint c - 49) :: u64)"
  have i: "idx < 74" and r: "reverse_alphabet c = reverse_alphabet_data ! idx"
    using assms by (auto simp: reverse_alphabet_def Let_def idx_def length_reverse_alphabet_data
        alphabet_nth_0 split: if_splits)
  have a: "nat (reverse_alphabet c) < 58" "unat (alphabet ! nat (reverse_alphabet c)) = idx + 49"
    using list_all_upt [OF reverse_alphabet_data_sound i] assms unfolding r Let_def by linarith+
  have bounds: "- 128 \<le> sint c" "sint c < 128"
    using sint_ge [of c] sint_lt [of c] by simp_all
  have "uint (word_of_int k :: u64) = k mod 2 ^ 64" for k by (simp add: uint_word_of_int)
  then have int_idx: "int idx = (sint c - 49) mod 2 ^ 64" unfolding idx_def of_nat_unat by blast
  have "49 \<le> sint c"
  proof (rule ccontr)
    assume "\<not> ?thesis"
    with bounds have "(sint c - 49 + 2 ^ 64) mod 2 ^ 64 = sint c - 49 + 2 ^ 64"
      by (intro mod_pos_pos_trivial) simp_all
    then have "(sint c - 49) mod 2 ^ 64 = sint c - 49 + 2 ^ 64" by (simp only: mod_add_self2)
    with int_idx i bounds show False by simp
  qed
  with bounds int_idx have idx: "int idx = sint c - 49" by simp
  have "uint c = sint c"
    using \<open>49 \<le> sint c\<close> bounds by (simp add: uint_sint take_bit_int_eq_self)
  with a(2) idx have "unat (alphabet ! nat (reverse_alphabet c)) = unat c" by (simp flip: of_nat_eq_iff [where 'a = int])
  with a(1) show ?thesis by (simp add: unat_arith_simps(3))
qed

lemma decode_block_loop_digits:
  assumes "list_all (\<lambda>d. d < 58) ds" and "ds \<noteq> [] \<longrightarrow> unat order = 58 ^ j" and "length ds + j \<le> 11"
  shows "decode_block_loop (map ((!) alphabet) ds) res_num order =
    (if unat res_num + 58 ^ j * val58 ds < 2 ^ 64
     then Some (word_of_nat (unat res_num + 58 ^ j * val58 ds)) else None)"
  using assms
proof (induction ds arbitrary: order res_num j)
  case Nil
  then show ?case using unsigned_less [of res_num, where 'a = nat] by simp
next
  case (Cons d ds)
  have d: "d < 58" "reverse_alphabet (alphabet ! d) = int d" using Cons.prems(1) reverse_alphabet_nth by simp_all
  have order: "unat order = 58 ^ j" using Cons.prems(2) by simp
  have "unat (word_of_int (int d) :: u64) = d"
    using d(1) by (simp add: unsigned_of_nat take_bit_nat_eq_self)
  moreover obtain lo hi where m: "mul128 order (word_of_int (int d)) = (lo, hi)" by fastforce
  ultimately have prod: "unat hi * 2 ^ 64 + unat lo = 58 ^ j * d"
    using mul128_correct [OF m] order by simp
  have total: "58 ^ j * val58 (d # ds) = 58 ^ j * d + 58 ^ (j + 1) * val58 ds"
    by (simp add: algebra_simps)
  show ?case
  proof (cases "unat res_num + 58 ^ j * d < 2 ^ 64")
    case True
    with prod have hi: "hi = 0" by (cases "hi = 0") (auto simp: unat_eq_zero [symmetric] dest: gr0_implies_Suc)
    with prod have lo: "unat lo = 58 ^ j * d" by simp
    with True have sum: "unat (res_num + lo) = unat res_num + 58 ^ j * d" "\<not> res_num + lo < res_num"
      by (simp_all add: unat_add_no_wrap word_add_wraps_iff)
    have "ds \<noteq> [] \<longrightarrow> unat (order * 58) = 58 ^ (j + 1)"
    proof
      assume "ds \<noteq> []"
      with Cons.prems(3) have "j + 1 \<le> 10" by (cases ds) auto
      then have "(58 :: nat) ^ (j + 1) \<le> 58 ^ 10" by (rule power_increasing) simp
      then have "unat order * unat (58 :: u64) < 2 ^ 64" by (simp add: order)
      then have "unat (order * 58) = unat order * unat (58 :: u64)" by (simp add: unat_mult_no_wrap)
      then show "unat (order * 58) = 58 ^ (j + 1)" by (simp add: order)
    qed
    from Cons.IH [OF _ this, of "res_num + lo"] Cons.prems(1,3) show ?thesis
      using d m hi sum unfolding total by (simp add: add.assoc)
  next
    case False
    have "res_num + lo < res_num \<or> hi \<noteq> 0"
      using False prod by (auto simp: word_add_wraps_iff)
    with False show ?thesis using d m unfolding total by auto
  qed
qed

lemma decode_block_loop_symbols:
  "decode_block_loop cs res_num order = Some x \<Longrightarrow> list_all (\<lambda>c. 0 \<le> reverse_alphabet c) cs"
  by (induction cs res_num order rule: decode_block_loop.induct)
    (auto simp: Let_def not_less split: if_splits prod.splits)

lemma symbols_digits:
  assumes "list_all (\<lambda>c. 0 \<le> reverse_alphabet c) cs"
  obtains ds where "cs = map ((!) alphabet) ds" and "list_all (\<lambda>d. d < 58) ds"
proof
  let ?ds = "map (\<lambda>c. nat (reverse_alphabet c)) cs"
  show "cs = map ((!) alphabet) ?ds" "list_all (\<lambda>d. d < 58) ?ds"
    using assms by (auto simp: list_all_iff reverse_alphabet_sound intro!: map_idI [symmetric])
qed

lemma exp_le_word_iff: "k < 64 \<Longrightarrow> push_bit k 1 \<le> (w :: u64) \<longleftrightarrow> 2 ^ k \<le> unat w"
  using power_strict_increasing [of k 64 "2 :: nat"]
  by (simp only: word_le_nat_alt unat_push_bit) simp

lemma decode_block_digits:
  assumes "list_all (\<lambda>d. d < 58) ds" and "n \<le> 8" and "0 < n" and "length ds = encoded_block_sizes ! n"
  shows "decode_block (map ((!) alphabet) (rev ds)) =
    (if val58 ds < 256 ^ n then Some (be_bytes n (val58 ds)) else None)"
proof -
  have "length ds + 0 \<le> 11" using assms(2,4) encoded_block_sizes_bound by simp
  from decode_block_loop_digits [OF assms(1) _ this, of 1 0]
  have loop: "decode_block_loop (map ((!) alphabet) ds) 0 1 =
      (if val58 ds < 2 ^ 64 then Some (word_of_nat (val58 ds)) else None)" by simp
  have u: "val58 ds < 2 ^ 64 \<Longrightarrow> unat (word_of_nat (val58 ds) :: u64) = val58 ds"
    by (simp add: unsigned_of_nat take_bit_nat_eq_self)
  have pow: "(256 :: nat) ^ n = 2 ^ (8 * n)" by (simp add: power_mult)
  have "(2 :: nat) ^ (8 * n) \<le> 2 ^ 64" using assms(2) by (intro power_increasing) auto
  then have le: "val58 ds < 256 ^ n \<Longrightarrow> val58 ds < 2 ^ 64" unfolding pow by linarith
  have "nat (int n) < 8 \<and> push_bit (8 * nat (int n)) 1 \<le> (word_of_nat (val58 ds) :: u64)
      \<longleftrightarrow> \<not> val58 ds < 256 ^ n" if "val58 ds < 2 ^ 64"
  proof (cases "n = 8")
    case True
    with that show ?thesis unfolding pow by simp
  next
    case False
    with assms(2) have "8 * n < 64" by simp
    from exp_le_word_iff [OF this] u [OF that] False assms(2) show ?thesis unfolding pow by auto
  qed
  then show ?thesis
    using loop u le assms(2-4) decoded_encoded_block_sizes [OF assms(2)]
    by (auto simp: decode_block_def Let_def rev_map [symmetric] uint_64_to_8be_be_bytes)
qed

section \<open>A block is a canonical code\<close>

lemma length_encode_block: "length b \<le> 8 \<Longrightarrow> encode_block b = Some s \<Longrightarrow> length s = encoded_block_sizes ! length b"
  by (auto simp: encode_block_digits)

lemma decode_encode_block:
  assumes "b \<noteq> []" and "length b \<le> 8" and "encode_block b = Some s"
  shows "decode_block s = Some b"
proof -
  let ?ds = "digits58 (encoded_block_sizes ! length b) (be_nat b)"
  have "be_nat b < 58 ^ (encoded_block_sizes ! length b)"
    using be_nat_bound [of b] encoded_block_sizes_fit [OF assms(2)] by linarith
  then have v: "val58 ?ds = be_nat b" by (rule val58_digits58)
  have "list_all (\<lambda>d. d < 58) ?ds" using digits58_range by (auto simp: list_all_iff)
  from decode_block_digits [OF this assms(2)] show ?thesis
    using assms be_nat_bound [of b] by (auto simp: encode_block_digits v be_bytes_be_nat)
qed

lemma decode_block_canonical:
  assumes "length s \<le> 11" and "decode_block s = Some b"
  shows "b \<noteq> [] \<and> length b \<le> 8 \<and> encode_block b = Some s"
proof -
  define n where "n = nat (decoded_block_sizes (length s))"
  from assms(2) have pos: "0 < decoded_block_sizes (length s)"
    and "list_all (\<lambda>c. 0 \<le> reverse_alphabet c) (rev s)"
    by (auto simp: decode_block_def Let_def bind_eq_Some_conv dest: decode_block_loop_symbols split: if_splits)
  then obtain ds where "rev s = map ((!) alphabet) ds" and ds: "list_all (\<lambda>d. d < 58) ds"
    using symbols_digits by blast
  then have s: "s = map ((!) alphabet) (rev ds)" by (metis rev_map rev_rev_ident)
  have n: "n \<le> 8" "0 < n" "length ds = encoded_block_sizes ! n"
    using encoded_decoded_block_sizes [OF assms(1)] pos s by (auto simp: n_def)
  from decode_block_digits [OF ds n] assms(2) have "val58 ds < 256 ^ n" "b = be_bytes n (val58 ds)"
    by (auto simp: s split: if_splits)
  then have "be_nat b = val58 ds" "length b = n" by (simp_all add: be_nat_be_bytes)
  moreover have "digits58 (length ds) (val58 ds) = ds"
    using ds by (intro digits58_val58) (simp add: list_all_iff)
  ultimately show ?thesis using n by (auto simp: encode_block_digits s)
qed

section \<open>Sequences of blocks\<close>

lemma decode_encode_blocks:
  assumes "length data = 8 * n + r" and "r < 8"
  shows "\<exists>s. encode_blocks n data = Some s \<and> length s = 11 * n + encoded_block_sizes ! r
    \<and> decode_blocks n s = Some data"
  using assms
proof (induction n arbitrary: data)
  case 0
  show ?case
  proof (cases "data = []")
    case True
    with 0 show ?thesis by (simp add: encoded_block_sizes_def)
  next
    case False
    with 0 obtain s where s: "encode_block data = Some s" by (simp add: encode_block_digits)
    with False 0 have "decode_block s = Some data" "length s = encoded_block_sizes ! length data"
      using length_encode_block [of data s] by (simp_all add: decode_encode_block)
    moreover from this have "s \<noteq> []"
      using False 0 by (auto simp: decode_block_def decoded_block_sizes_def decoded_block_sizes_data_eq)
    ultimately show ?thesis using s False 0 by simp
  qed
next
  case (Suc n)
  let ?b = "take 8 data"
  have b: "length ?b = 8" "?b \<noteq> []" using Suc.prems(1) by auto
  then obtain s where s: "encode_block ?b = Some s" by (simp add: encode_block_digits)
  with b have d: "decode_block s = Some ?b" "length s = 11"
    using length_encode_block [of ?b s] by (simp_all add: decode_encode_block encoded_block_sizes_def)
  from Suc.IH [of "drop 8 data"] Suc.prems obtain s' where "encode_blocks n (drop 8 data) = Some s'"
    "length s' = 11 * n + encoded_block_sizes ! r" "decode_blocks n s' = Some (drop 8 data)" by auto
  with s d show ?case by simp
qed

lemma decode_blocks_canonical:
  assumes "decode_blocks n enc = Some data" and "length enc = 11 * n + r" and "r < 11"
  shows "encode_blocks n data = Some enc \<and> length data div 8 = n"
  using assms
proof (induction n arbitrary: enc data)
  case 0
  show ?case
  proof (cases "enc = []")
    case True
    with 0 show ?thesis by simp
  next
    case False
    with 0 decode_block_canonical [of enc data] have b: "data \<noteq> []" "length data \<le> 8" "encode_block data = Some enc"
      by auto
    have "length data \<noteq> 8"
      using b length_encode_block [OF b(2,3)] 0 by (auto simp: encoded_block_sizes_def)
    with b show ?thesis by simp
  qed
next
  case (Suc n)
  then obtain b ds where b: "decode_block (take 11 enc) = Some b" "decode_blocks n (drop 11 enc) = Some ds" "data = b @ ds"
    by (auto simp: bind_eq_Some_conv)
  have l: "length (take 11 enc) = 11" using Suc.prems(2) by simp
  with decode_block_canonical [OF _ b(1)] have e: "length b \<le> 8" "encode_block b = Some (take 11 enc)" by auto
  have "length b = 8"
    using sizes_cases [OF e(1)] length_encode_block [OF e] l by (auto simp: encoded_block_sizes_def)
  moreover from Suc.IH [OF b(2)] Suc.prems(2,3) have "encode_blocks n ds = Some (drop 11 enc)" "length ds div 8 = n" by auto
  ultimately show ?case using b(3) e by simp
qed

lemma decode_encode: "\<exists>s. encode data = Some s \<and> decode s = Some data"
proof (cases "data = []")
  case True
  then show ?thesis by (simp add: encode_def decode_def)
next
  case False
  let ?r = "length data mod 8"
  have r: "?r < 8" by simp
  from decode_encode_blocks [of data "length data div 8" ?r] obtain s where
    s: "encode_blocks (length data div 8) data = Some s" "length s = 11 * (length data div 8) + encoded_block_sizes ! ?r"
    "decode_blocks (length data div 8) s = Some data" by auto
  have lt: "encoded_block_sizes ! ?r < 11"
    using sizes_cases [of ?r] r by (auto simp: encoded_block_sizes_def)
  have "s \<noteq> []" using s(2,3) False by (cases "length data div 8") auto
  moreover have "length s div 11 = length data div 8" "length s mod 11 = encoded_block_sizes ! ?r"
    using s(2) lt by simp_all
  moreover have "0 \<le> decoded_block_sizes (encoded_block_sizes ! ?r)"
    using decoded_encoded_block_sizes [of ?r] r by simp
  ultimately show ?thesis using s False by (simp add: encode_def decode_def)
qed

lemma decode_canonical: "decode s = Some data \<Longrightarrow> encode data = Some s"
  using decode_blocks_canonical [of "length s div 11" s data "length s mod 11"]
  by (auto simp: decode_def encode_def split: if_splits)

section \<open>Addresses\<close>

lemma read_varint_loop_canonical:
  assumes "read_varint_loop 64 rd i shift bs = (r, x)" and "0 \<le> rd" and "0 < r" and "r < rd + int (length bs)"
  shows "rd < r \<and> readVarint_loop i shift bs = Inr (x, drop (nat (r - rd)) bs)"
  using assms
proof (induction bs arbitrary: rd i shift)
  case Nil
  then show ?case by simp
next
  case (Cons byte bs)
  have eq: "(64 \<le> shift + 7) = (57 \<le> shift)" by linarith
  show ?case
  proof (cases "byte AND 0x80 = 0")
    case True
    with Cons.prems show ?thesis
      by (auto simp: readVarint_loop.simps [of i shift] read_u8_Cons Let_def eq split: if_splits)
  next
    case False
    with Cons.prems have ok: "\<not> (57 \<le> shift \<and> 2 ^ (64 - shift) \<le> unat byte)"
      and rec: "read_varint_loop 64 (rd + 1) (i OR push_bit shift (ucast (byte AND 0x7f))) (shift + 7) bs = (r, x)"
      by (auto simp: Let_def eq split: if_splits)
    from Cons.IH [OF rec] Cons.prems have IH: "rd + 1 < r"
      "readVarint_loop (i OR push_bit shift (ucast (byte AND 0x7f))) (shift + 7) bs = Inr (x, drop (nat (r - (rd + 1))) bs)"
      by auto
    from IH(1) have "nat (r - rd) = Suc (nat (r - (rd + 1)))" by simp
    with IH ok False show ?thesis
      by (auto simp: readVarint_loop.simps [of i shift] read_u8_Cons Let_def eq)
  qed
qed

lemma read_varint_canonical:
  assumes "read_varint bs = (r, v)" and "0 < r" and "drop (nat r) bs \<noteq> []"
  shows "bs = get_varint_data v @ drop (nat r) bs"
proof -
  from assms(2,3) have "r < 0 + int (length bs)" by simp
  with assms read_varint_loop_canonical [of 0 0 0 bs r v]
  have "readVarint bs = Inr (v, drop (nat r) bs)" by (simp add: read_varint_def readVarint_def)
  then have "bs = varint_bytes (unat v) @ drop (nat r) bs" by (subst (asm) readVarint_iff) simp_all
  then show ?thesis by (simp add: get_varint_data_def write_varint_eq_varint_bytes)
qed

lemma decode_encode_addr:
  "\<exists>s. encode_addr tag data = Some s \<and> decode_addr s = Some (tag, data)"
proof -
  let ?buf = "get_varint_data tag @ data"
  have h: "length (take 4 (cn_fast_hash ?buf)) = 4" by simp
  obtain s where s: "encode (?buf @ take 4 (cn_fast_hash ?buf)) = Some s"
    "decode s = Some (?buf @ take 4 (cn_fast_hash ?buf))" using decode_encode by blast
  have "get_varint_data tag \<noteq> []" by (simp add: get_varint_data_def write_varint_eq_varint_bytes)
  with s h read_varint_get_varint_data [of tag data] show ?thesis
    by (simp add: encode_addr_def decode_addr_def Let_def)
qed

lemma decode_addr_sound:
  assumes "decode_addr s = Some (tag, data)" and "data \<noteq> []"
  shows "encode_addr tag data = Some s"
proof -
  from assms(1) obtain d r where d: "decode s = Some d" "4 < length d"
    "take 4 (cn_fast_hash (take (length d - 4) d)) = drop (length d - 4) d"
    "read_varint (take (length d - 4) d) = (r, tag)" "0 < r" "data = drop (nat r) (take (length d - 4) d)"
    by (auto simp: decode_addr_def bind_eq_Some_conv Let_def not_le split: if_splits prod.splits)
  have buf: "take (length d - 4) d = get_varint_data tag @ data"
    using read_varint_canonical [OF d(4,5)] assms(2) unfolding d(6) by blast
  have "(get_varint_data tag @ data) @ take 4 (cn_fast_hash (get_varint_data tag @ data)) = d"
    using d(3) append_take_drop_id [of "length d - 4" d] unfolding buf by simp
  with decode_canonical [OF d(1)] show ?thesis by (simp add: encode_addr_def Let_def)
qed

section \<open>Properties\<close>

text \<open>
  C24: Base58 is a bijection between byte strings and the strings \<^verbatim>\<open>decode\<close> accepts. \<^verbatim>\<open>encode\<close> never
  fails (no write of a block leaves its buffer) and \<^verbatim>\<open>decode\<close> gives the data back; conversely every
  accepted string is the encoding of what it decodes to, so overflowing blocks, foreign symbols and
  impossible lengths are all rejected and no data has two spellings.
\<close>

theorem base58_exact:
  "(\<exists>s. encode data = Some s) \<and> (decode s = Some data \<longleftrightarrow> encode data = Some s)"
proof -
  obtain s' where "encode data = Some s'" "decode s' = Some data" using decode_encode by blast
  with decode_canonical [of s data] show ?thesis by fastforce
qed

text \<open>
  C25: Addresses survive the round trip through their textual form: \<^verbatim>\<open>decode_addr\<close> recovers tag and
  payload from what \<^verbatim>\<open>encode_addr\<close> produced; and any address it accepts with a non-empty payload is
  exactly the canonical spelling of that tag and payload, so its checksum is right.
\<close>

theorem address_roundtrip:
  "(\<exists>s. encode_addr tag data = Some s \<and> decode_addr s = Some (tag, data)) \<and>
   (decode_addr a = Some (t, d) \<and> d \<noteq> [] \<longrightarrow> encode_addr t d = Some a)"
  by (intro conjI impI decode_encode_addr decode_addr_sound [of a]) simp_all

theorem address_roundtrip_witness:
  "\<exists>s. decode_addr s = Some (118, [1, 2, 3]) \<and> encode_addr 118 [1, 2, 3] = Some s"
proof -
  obtain s where "decode_addr s = Some (118, [1, 2, 3])"
    using address_roundtrip [of 118 "[1, 2, 3]"] by blast
  with address_roundtrip [of _ _ s 118 "[1, 2, 3]"] show ?thesis by blast
qed

text \<open>
  A tag that breaks off in the middle is accepted when the payload is empty: the single byte
  0x80 with its checksum decodes as tag 0, although \<^verbatim>\<open>encode_addr\<close> spells tag 0 differently. The
  reader \<^verbatim>\<open>Tools::read_varint\<close> treats the end of the input as the end of the number.
\<close>

theorem truncated_tag_accepted:
  "\<exists>a. decode_addr a = Some (0, []) \<and> encode_addr 0 [] \<noteq> Some a"
proof -
  let ?c = "take 4 (cn_fast_hash [0x80])"
  have h: "length ?c = 4" by simp
  obtain a where a: "encode ([0x80] @ ?c) = Some a" "decode a = Some ([0x80] @ ?c)" using decode_encode by blast
  have v: "read_varint [0x80] = (1, 0)" by (simp add: read_varint_def)
  have "decode_addr a = Some (0, [])" using a(2) h v by (simp add: decode_addr_def)
  moreover have "encode_addr 0 [] \<noteq> Some a"
  proof
    assume "encode_addr 0 [] = Some a"
    then obtain c where "encode (0 # c) = Some a"
      by (auto simp: encode_addr_def Let_def get_varint_data_def write_varint.simps [of 0])
    with decode_encode [of "0 # c"] a(2) show False by simp
  qed
  ultimately show ?thesis by blast
qed

end
