(* ===== verification/Config.thy ===== *)
theory Config
  imports Prelude
begin

text \<open>
  The constants of \<^verbatim>\<open>lib/Global/CryptoNoteConfig.h\<close> that the modelled code uses, at the width the
  header gives them (\<^verbatim>\<open>size_t\<close> is 64 bits).
\<close>

definition CURRENT_TRANSACTION_VERSION :: u8 where
  "CURRENT_TRANSACTION_VERSION = 1"

definition BLOCK_MAJOR_VERSION_1 :: u8 where
  "BLOCK_MAJOR_VERSION_1 = 1"

definition BLOCK_MAJOR_VERSION_6 :: u8 where
  "BLOCK_MAJOR_VERSION_6 = 6"

end
