(* ===== verification/CryptoNoteTypes.thy ===== *)
theory CryptoNoteTypes
  imports Config
begin

text \<open>
  The data that is passed between nodes, \<^verbatim>\<open>include/CryptoNote.h\<close>: transactions, blocks, addresses and
  keys. Keys, key images and signatures are byte strings; the serializers fix their lengths. A
  transaction extends its prefix and a block extends its header, as the structs do. The field
  \<^verbatim>\<open>parentBlock\<close> of \<^verbatim>\<open>Block\<close> is left out: no code reads or writes it.
\<close>

section \<open>Definitions\<close>

record BaseInput =
  bi_blockIndex :: u32

record KeyInput =
  ki_amount :: u64
  ki_outputIndexes :: "u32 list"
  ki_keyImage :: bytes

record MultiSignatureInput =
  mi_amount :: u64
  mi_signatureCount :: u8
  mi_outputIndex :: u32

record KeyOutput =
  ko_key :: bytes

record MultiSignatureOutput =
  mo_keys :: "bytes list"
  mo_requiredSignatureCount :: u8

datatype TransactionInput =
    TxBaseInput BaseInput
  | TxKeyInput KeyInput
  | TxMultiSignatureInput MultiSignatureInput

datatype TransactionOutputTarget =
    TxKeyOutput KeyOutput
  | TxMultiSignatureOutput MultiSignatureOutput

record TransactionOutput =
  to_amount :: u64
  to_target :: TransactionOutputTarget

record TransactionPrefix =
  version :: u8
  unlockTime :: u64
  inputs :: "TransactionInput list"
  outputs :: "TransactionOutput list"
  extra :: bytes

record Transaction = TransactionPrefix +
  signatures :: "bytes list list"

record BlockHeader =
  majorVersion :: u8
  minorVersion :: u8
  nonce :: u32
  timestamp :: u64
  previousBlockHash :: hash

record Block = BlockHeader +
  baseTransaction :: Transaction
  transactionHashes :: "hash list"

record AccountPublicAddress =
  spendPublicKey :: bytes
  viewPublicKey :: bytes

record AccountKeys =
  ak_address :: AccountPublicAddress
  ak_spendSecretKey :: bytes
  ak_viewSecretKey :: bytes

record KeyPair =
  kp_publicKey :: bytes
  kp_secretKey :: bytes

record TransactionExtraMergeMiningTag =
  mm_depth :: u64
  mm_merkleRoot :: hash

end
