(* ===== verification/Serialization.thy ===== *)
theory Serialization
  imports Streams CryptoNoteTypes
begin

text \<open>
  The binary format of transactions, blocks and addresses:
  \<^verbatim>\<open>lib/Serialization/BinaryInputStreamSerializer.cpp\<close>, \<^verbatim>\<open>BinaryOutputStreamSerializer.cpp\<close>,
  \<^verbatim>\<open>SerializationOverloads\<close> and \<^verbatim>\<open>lib/CryptoNoteCore/CryptoNoteSerialization.cpp\<close>. The C++ code has one
  bidirectional \<^verbatim>\<open>serialize\<close> per type; here it is a writer \<open>put_X\<close> and a reader \<open>get_X\<close>, the two
  directions of that function. An exception of a writer or reader is an error value. Allocation is
  assumed to succeed. The interface between the two directions is the locale \<open>canonical_codec\<close>; every
  type's pair is shown to satisfy it, so that readers accept exactly the writer's output.
\<close>

unbundle bit_operations_syntax

section \<open>The binary serializers\<close>

definition put_u8 :: "u8 \<Rightarrow> bytes" where
  "put_u8 v = writeVarint (ucast v)"

definition get_u8 :: "u8 reader" where
  "get_u8 = readVarint"

definition put_u16 :: "u16 \<Rightarrow> bytes" where
  "put_u16 v = writeVarint (ucast v)"

definition get_u16 :: "u16 reader" where
  "get_u16 = readVarint"

definition put_u32 :: "u32 \<Rightarrow> bytes" where
  "put_u32 v = writeVarint (ucast v)"

definition get_u32 :: "u32 reader" where
  "get_u32 = readVarint"

definition put_u64 :: "u64 \<Rightarrow> bytes" where
  "put_u64 v = writeVarint v"

definition get_u64 :: "u64 reader" where
  "get_u64 = readVarint"

definition put_bool :: "bool \<Rightarrow> bytes" where
  "put_bool b = [if b then 1 else 0]"

definition get_bool :: "bool reader" where
  "get_bool = rbind read_u8 (\<lambda>b. rret (b \<noteq> 0))"

definition put_size :: "nat \<Rightarrow> bytes" where
  "put_size n = writeVarint (word_of_nat n)"

definition get_size :: "nat reader" where
  "get_size = rbind (readVarint :: u64 reader) (\<lambda>n. rret (unat n))"

definition put_string :: "bytes \<Rightarrow> bytes" where
  "put_string s = put_size (length s) @ s"

definition get_string :: "bytes reader" where
  "get_string = rbind get_size (\<lambda>n. if 0 < n then read_bytes n else rret [])"

definition put_binary :: "bytes \<Rightarrow> bytes" where
  "put_binary data = data"

definition get_binary :: "nat \<Rightarrow> bytes reader" where
  "get_binary n = read_bytes n"

definition put_vector :: "('a \<Rightarrow> bytes) \<Rightarrow> 'a list \<Rightarrow> bytes" where
  "put_vector put xs = put_size (length xs) @ concat (map put xs)"

definition get_vector :: "'a reader \<Rightarrow> 'a list reader" where
  "get_vector get = rbind get_size (\<lambda>n. rrepeat n get)"

definition put_BlockHeight :: "u32 \<Rightarrow> bytes" where
  "put_BlockHeight blockHeight = put_u32 blockHeight"

definition get_BlockHeight :: "u32 reader" where
  "get_BlockHeight =
     rbind get_u64 (\<lambda>height.
       if height = - 1 then rret (- 1)
       else if ucast (- 1 :: u32) < height \<and> height < - 1 then rfail OutOfRange
       else rret (ucast height))"

section \<open>Transactions\<close>

definition getSignaturesCount :: "TransactionInput \<Rightarrow> nat" where
  "getSignaturesCount input =
     (case input of
        TxBaseInput _ \<Rightarrow> 0
      | TxKeyInput txin \<Rightarrow> length (ki_outputIndexes txin)
      | TxMultiSignatureInput txin \<Rightarrow> unat (mi_signatureCount txin))"

definition inputTag :: "TransactionInput \<Rightarrow> u8" where
  "inputTag input =
     (case input of TxBaseInput _ \<Rightarrow> 0xff | TxKeyInput _ \<Rightarrow> 0x2 | TxMultiSignatureInput _ \<Rightarrow> 0x3)"

definition targetTag :: "TransactionOutputTarget \<Rightarrow> u8" where
  "targetTag target = (case target of TxKeyOutput _ \<Rightarrow> 0x2 | TxMultiSignatureOutput _ \<Rightarrow> 0x3)"

definition put_BaseInput :: "BaseInput \<Rightarrow> bytes" where
  "put_BaseInput gen = put_u32 (bi_blockIndex gen)"

definition get_BaseInput :: "BaseInput reader" where
  "get_BaseInput = rbind get_u32 (\<lambda>i. rret \<lparr>bi_blockIndex = i\<rparr>)"

definition put_KeyInput :: "KeyInput \<Rightarrow> bytes" where
  "put_KeyInput key = put_u64 (ki_amount key) @ put_vector put_u32 (ki_outputIndexes key) @ put_binary (ki_keyImage key)"

definition get_KeyInput :: "KeyInput reader" where
  "get_KeyInput =
     rbind get_u64 (\<lambda>amount.
     rbind (get_vector get_u32) (\<lambda>outputIndexes.
     rbind (get_binary 32) (\<lambda>keyImage.
     rret \<lparr>ki_amount = amount, ki_outputIndexes = outputIndexes, ki_keyImage = keyImage\<rparr>)))"

definition put_MultiSignatureInput :: "MultiSignatureInput \<Rightarrow> bytes" where
  "put_MultiSignatureInput m = put_u64 (mi_amount m) @ put_u8 (mi_signatureCount m) @ put_u32 (mi_outputIndex m)"

definition get_MultiSignatureInput :: "MultiSignatureInput reader" where
  "get_MultiSignatureInput =
     rbind get_u64 (\<lambda>amount.
     rbind get_u8 (\<lambda>signatureCount.
     rbind get_u32 (\<lambda>outputIndex.
     rret \<lparr>mi_amount = amount, mi_signatureCount = signatureCount, mi_outputIndex = outputIndex\<rparr>)))"

definition put_TransactionInput :: "TransactionInput \<Rightarrow> bytes" where
  "put_TransactionInput input =
     put_binary [inputTag input] @
     (case input of
        TxBaseInput v \<Rightarrow> put_BaseInput v
      | TxKeyInput v \<Rightarrow> put_KeyInput v
      | TxMultiSignatureInput v \<Rightarrow> put_MultiSignatureInput v)"

definition getVariantValue_input :: "u8 \<Rightarrow> TransactionInput reader" where
  "getVariantValue_input tag =
     (if tag = 0xff then rbind get_BaseInput (\<lambda>v. rret (TxBaseInput v))
      else if tag = 0x2 then rbind get_KeyInput (\<lambda>v. rret (TxKeyInput v))
      else if tag = 0x3 then rbind get_MultiSignatureInput (\<lambda>v. rret (TxMultiSignatureInput v))
      else rfail UnknownVariantTag)"

definition get_TransactionInput :: "TransactionInput reader" where
  "get_TransactionInput = rbind read_u8 getVariantValue_input"

definition put_KeyOutput :: "KeyOutput \<Rightarrow> bytes" where
  "put_KeyOutput key = put_binary (ko_key key)"

definition get_KeyOutput :: "KeyOutput reader" where
  "get_KeyOutput = rbind (get_binary 32) (\<lambda>k. rret \<lparr>ko_key = k\<rparr>)"

definition put_MultiSignatureOutput :: "MultiSignatureOutput \<Rightarrow> bytes" where
  "put_MultiSignatureOutput m = put_vector put_binary (mo_keys m) @ put_u8 (mo_requiredSignatureCount m)"

definition get_MultiSignatureOutput :: "MultiSignatureOutput reader" where
  "get_MultiSignatureOutput =
     rbind (get_vector (get_binary 32)) (\<lambda>keys.
     rbind get_u8 (\<lambda>required.
     rret \<lparr>mo_keys = keys, mo_requiredSignatureCount = required\<rparr>))"

definition put_TransactionOutputTarget :: "TransactionOutputTarget \<Rightarrow> bytes" where
  "put_TransactionOutputTarget target =
     put_binary [targetTag target] @
     (case target of TxKeyOutput v \<Rightarrow> put_KeyOutput v | TxMultiSignatureOutput v \<Rightarrow> put_MultiSignatureOutput v)"

definition getVariantValue_target :: "u8 \<Rightarrow> TransactionOutputTarget reader" where
  "getVariantValue_target tag =
     (if tag = 0x2 then rbind get_KeyOutput (\<lambda>v. rret (TxKeyOutput v))
      else if tag = 0x3 then rbind get_MultiSignatureOutput (\<lambda>v. rret (TxMultiSignatureOutput v))
      else rfail UnknownVariantTag)"

definition get_TransactionOutputTarget :: "TransactionOutputTarget reader" where
  "get_TransactionOutputTarget = rbind read_u8 getVariantValue_target"

definition put_TransactionOutput :: "TransactionOutput \<Rightarrow> bytes" where
  "put_TransactionOutput out = put_u64 (to_amount out) @ put_TransactionOutputTarget (to_target out)"

definition get_TransactionOutput :: "TransactionOutput reader" where
  "get_TransactionOutput =
     rbind get_u64 (\<lambda>amount.
     rbind get_TransactionOutputTarget (\<lambda>target.
     rret \<lparr>to_amount = amount, to_target = target\<rparr>))"

definition put_TransactionPrefix :: "('a) TransactionPrefix_scheme \<Rightarrow> bytes result" where
  "put_TransactionPrefix txP =
     (if CURRENT_TRANSACTION_VERSION < version txP then Inl WrongTransactionVersion
      else Inr (put_u8 (version txP) @ put_u64 (unlockTime txP)
        @ put_vector put_TransactionInput (inputs txP)
        @ put_vector put_TransactionOutput (outputs txP)
        @ put_string (extra txP)))"

definition get_TransactionPrefix :: "TransactionPrefix reader" where
  "get_TransactionPrefix =
     rbind get_u8 (\<lambda>v.
     if CURRENT_TRANSACTION_VERSION < v then rfail WrongTransactionVersion
     else
       rbind get_u64 (\<lambda>ut.
       rbind (get_vector get_TransactionInput) (\<lambda>ins.
       rbind (get_vector get_TransactionOutput) (\<lambda>outs.
       rbind get_string (\<lambda>ex.
       rret \<lparr>version = v, unlockTime = ut, inputs = ins, outputs = outs, extra = ex\<rparr>)))))"

fun put_signatures :: "TransactionInput list \<Rightarrow> bytes list list \<Rightarrow> bytes result" where
  "put_signatures (input # ins) (sigs # sss) =
     (if getSignaturesCount input \<noteq> length sigs then Inl UnexpectedSignaturesSize
      else andThen (put_signatures ins sss) (\<lambda>rest. Inr (concat (map put_binary sigs) @ rest)))"
| "put_signatures _ _ = Inr []"

fun get_signatures :: "TransactionInput list \<Rightarrow> bytes list list reader" where
  "get_signatures [] = rret []"
| "get_signatures (input # ins) =
     rbind (rrepeat (getSignaturesCount input) (get_binary 64)) (\<lambda>sigs.
     rbind (get_signatures ins) (\<lambda>sss. rret (sigs # sss)))"

definition isBaseInput :: "TransactionInput \<Rightarrow> bool" where
  "isBaseInput input = (case input of TxBaseInput _ \<Rightarrow> True | _ \<Rightarrow> False)"

definition put_Transaction :: "Transaction \<Rightarrow> bytes result" where
  "put_Transaction tx =
     andThen (put_TransactionPrefix tx) (\<lambda>prefix.
       if signatures tx = [] then
         (if list_all (\<lambda>i. getSignaturesCount i = 0) (inputs tx) then Inr prefix else Inl SignaturesNotExpected)
       else if length (inputs tx) \<noteq> length (signatures tx) then Inl UnexpectedSignaturesSize
       else andThen (put_signatures (inputs tx) (signatures tx)) (\<lambda>sigs. Inr (prefix @ sigs)))"

definition get_Transaction :: "Transaction reader" where
  "get_Transaction =
     rbind get_TransactionPrefix (\<lambda>p.
       let sigSize = length (inputs p);
           signaturesNotExpected = (sigSize = 0 \<or> sigSize = 1 \<and> isBaseInput (inputs p ! 0))
       in if signaturesNotExpected
          then (if list_all (\<lambda>i. getSignaturesCount i = 0) (inputs p)
                then rret (TransactionPrefix.extend p (Transaction.fields []))
                else rfail SignaturesNotExpected)
          else rbind (get_signatures (inputs p)) (\<lambda>sigs.
                 rret (TransactionPrefix.extend p (Transaction.fields sigs))))"

section \<open>Blocks, addresses and keys\<close>

definition put_BlockHeader :: "('a) BlockHeader_scheme \<Rightarrow> bytes result" where
  "put_BlockHeader header =
     (if BLOCK_MAJOR_VERSION_6 < majorVersion header then Inl WrongMajorVersion
      else if BLOCK_MAJOR_VERSION_1 \<le> majorVersion header
      then Inr (put_u8 (majorVersion header) @ put_u8 (minorVersion header) @ put_u64 (timestamp header)
        @ put_binary (previousBlockHash header) @ put_binary (write_u32 (nonce header)))
      else Inl WrongMajorVersion)"

definition get_BlockHeader :: "BlockHeader reader" where
  "get_BlockHeader =
     rbind get_u8 (\<lambda>major.
     if BLOCK_MAJOR_VERSION_6 < major then rfail WrongMajorVersion
     else
       rbind get_u8 (\<lambda>minor.
       if BLOCK_MAJOR_VERSION_1 \<le> major then
         rbind get_u64 (\<lambda>ts.
         rbind (get_binary 32) (\<lambda>prev.
         rbind read_u32 (\<lambda>n.
         rret \<lparr>majorVersion = major, minorVersion = minor, nonce = n, timestamp = ts, previousBlockHash = prev\<rparr>)))
       else rfail WrongMajorVersion))"

definition put_Block :: "Block \<Rightarrow> bytes result" where
  "put_Block block =
     andThen (put_BlockHeader block) (\<lambda>header.
     andThen (put_Transaction (baseTransaction block)) (\<lambda>tx.
     Inr (header @ tx @ put_vector put_binary (transactionHashes block))))"

definition get_Block :: "Block reader" where
  "get_Block =
     rbind get_BlockHeader (\<lambda>header.
     rbind get_Transaction (\<lambda>tx.
     rbind (get_vector (get_binary 32)) (\<lambda>hashes.
     rret (BlockHeader.extend header (Block.fields tx hashes)))))"

definition put_AccountPublicAddress :: "AccountPublicAddress \<Rightarrow> bytes" where
  "put_AccountPublicAddress address = put_binary (spendPublicKey address) @ put_binary (viewPublicKey address)"

definition get_AccountPublicAddress :: "AccountPublicAddress reader" where
  "get_AccountPublicAddress =
     rbind (get_binary 32) (\<lambda>s. rbind (get_binary 32) (\<lambda>v.
     rret \<lparr>spendPublicKey = s, viewPublicKey = v\<rparr>))"

definition put_AccountKeys :: "AccountKeys \<Rightarrow> bytes" where
  "put_AccountKeys keys =
     put_AccountPublicAddress (ak_address keys) @ put_binary (ak_spendSecretKey keys) @ put_binary (ak_viewSecretKey keys)"

definition get_AccountKeys :: "AccountKeys reader" where
  "get_AccountKeys =
     rbind get_AccountPublicAddress (\<lambda>a. rbind (get_binary 32) (\<lambda>s. rbind (get_binary 32) (\<lambda>v.
     rret \<lparr>ak_address = a, ak_spendSecretKey = s, ak_viewSecretKey = v\<rparr>)))"

definition put_KeyPair :: "KeyPair \<Rightarrow> bytes" where
  "put_KeyPair keyPair = put_binary (kp_secretKey keyPair) @ put_binary (kp_publicKey keyPair)"

definition get_KeyPair :: "KeyPair reader" where
  "get_KeyPair =
     rbind (get_binary 32) (\<lambda>s. rbind (get_binary 32) (\<lambda>p. rret \<lparr>kp_publicKey = p, kp_secretKey = s\<rparr>))"

definition doSerialize_put :: "TransactionExtraMergeMiningTag \<Rightarrow> bytes" where
  "doSerialize_put tag = put_u64 (mm_depth tag) @ put_binary (mm_merkleRoot tag)"

definition doSerialize_get :: "TransactionExtraMergeMiningTag reader" where
  "doSerialize_get =
     rbind get_u64 (\<lambda>depth. rbind (get_binary 32) (\<lambda>root.
     rret \<lparr>mm_depth = depth, mm_merkleRoot = root\<rparr>))"

definition put_MergeMiningTag :: "TransactionExtraMergeMiningTag \<Rightarrow> bytes" where
  "put_MergeMiningTag tag = put_string (doSerialize_put tag)"

definition get_MergeMiningTag :: "TransactionExtraMergeMiningTag reader" where
  "get_MergeMiningTag =
     rbind get_string (\<lambda>field.
       case doSerialize_get field of Inl e \<Rightarrow> rfail e | Inr (tag, _) \<Rightarrow> rret tag)"

section \<open>Whole byte arrays\<close>

definition fromBinaryArray :: "'a reader \<Rightarrow> bytes \<Rightarrow> 'a option" where
  "fromBinaryArray get ba =
     (case get ba of Inl _ \<Rightarrow> None | Inr (x, rest) \<Rightarrow> if rest = [] then Some x else None)"

definition toBinaryArray :: "('a \<Rightarrow> bytes result) \<Rightarrow> 'a \<Rightarrow> bytes option" where
  "toBinaryArray put x = (case put x of Inl _ \<Rightarrow> None | Inr bs \<Rightarrow> Some bs)"

definition getObjectBinarySize :: "('a \<Rightarrow> bytes result) \<Rightarrow> 'a \<Rightarrow> bool \<times> u64" where
  "getObjectBinarySize put x =
     (case toBinaryArray put x of None \<Rightarrow> (False, - 1) | Some ba \<Rightarrow> (True, word_of_nat (length ba)))"

definition NULL_HASH :: hash where
  "NULL_HASH = replicate 32 0"

definition getObjectHash :: "(bytes \<Rightarrow> hash) \<Rightarrow> ('a \<Rightarrow> bytes result) \<Rightarrow> 'a \<Rightarrow> bool \<times> hash" where
  "getObjectHash cn_fast_hash put x =
     (case toBinaryArray put x of None \<Rightarrow> (False, NULL_HASH) | Some ba \<Rightarrow> (True, cn_fast_hash ba))"

section \<open>Codecs\<close>

named_theorems codec_iff \<open>what a reader accepts, in terms of the matching writer\<close>

lemma canonical_codecI:
  assumes "\<And>bs x rest. decode bs = Inr (x, rest) \<longleftrightarrow> valid x \<and> bs = encode x @ rest"
  shows "canonical_codec encode decode valid"
  using assms by unfold_locales blast+

lemma put_get_size: "get_size bs = Inr (n, rest) \<longleftrightarrow> n < 2 ^ 64 \<and> bs = put_size n @ rest"
proof
  assume "get_size bs = Inr (n, rest)"
  then obtain w :: u64 where "n = unat w" "bs = writeVarint w @ rest"
    by (auto simp: get_size_def rbind_eq_Inr_iff varint64.decode_iff)
  then show "n < 2 ^ 64 \<and> bs = put_size n @ rest"
    using unsigned_less [of w, where 'a = nat] by (simp add: put_size_def)
next
  assume "n < 2 ^ 64 \<and> bs = put_size n @ rest"
  then show "get_size bs = Inr (n, rest)"
    by (simp add: get_size_def put_size_def rbind_def varint64.decode_encode unsigned_of_nat take_bit_nat_eq_self)
qed

interpretation size_codec: canonical_codec put_size get_size "\<lambda>n. n < 2 ^ 64"
  by (rule canonical_codecI) (rule put_get_size)

definition valid_vector :: "('a \<Rightarrow> bool) \<Rightarrow> 'a list \<Rightarrow> bool" where
  "valid_vector valid xs \<longleftrightarrow> length xs < 2 ^ 64 \<and> list_all valid xs"

context canonical_codec
begin

lemma repeat_iff:
  "rrepeat n decode bs = Inr (xs, rest) \<longleftrightarrow> length xs = n \<and> list_all valid xs \<and> bs = concat (map encode xs) @ rest"
proof
  assume "rrepeat n decode bs = Inr (xs, rest)"
  then show "length xs = n \<and> list_all valid xs \<and> bs = concat (map encode xs) @ rest"
    using many_canonical rrepeat_length by blast
next
  assume "length xs = n \<and> list_all valid xs \<and> bs = concat (map encode xs) @ rest"
  then show "rrepeat n decode bs = Inr (xs, rest)" using decode_many [of xs rest] by simp
qed

lemma vector_iff:
  "get_vector decode bs = Inr (xs, rest) \<longleftrightarrow> valid_vector valid xs \<and> bs = put_vector encode xs @ rest"
  by (auto simp: get_vector_def put_vector_def valid_vector_def rbind_eq_Inr_iff put_get_size repeat_iff)

end

lemma get_u8_iff [codec_iff]: "get_u8 bs = Inr (x, rest) \<longleftrightarrow> bs = put_u8 x @ rest"
  by (simp add: get_u8_def put_u8_def varint8.decode_iff)

lemma get_u16_iff [codec_iff]: "get_u16 bs = Inr (x, rest) \<longleftrightarrow> bs = put_u16 x @ rest"
  by (simp add: get_u16_def put_u16_def readVarint_iff writeVarint_eq_varint_bytes unat_ucast_up)

lemma get_u32_iff [codec_iff]: "get_u32 bs = Inr (x, rest) \<longleftrightarrow> bs = put_u32 x @ rest"
  by (simp add: get_u32_def put_u32_def varint32.decode_iff)

lemma get_u64_iff [codec_iff]: "get_u64 bs = Inr (x, rest) \<longleftrightarrow> bs = put_u64 x @ rest"
  by (simp add: get_u64_def put_u64_def varint64.decode_iff)

lemma get_binary_iff [codec_iff]: "get_binary n bs = Inr (x, rest) \<longleftrightarrow> length x = n \<and> bs = put_binary x @ rest"
  by (simp add: get_binary_def put_binary_def read_bytes_iff)

lemma read_bytes_or_empty:
  "(if 0 < n then read_bytes n else rret []) bs = Inr (x, rest) \<longleftrightarrow> length x = n \<and> bs = x @ rest"
  by (cases "n = 0") (auto simp: read_bytes_iff)

lemma get_string_iff [codec_iff]: "get_string bs = Inr (x, rest) \<longleftrightarrow> length x < 2 ^ 64 \<and> bs = put_string x @ rest"
  unfolding get_string_def put_string_def rbind_eq_Inr_iff put_get_size read_bytes_or_empty by auto

interpretation u32_codec: canonical_codec put_u32 get_u32 "\<lambda>_. True"
  by (rule canonical_codecI) (simp add: codec_iff)

interpretation key_codec: canonical_codec put_binary "get_binary 32" "\<lambda>k. length k = 32"
  by (rule canonical_codecI) (simp add: codec_iff)

interpretation signature_codec: canonical_codec put_binary "get_binary 64" "\<lambda>s. length s = 64"
  by (rule canonical_codecI) (simp add: codec_iff)

lemmas [codec_iff] = u32_codec.vector_iff key_codec.vector_iff signature_codec.repeat_iff

section \<open>Well-formed objects\<close>

definition valid_KeyInput :: "KeyInput \<Rightarrow> bool" where
  "valid_KeyInput k \<longleftrightarrow> valid_vector (\<lambda>_. True) (ki_outputIndexes k) \<and> length (ki_keyImage k) = 32"

definition valid_TransactionInput :: "TransactionInput \<Rightarrow> bool" where
  "valid_TransactionInput input = (case input of TxKeyInput k \<Rightarrow> valid_KeyInput k | _ \<Rightarrow> True)"

definition valid_MultiSignatureOutput :: "MultiSignatureOutput \<Rightarrow> bool" where
  "valid_MultiSignatureOutput m \<longleftrightarrow> valid_vector (\<lambda>k. length k = 32) (mo_keys m)"

definition valid_TransactionOutputTarget :: "TransactionOutputTarget \<Rightarrow> bool" where
  "valid_TransactionOutputTarget t =
     (case t of TxKeyOutput k \<Rightarrow> length (ko_key k) = 32 | TxMultiSignatureOutput m \<Rightarrow> valid_MultiSignatureOutput m)"

definition valid_TransactionOutput :: "TransactionOutput \<Rightarrow> bool" where
  "valid_TransactionOutput out \<longleftrightarrow> valid_TransactionOutputTarget (to_target out)"

definition valid_TransactionPrefix :: "('a) TransactionPrefix_scheme \<Rightarrow> bool" where
  "valid_TransactionPrefix txP \<longleftrightarrow>
     version txP \<le> CURRENT_TRANSACTION_VERSION \<and>
     valid_vector valid_TransactionInput (inputs txP) \<and>
     valid_vector valid_TransactionOutput (outputs txP) \<and>
     length (extra txP) < 2 ^ 64"

definition signaturesNotExpected :: "('a) TransactionPrefix_scheme \<Rightarrow> bool" where
  "signaturesNotExpected p \<longleftrightarrow> inputs p = [] \<or> length (inputs p) = 1 \<and> isBaseInput (inputs p ! 0)"

definition valid_signatures :: "TransactionInput list \<Rightarrow> bytes list list \<Rightarrow> bool" where
  "valid_signatures ins sss \<longleftrightarrow>
     list_all2 (\<lambda>input sigs. length sigs = getSignaturesCount input \<and> list_all (\<lambda>s. length s = 64) sigs) ins sss"

definition valid_Transaction :: "Transaction \<Rightarrow> bool" where
  "valid_Transaction tx \<longleftrightarrow>
     valid_TransactionPrefix tx \<and>
     (if signaturesNotExpected tx then signatures tx = [] else valid_signatures (inputs tx) (signatures tx))"

lemma get_BaseInput_iff [codec_iff]: "get_BaseInput bs = Inr (x, rest) \<longleftrightarrow> bs = put_BaseInput x @ rest"
  by (cases x) (auto simp: get_BaseInput_def put_BaseInput_def rbind_eq_Inr_iff codec_iff)

lemma get_KeyInput_iff [codec_iff]:
  "get_KeyInput bs = Inr (x, rest) \<longleftrightarrow> valid_KeyInput x \<and> bs = put_KeyInput x @ rest"
  by (cases x) (auto simp: get_KeyInput_def put_KeyInput_def valid_KeyInput_def rbind_eq_Inr_iff codec_iff)

lemma get_MultiSignatureInput_iff [codec_iff]:
  "get_MultiSignatureInput bs = Inr (x, rest) \<longleftrightarrow> bs = put_MultiSignatureInput x @ rest"
  by (cases x) (auto simp: get_MultiSignatureInput_def put_MultiSignatureInput_def rbind_eq_Inr_iff codec_iff)

lemma read_u8_iff [codec_iff]: "read_u8 bs = Inr (x, rest) \<longleftrightarrow> bs = x # rest"
  by (auto simp: read_u8_Nil_Cons split: list.splits)

lemma rbind_read_u8 [simp]:
  "rbind read_u8 f [] = Inl StreamReadFailed"
  "rbind read_u8 f (b # bs) = f b bs"
  by (simp_all add: rbind_def read_u8_Nil_Cons)

lemma get_TransactionInput_iff:
  "get_TransactionInput bs = Inr (x, rest) \<longleftrightarrow> valid_TransactionInput x \<and> bs = put_TransactionInput x @ rest"
  by (cases bs; cases x) (auto simp: get_TransactionInput_def getVariantValue_input_def put_TransactionInput_def
      valid_TransactionInput_def inputTag_def put_binary_def rbind_eq_Inr_iff codec_iff split: if_splits)

interpretation input_codec: canonical_codec put_TransactionInput get_TransactionInput valid_TransactionInput
  by (rule canonical_codecI) (rule get_TransactionInput_iff)

lemma get_KeyOutput_iff [codec_iff]:
  "get_KeyOutput bs = Inr (x, rest) \<longleftrightarrow> length (ko_key x) = 32 \<and> bs = put_KeyOutput x @ rest"
  by (cases x) (auto simp: get_KeyOutput_def put_KeyOutput_def rbind_eq_Inr_iff codec_iff)

lemma get_MultiSignatureOutput_iff [codec_iff]:
  "get_MultiSignatureOutput bs = Inr (x, rest) \<longleftrightarrow> valid_MultiSignatureOutput x \<and> bs = put_MultiSignatureOutput x @ rest"
  by (cases x) (auto simp: get_MultiSignatureOutput_def put_MultiSignatureOutput_def valid_MultiSignatureOutput_def
      rbind_eq_Inr_iff codec_iff)

lemma get_TransactionOutputTarget_iff [codec_iff]:
  "get_TransactionOutputTarget bs = Inr (x, rest) \<longleftrightarrow>
     valid_TransactionOutputTarget x \<and> bs = put_TransactionOutputTarget x @ rest"
  by (cases bs; cases x) (auto simp: get_TransactionOutputTarget_def getVariantValue_target_def put_TransactionOutputTarget_def
      valid_TransactionOutputTarget_def targetTag_def put_binary_def rbind_eq_Inr_iff codec_iff split: if_splits)

lemma get_TransactionOutput_iff:
  "get_TransactionOutput bs = Inr (x, rest) \<longleftrightarrow> valid_TransactionOutput x \<and> bs = put_TransactionOutput x @ rest"
  by (cases x) (auto simp: get_TransactionOutput_def put_TransactionOutput_def valid_TransactionOutput_def
      rbind_eq_Inr_iff codec_iff)

interpretation output_codec: canonical_codec put_TransactionOutput get_TransactionOutput valid_TransactionOutput
  by (rule canonical_codecI) (rule get_TransactionOutput_iff)

lemmas [codec_iff] = input_codec.vector_iff output_codec.vector_iff

lemma get_TransactionPrefix_iff [codec_iff]:
  "get_TransactionPrefix bs = Inr (x, rest) \<longleftrightarrow>
     valid_TransactionPrefix x \<and> (\<exists>p. put_TransactionPrefix x = Inr p \<and> bs = p @ rest)"
  by (cases x) (auto simp: get_TransactionPrefix_def put_TransactionPrefix_def valid_TransactionPrefix_def
      rbind_eq_Inr_iff codec_iff not_less)

lemma get_signatures_iff:
  "get_signatures ins bs = Inr (sss, rest) \<longleftrightarrow>
     valid_signatures ins sss \<and> (\<exists>p. put_signatures ins sss = Inr p \<and> bs = p @ rest)"
proof (induction ins arbitrary: bs sss)
  case Nil
  then show ?case by (auto simp: valid_signatures_def)
next
  case (Cons input ins)
  show ?case
  proof (cases sss)
    case Nil
    then show ?thesis by (simp add: rbind_eq_Inr_iff valid_signatures_def)
  next
    case (Cons sigs sss')
    then show ?thesis
      by (auto simp: rbind_eq_Inr_iff Cons.IH codec_iff valid_signatures_def andThen_eq_Inr_iff)
  qed
qed

lemma put_signatures_total: "valid_signatures ins sss \<Longrightarrow> \<exists>p. put_signatures ins sss = Inr p"
  by (induction ins sss rule: put_signatures.induct) (auto simp: valid_signatures_def andThen_def)

lemma put_TransactionPrefix_total: "valid_TransactionPrefix x \<Longrightarrow> \<exists>p. put_TransactionPrefix x = Inr p"
  by (simp add: put_TransactionPrefix_def valid_TransactionPrefix_def not_less)

lemma signaturesNotExpected_no_signatures:
  "signaturesNotExpected p \<Longrightarrow> list_all (\<lambda>i. getSignaturesCount i = 0) (inputs p)"
  by (cases "inputs p")
    (auto simp: signaturesNotExpected_def isBaseInput_def getSignaturesCount_def split: TransactionInput.splits)

lemma valid_signatures_Nil: "valid_signatures ins [] \<longleftrightarrow> ins = []"
  by (simp add: valid_signatures_def)

lemma valid_signatures_length: "valid_signatures ins sss \<Longrightarrow> length ins = length sss"
  by (simp add: valid_signatures_def list_all2_lengthD)

lemma prefix_of_Transaction:
  fixes tx :: Transaction
  shows "put_TransactionPrefix (TransactionPrefix.truncate tx) = put_TransactionPrefix tx"
    and "valid_TransactionPrefix (TransactionPrefix.truncate tx) = valid_TransactionPrefix tx"
    and "signaturesNotExpected (TransactionPrefix.truncate tx) = signaturesNotExpected tx"
  by (simp_all add: put_TransactionPrefix_def valid_TransactionPrefix_def signaturesNotExpected_def
      TransactionPrefix.defs)

lemma put_Transaction_valid:
  assumes "valid_Transaction tx"
  shows "put_Transaction tx = andThen (put_TransactionPrefix tx) (\<lambda>p.
    if signaturesNotExpected tx then Inr p
    else andThen (put_signatures (inputs tx) (signatures tx)) (\<lambda>s. Inr (p @ s)))"
proof (cases "signaturesNotExpected tx")
  case True
  with assms have "signatures tx = []" by (simp add: valid_Transaction_def)
  with True signaturesNotExpected_no_signatures [OF True] show ?thesis by (simp add: put_Transaction_def)
next
  case False
  with assms have v: "valid_signatures (inputs tx) (signatures tx)" by (simp add: valid_Transaction_def)
  moreover have "signatures tx \<noteq> []"
    using False v by (auto simp: valid_signatures_Nil signaturesNotExpected_def)
  ultimately show ?thesis
    using False valid_signatures_length [OF v] by (simp add: put_Transaction_def)
qed

lemma put_Transaction_total:
  assumes "valid_Transaction tx"
  shows "\<exists>p. put_Transaction tx = Inr p"
proof -
  obtain p where p: "put_TransactionPrefix tx = Inr p"
    using assms put_TransactionPrefix_total by (auto simp: valid_Transaction_def)
  show ?thesis
  proof (cases "signaturesNotExpected tx")
    case True
    then show ?thesis by (simp add: put_Transaction_valid [OF assms] p)
  next
    case False
    with assms obtain s where "put_signatures (inputs tx) (signatures tx) = Inr s"
      using put_signatures_total by (auto simp: valid_Transaction_def)
    with False show ?thesis by (simp add: put_Transaction_valid [OF assms] p)
  qed
qed

lemma get_Transaction_eq:
  "get_Transaction = rbind get_TransactionPrefix (\<lambda>p.
     if signaturesNotExpected p then rret (TransactionPrefix.extend p (Transaction.fields []))
     else rbind (get_signatures (inputs p)) (\<lambda>sigs. rret (TransactionPrefix.extend p (Transaction.fields sigs))))"
proof -
  have "signaturesNotExpected p \<longleftrightarrow> length (inputs p) = 0 \<or> length (inputs p) = 1 \<and> isBaseInput (inputs p ! 0)"
    for p :: TransactionPrefix by (simp add: signaturesNotExpected_def)
  then show ?thesis
    unfolding get_Transaction_def Let_def
    by (intro arg_cong [where f = "rbind get_TransactionPrefix"] ext)
      (simp add: signaturesNotExpected_no_signatures)
qed

lemma extend_truncate:
  fixes tx :: Transaction
  shows "TransactionPrefix.extend p (Transaction.fields s) = tx \<longleftrightarrow> p = TransactionPrefix.truncate tx \<and> s = signatures tx"
  by (cases tx; cases p) (auto simp: TransactionPrefix.defs Transaction.defs)

lemma inputs_truncate [simp]: "inputs (TransactionPrefix.truncate (tx :: Transaction)) = inputs tx"
  by (simp add: TransactionPrefix.defs)

lemma get_Transaction_iff [codec_iff]:
  "get_Transaction bs = Inr (tx, rest) \<longleftrightarrow>
     valid_Transaction tx \<and> (\<exists>p. put_Transaction tx = Inr p \<and> bs = p @ rest)"
proof -
  let ?p = "TransactionPrefix.truncate tx"
  have "get_Transaction bs = Inr (tx, rest) \<longleftrightarrow>
     (\<exists>bs'. get_TransactionPrefix bs = Inr (?p, bs') \<and>
       (if signaturesNotExpected tx then signatures tx = [] \<and> bs' = rest
        else get_signatures (inputs tx) bs' = Inr (signatures tx, rest)))"
    unfolding get_Transaction_eq rbind_eq_Inr_iff
    by (auto simp: rbind_eq_Inr_iff extend_truncate prefix_of_Transaction intro!: exI [of _ ?p] split: if_splits)
  also have "\<dots> \<longleftrightarrow> valid_Transaction tx \<and> (\<exists>p. put_Transaction tx = Inr p \<and> bs = p @ rest)"
  proof (cases "valid_Transaction tx")
    case True
    then show ?thesis
      unfolding put_Transaction_valid [OF True]
      by (auto simp: get_TransactionPrefix_iff get_signatures_iff prefix_of_Transaction valid_Transaction_def
          andThen_eq_Inr_iff split: if_splits)
  next
    case False
    then show ?thesis
      by (auto simp: get_TransactionPrefix_iff get_signatures_iff prefix_of_Transaction valid_Transaction_def
          split: if_splits)
  qed
  finally show ?thesis .
qed

definition valid_BlockHeader :: "('a) BlockHeader_scheme \<Rightarrow> bool" where
  "valid_BlockHeader h \<longleftrightarrow>
     BLOCK_MAJOR_VERSION_1 \<le> majorVersion h \<and> majorVersion h \<le> BLOCK_MAJOR_VERSION_6 \<and> wf_hash (previousBlockHash h)"

definition valid_Block :: "Block \<Rightarrow> bool" where
  "valid_Block b \<longleftrightarrow>
     valid_BlockHeader b \<and> valid_Transaction (baseTransaction b) \<and> valid_vector (\<lambda>h. length h = 32) (transactionHashes b)"

lemma read_u32_iff [codec_iff]: "read_u32 bs = Inr (x, rest) \<longleftrightarrow> bs = write_u32 x @ rest"
proof
  assume "read_u32 bs = Inr (x, rest)"
  then obtain d where "length d = 4" "bs = d @ rest" "x = word_of_nat (le_nat d)"
    by (auto simp: read_u32_def rbind_eq_Inr_iff read_bytes_iff)
  moreover from this have "unat x = le_nat d"
    using le_nat_bound [of d] by (simp add: unsigned_of_nat take_bit_nat_eq_self)
  ultimately show "bs = write_u32 x @ rest"
    using le_bytes_le_nat [of d] by (simp add: write_u32_def)
next
  assume "bs = write_u32 x @ rest"
  then show "read_u32 bs = Inr (x, rest)" by (simp add: reads)
qed

lemma get_BlockHeader_iff [codec_iff]:
  "get_BlockHeader bs = Inr (x, rest) \<longleftrightarrow>
     valid_BlockHeader x \<and> (\<exists>p. put_BlockHeader x = Inr p \<and> bs = p @ rest)"
  by (cases x) (auto simp: get_BlockHeader_def put_BlockHeader_def valid_BlockHeader_def wf_hash_def put_binary_def
      rbind_eq_Inr_iff codec_iff not_less)

lemma put_BlockHeader_total: "valid_BlockHeader x \<Longrightarrow> \<exists>p. put_BlockHeader x = Inr p"
  by (simp add: put_BlockHeader_def valid_BlockHeader_def not_less)

lemma header_of_Block:
  fixes b :: Block
  shows "put_BlockHeader (BlockHeader.truncate b) = put_BlockHeader b"
    and "valid_BlockHeader (BlockHeader.truncate b) = valid_BlockHeader b"
  by (simp_all add: put_BlockHeader_def valid_BlockHeader_def BlockHeader.defs)

lemma extend_truncate_Block:
  fixes b :: Block
  shows "BlockHeader.extend h (Block.fields t hs) = b \<longleftrightarrow>
    h = BlockHeader.truncate b \<and> t = baseTransaction b \<and> hs = transactionHashes b"
  by (cases b; cases h) (auto simp: BlockHeader.defs Block.defs)

lemma get_Block_iff [codec_iff]:
  "get_Block bs = Inr (b, rest) \<longleftrightarrow> valid_Block b \<and> (\<exists>p. put_Block b = Inr p \<and> bs = p @ rest)"
  unfolding get_Block_def put_Block_def valid_Block_def
  by (auto simp: rbind_eq_Inr_iff codec_iff extend_truncate_Block header_of_Block andThen_eq_Inr_iff
      intro!: exI [of _ "BlockHeader.truncate b"])

lemma put_Block_total:
  assumes "valid_Block b"
  shows "\<exists>p. put_Block b = Inr p"
proof -
  obtain h t where "put_BlockHeader b = Inr h" "put_Transaction (baseTransaction b) = Inr t"
    using assms put_BlockHeader_total [of b] put_Transaction_total [of "baseTransaction b"]
    by (auto simp: valid_Block_def)
  then show ?thesis by (simp add: put_Block_def)
qed

text \<open>A writer that may throw, paired with its reader, is a canonical code on the valid objects.\<close>

lemma canonical_codec_fallible:
  assumes "\<And>bs x rest. get bs = Inr (x, rest) \<longleftrightarrow> valid x \<and> (\<exists>p. put x = Inr p \<and> bs = p @ rest)"
    and "\<And>x. valid x \<Longrightarrow> \<exists>p. put x = Inr p"
  shows "canonical_codec (\<lambda>x. projr (put x)) get valid"
proof (rule canonical_codecI)
  fix bs x rest
  show "get bs = Inr (x, rest) \<longleftrightarrow> valid x \<and> bs = projr (put x) @ rest"
    using assms(2) [of x] by (auto simp: assms(1))
qed

interpretation tx_codec: canonical_codec "\<lambda>tx. projr (put_Transaction tx)" get_Transaction valid_Transaction
  by (rule canonical_codec_fallible [OF get_Transaction_iff put_Transaction_total])

interpretation block_codec: canonical_codec "\<lambda>b. projr (put_Block b)" get_Block valid_Block
  by (rule canonical_codec_fallible [OF get_Block_iff put_Block_total])

definition valid_AccountPublicAddress :: "AccountPublicAddress \<Rightarrow> bool" where
  "valid_AccountPublicAddress a \<longleftrightarrow> length (spendPublicKey a) = 32 \<and> length (viewPublicKey a) = 32"

interpretation address_codec:
  canonical_codec put_AccountPublicAddress get_AccountPublicAddress valid_AccountPublicAddress
proof (rule canonical_codecI)
  fix bs x rest
  show "get_AccountPublicAddress bs = Inr (x, rest) \<longleftrightarrow>
      valid_AccountPublicAddress x \<and> bs = put_AccountPublicAddress x @ rest"
    by (cases x) (auto simp: get_AccountPublicAddress_def put_AccountPublicAddress_def valid_AccountPublicAddress_def
        rbind_eq_Inr_iff codec_iff)
qed

lemma get_put_AccountKeys:
  "valid_AccountPublicAddress (ak_address k) \<Longrightarrow> length (ak_spendSecretKey k) = 32 \<Longrightarrow> length (ak_viewSecretKey k) = 32 \<Longrightarrow>
   get_AccountKeys (put_AccountKeys k @ rest) = Inr (k, rest)"
  by (cases k) (simp add: get_AccountKeys_def put_AccountKeys_def rbind_eq_Inr_iff codec_iff address_codec.decode_iff)

lemma get_put_KeyPair:
  "length (kp_publicKey k) = 32 \<Longrightarrow> length (kp_secretKey k) = 32 \<Longrightarrow>
   get_KeyPair (put_KeyPair k @ rest) = Inr (k, rest)"
  by (cases k) (simp add: get_KeyPair_def put_KeyPair_def rbind_eq_Inr_iff codec_iff)

lemma get_put_MergeMiningTag:
  assumes "wf_hash (mm_merkleRoot t)"
  shows "get_MergeMiningTag (put_MergeMiningTag t @ rest) = Inr (t, rest)"
proof -
  have "length (doSerialize_put t) < 2 ^ 64"
    using assms length_writeVarint [of "mm_depth t"]
    by (simp add: doSerialize_put_def put_u64_def put_binary_def wf_hash_def)
  moreover have "doSerialize_get (doSerialize_put t) = Inr (t, [])"
    using assms by (cases t) (simp add: doSerialize_get_def doSerialize_put_def rbind_eq_Inr_iff codec_iff wf_hash_def)
  moreover from calculation(1) have "get_string (put_MergeMiningTag t @ rest) = Inr (doSerialize_put t, rest)"
    by (simp add: put_MergeMiningTag_def codec_iff)
  ultimately show ?thesis by (simp add: get_MergeMiningTag_def rbind_def)
qed

lemma get_put_BlockHeight: "get_BlockHeight (put_BlockHeight h @ rest) = Inr (h, rest)"
proof -
  let ?w = "ucast h :: u64"
  have u: "unat ?w = unat h" "unat h < 2 ^ 32"
    using unsigned_less [of h, where 'a = nat] by (simp_all add: unat_ucast_up)
  have "unat (- 1 :: u64) = 2 ^ 64 - 1" "unat (ucast (- 1 :: u32) :: u64) = 2 ^ 32 - 1"
    by (simp_all add: unsigned_minus_1_eq_mask mask_eq_exp_minus_1 unat_ucast_up)
  with u have "unat ?w \<noteq> unat (- 1 :: u64)" "\<not> unat (ucast (- 1 :: u32) :: u64) < unat ?w" by simp_all
  then have "?w \<noteq> - 1" "\<not> ucast (- 1 :: u32) < ?w" by (auto simp: word_less_nat_alt)
  moreover have "get_u64 (put_BlockHeight h @ rest) = Inr (?w, rest)"
    by (simp add: put_BlockHeight_def put_u32_def codec_iff put_u64_def)
  moreover have "(ucast ?w :: u32) = h"
    using u by (simp only: unat_arith_simps(3) unat_ucast_mod) simp
  ultimately show ?thesis by (simp add: get_BlockHeight_def rbind_def)
qed

lemma fromBinaryArray_iff:
  assumes "\<And>bs x rest. get bs = Inr (x, rest) \<longleftrightarrow> valid x \<and> (\<exists>p. put x = Inr p \<and> bs = p @ rest)"
  shows "fromBinaryArray get ba = Some x \<longleftrightarrow> valid x \<and> toBinaryArray put x = Some ba"
proof -
  have "fromBinaryArray get ba = Some x \<longleftrightarrow> get ba = Inr (x, [])"
    by (auto simp: fromBinaryArray_def split: sum.splits)
  then show ?thesis by (auto simp: assms toBinaryArray_def split: sum.splits)
qed

section \<open>Properties\<close>

text \<open>
  C10: The binary form of a transaction is canonical. A byte array is accepted as transaction \<open>tx\<close> exactly
  when \<open>tx\<close> is well-formed (version, field lengths, one signature list per input of the size the input
  asks for, none for a coinbase) and the array is what the writer produces for \<open>tx\<close>; and the writer
  never throws on a well-formed transaction. So reading inverts writing, no two byte arrays are the
  same transaction, trailing bytes are rejected, and the hash of a transaction's bytes identifies it.
\<close>

theorem transaction_binary_canonical:
  "(fromBinaryArray get_Transaction ba = Some tx \<longleftrightarrow>
      valid_Transaction tx \<and> toBinaryArray put_Transaction tx = Some ba) \<and>
   (valid_Transaction tx \<longrightarrow> toBinaryArray put_Transaction tx \<noteq> None)"
  using fromBinaryArray_iff [of get_Transaction valid_Transaction put_Transaction, OF get_Transaction_iff]
    put_Transaction_total [of tx] by (auto simp: toBinaryArray_def)

theorem transaction_binary_canonical_witness:
  "fromBinaryArray get_Transaction [1, 0, 1, 0xff, 7, 0, 0] =
     Some \<lparr>version = 1, unlockTime = 0, inputs = [TxBaseInput \<lparr>bi_blockIndex = 7\<rparr>], outputs = [], extra = [],
       signatures = []\<rparr>"
proof -
  let ?tx = "\<lparr>version = 1, unlockTime = 0, inputs = [TxBaseInput \<lparr>bi_blockIndex = 7\<rparr>], outputs = [], extra = [],
       signatures = []\<rparr> :: Transaction"
  have "valid_Transaction ?tx"
    by (simp add: valid_Transaction_def valid_TransactionPrefix_def valid_vector_def valid_TransactionInput_def
        signaturesNotExpected_def isBaseInput_def CURRENT_TRANSACTION_VERSION_def)
  moreover have "toBinaryArray put_Transaction ?tx = Some [1, 0, 1, 0xff, 7, 0, 0]"
    by (simp add: toBinaryArray_def put_Transaction_def put_TransactionPrefix_def CURRENT_TRANSACTION_VERSION_def
        put_u8_def put_u64_def put_u32_def put_vector_def put_size_def put_string_def put_TransactionInput_def
        put_BaseInput_def put_binary_def inputTag_def getSignaturesCount_def writeVarint.simps word_le_nat_alt)
  ultimately show ?thesis using transaction_binary_canonical [of "[1, 0, 1, 0xff, 7, 0, 0]" ?tx] by blast
qed

text \<open>
  C22: The binary form of a block is canonical in the same way: header with a known major version,
  coinbase transaction and transaction hashes are read back exactly, and nothing else is accepted.
\<close>

theorem block_binary_canonical:
  "(fromBinaryArray get_Block ba = Some b \<longleftrightarrow> valid_Block b \<and> toBinaryArray put_Block b = Some ba) \<and>
   \<not> (valid_Block b \<and> toBinaryArray put_Block b = None)"
  using fromBinaryArray_iff [of get_Block valid_Block put_Block, OF get_Block_iff] put_Block_total [of b]
  by (auto simp: toBinaryArray_def)

end
