(* ===== verification/StringTools.thy ===== *)
theory StringTools
  imports Streams "HOL-Library.Monad_Syntax"
begin

text \<open>
  Text conversions of \<^verbatim>\<open>lib/Common/StringTools.cpp\<close>: hexadecimal, base 64, splitting at a delimiter
  and prefix tests. Strings are byte lists; a \<^verbatim>\<open>char\<close> that is converted to \<^verbatim>\<open>size_t\<close> is sign-extended, as
  it is on the platforms the code targets. Reading past the end of a table is \<^verbatim>\<open>None\<close>.
\<close>

unbundle bit_operations_syntax

section \<open>Hexadecimal\<close>

definition characterValues :: bytes where
  "characterValues =
     replicate 48 0xff @ [0x00, 0x01, 0x02, 0x03, 0x04, 0x05, 0x06, 0x07, 0x08, 0x09] @
     replicate 7 0xff @ [0x0a, 0x0b, 0x0c, 0x0d, 0x0e, 0x0f] @
     replicate 26 0xff @ [0x0a, 0x0b, 0x0c, 0x0d, 0x0e, 0x0f] @ replicate 153 0xff"

definition fromHex_char :: "u8 \<Rightarrow> u8 option" where
  "fromHex_char character =
     (if 0x0f < characterValues ! unat character then None else Some (characterValues ! unat character))"

fun fromHex_loop :: "bytes \<Rightarrow> bytes option" where
  "fromHex_loop (c1 # c2 # text) =
     do {
       value1 \<leftarrow> fromHex_char c1;
       value2 \<leftarrow> fromHex_char c2;
       data \<leftarrow> fromHex_loop text;
       Some ((push_bit 4 value1 OR value2) # data)
     }"
| "fromHex_loop _ = Some []"

definition fromHex :: "bytes \<Rightarrow> bytes option" where
  "fromHex text = (if odd (length text) then None else fromHex_loop text)"

definition fromHex_buffer :: "bytes \<Rightarrow> nat \<Rightarrow> bytes option" where
  "fromHex_buffer text bufferSize =
     (if odd (length text) then None
      else if bufferSize < length text div 2 then None
      else fromHex_loop text)"

definition podFromHex :: "bytes \<Rightarrow> nat \<Rightarrow> bytes option" where
  "podFromHex text sz =
     do { data \<leftarrow> fromHex_buffer text sz; if length data = sz then Some data else None }"

definition hexDigits :: bytes where
  "hexDigits = map of_char ''0123456789abcdef''"

fun toHex :: "bytes \<Rightarrow> bytes" where
  "toHex [] = []"
| "toHex (b # data) = hexDigits ! unat (drop_bit 4 b) # hexDigits ! unat (b AND 15) # toHex data"

section \<open>Splitting and prefixes\<close>

definition extract_str :: "bytes \<Rightarrow> u8 \<Rightarrow> bytes \<times> bytes" where
  "extract_str text delimiter =
     (if delimiter \<in> set text
      then (takeWhile (\<lambda>c. c \<noteq> delimiter) text, tl (dropWhile (\<lambda>c. c \<noteq> delimiter) text))
      else (text, []))"

definition starts_with :: "bytes \<Rightarrow> bytes \<Rightarrow> bool" where
  "starts_with str1 str2 = (if length str1 < length str2 then False else take (length str2) str1 = str2)"

definition ends_with :: "bytes \<Rightarrow> bytes \<Rightarrow> bool" where
  "ends_with str1 str2 =
     (if length str1 < length str2 then False else drop (length str1 - length str2) str1 = str2)"

section \<open>Base 64\<close>

definition base64chars :: bytes where
  "base64chars = map of_char ''ABCDEFGHIJKLMNOPQRSTUVWXYZabcdefghijklmnopqrstuvwxyz0123456789+/''"

definition is_base64 :: "u8 \<Rightarrow> bool" where
  "is_base64 c \<longleftrightarrow>
     (48 \<le> c \<and> c \<le> 57 \<or> 65 \<le> c \<and> c \<le> 90 \<or> 97 \<le> c \<and> c \<le> 122) \<or> c = 43 \<or> c = 47"

definition encodingTable :: "u64 \<Rightarrow> u8 option" where
  "encodingTable i = (if unat i < 64 then Some (base64chars ! unat i) else None)"

fun base64Encode_loop :: "bytes \<Rightarrow> bytes option" where
  "base64Encode_loop [] = Some []"
| "base64Encode_loop [x] =
     (let a = scast x :: u64; b = 0 :: u64
      in do {
        r1 \<leftarrow> encodingTable (drop_bit 2 a);
        r2 \<leftarrow> encodingTable (push_bit 4 (a AND 0x3) OR drop_bit 4 b);
        Some [r1, r2]
      })"
| "base64Encode_loop [x, y] =
     (let a = scast x :: u64; b = scast y :: u64; c = 0 :: u64
      in do {
        r1 \<leftarrow> encodingTable (drop_bit 2 a);
        r2 \<leftarrow> encodingTable (push_bit 4 (a AND 0x3) OR drop_bit 4 b);
        r3 \<leftarrow> encodingTable (push_bit 2 (b AND 0xF) OR drop_bit 6 c);
        Some [r1, r2, r3]
      })"
| "base64Encode_loop (x # y # z # rest) =
     (let a = scast x :: u64; b = scast y :: u64; c = scast z :: u64
      in do {
        r1 \<leftarrow> encodingTable (drop_bit 2 a);
        r2 \<leftarrow> encodingTable (push_bit 4 (a AND 0x3) OR drop_bit 4 b);
        r3 \<leftarrow> encodingTable (push_bit 2 (b AND 0xF) OR drop_bit 6 c);
        r4 \<leftarrow> encodingTable (c AND 0x3F);
        rs \<leftarrow> base64Encode_loop rest;
        Some (r1 # r2 # r3 # r4 # rs)
      })"

definition base64Encode :: "bytes \<Rightarrow> bytes option" where
  "base64Encode s =
     do {
       result \<leftarrow> base64Encode_loop s;
       Some (result @ replicate (4 * ((length s + 2) div 3) - length result) 61)
     }"

fun base64_find :: "nat \<Rightarrow> bytes \<Rightarrow> u8 \<Rightarrow> u8" where
  "base64_find i [] c = - 1"
| "base64_find i (d # ds) c = (if c = d then word_of_nat i else base64_find (Suc i) ds c)"

definition base64_value :: "u8 \<Rightarrow> u8" where
  "base64_value c = base64_find 0 base64chars c"

definition base64_triple :: "u8 \<Rightarrow> u8 \<Rightarrow> u8 \<Rightarrow> u8 \<Rightarrow> bytes" where
  "base64_triple c0 c1 c2 c3 =
     (let v0 = base64_value c0; v1 = base64_value c1; v2 = base64_value c2; v3 = base64_value c3
      in [push_bit 2 v0 + drop_bit 4 (v1 AND 0x30),
          push_bit 4 (v1 AND 0xf) + drop_bit 2 (v2 AND 0x3c),
          push_bit 6 (v2 AND 0x3) + v3])"

fun base64Decode_loop :: "bytes \<Rightarrow> bytes" where
  "base64Decode_loop (c0 # c1 # c2 # c3 # rest) = base64_triple c0 c1 c2 c3 @ base64Decode_loop rest"
| "base64Decode_loop [c0, c1, c2] = take 2 (base64_triple c0 c1 c2 0)"
| "base64Decode_loop [c0, c1] = take 1 (base64_triple c0 c1 0 0)"
| "base64Decode_loop [c0] = []"
| "base64Decode_loop [] = []"

definition base64Decode :: "bytes \<Rightarrow> bytes" where
  "base64Decode s = base64Decode_loop (takeWhile (\<lambda>c. c \<noteq> 61 \<and> is_base64 c) s)"

section \<open>Hexadecimal round trip\<close>

definition lower :: "u8 \<Rightarrow> u8" where
  "lower c = (if 65 \<le> c \<and> c \<le> 90 then c + 32 else c)"

lemma hexDigits_eq [code]:
  "hexDigits = [48, 49, 50, 51, 52, 53, 54, 55, 56, 57, 97, 98, 99, 100, 101, 102]"
  by (simp add: hexDigits_def)

lemma characterValues_table:
  "list_all (\<lambda>(n, v). let l = (if 65 \<le> n \<and> n \<le> 90 then n + 32 else n) in
     if 15 < uint v then l \<notin> set (map uint hexDigits) else uint (hexDigits ! unat v) = l)
   (zip [0..255 :: int] characterValues)"
  by code_simp

lemma uint_lower: "uint (lower c) = (if 65 \<le> uint c \<and> uint c \<le> 90 then uint c + 32 else uint c)"
proof -
  have "uint c \<le> 90 \<Longrightarrow> uint (c + 32) = uint c + 32"
    by (simp add: uint_plus_if')
  then show ?thesis by (simp add: lower_def word_le_def)
qed

lemma characterValues_entry:
  "if 15 < characterValues ! unat c then lower c \<notin> set hexDigits
   else hexDigits ! unat (characterValues ! unat c) = lower c"
proof -
  let ?P = "\<lambda>(n, v). let l = (if 65 \<le> n \<and> n \<le> 90 then n + 32 else n) in
     if 15 < uint v then l \<notin> set (map uint hexDigits) else uint (hexDigits ! unat v) = l"
  define us :: "int list" where "us = [0..255]"
  have len: "length characterValues = 256" by (simp add: characterValues_def)
  have "unat c \<le> 255" using unat_byte_bound [of c] by linarith
  then have "us ! unat c = 0 + int (unat c)" unfolding us_def by (intro nth_upto) linarith
  then have us: "us ! unat c = uint c" by simp
  have "length us = 256" unfolding us_def length_upto by simp
  with len us have "unat c < length (zip us characterValues)"
    "zip us characterValues ! unat c = (uint c, characterValues ! unat c)" by simp_all
  moreover have "list_all ?P (zip us characterValues)" unfolding us_def by (rule characterValues_table)
  ultimately have "?P (uint c, characterValues ! unat c)"
    unfolding list_all_length by (metis (no_types, lifting))
  then have "if 15 < uint (characterValues ! unat c) then uint (lower c) \<notin> uint ` set hexDigits
     else uint (hexDigits ! unat (characterValues ! unat c)) = uint (lower c)"
    unfolding Let_def case_prod_conv uint_lower set_map .
  then show ?thesis by (auto simp: word_less_def word_uint_eq_iff split: if_splits)
qed

lemma distinct_hexDigits: "distinct hexDigits"
  by (simp add: hexDigits_eq)

lemma length_hexDigits: "length hexDigits = 16"
  by (simp add: hexDigits_eq)

lemma fromHex_char_iff: "fromHex_char c = Some v \<longleftrightarrow> v \<le> 15 \<and> hexDigits ! unat v = lower c"
proof (cases "15 < characterValues ! unat c")
  case True
  have "hexDigits ! unat v \<in> set hexDigits" if "v \<le> 15"
    using that length_hexDigits by (intro nth_mem) (simp add: word_le_nat_alt)
  with True characterValues_entry [of c] show ?thesis by (auto simp: fromHex_char_def)
next
  case False
  let ?w = "characterValues ! unat c"
  have "hexDigits ! unat ?w = lower c" using False characterValues_entry [of c] by simp
  moreover have "hexDigits ! unat v = hexDigits ! unat ?w \<longleftrightarrow> v = ?w" if "v \<le> 15"
    using that False nth_eq_iff_index_eq [OF distinct_hexDigits, of "unat v" "unat ?w"]
    by (simp add: length_hexDigits word_le_nat_alt word_less_nat_alt unat_arith_simps(3))
  ultimately show ?thesis using False by (auto simp: fromHex_char_def not_less)
qed

lemma nibbles:
  fixes b :: u8
  assumes "v \<le> 15" and "w \<le> 15"
  shows "b = push_bit 4 v OR w \<longleftrightarrow> v = drop_bit 4 b \<and> w = b AND 15"
proof -
  have v: "unat v < 16" and w: "unat w < 16" using assms by (simp_all add: word_le_nat_alt)
  have p: "unat (push_bit 4 v) = unat v * 16" using v by (simp add: unat_push_bit)
  have "unat (w OR push_bit 4 v) = unat w + unat (push_bit 4 v)"
    by (rule unat_or_disjoint [of _ 4]) (use w p in simp_all)
  then have "unat (push_bit 4 v OR w) = unat v * 16 + unat w" by (simp add: or.commute p)
  moreover have "unat (b AND 15) = unat b mod 16"
    using unat_and_mask [of b 4] by (simp add: mask_eq_exp_minus_1)
  moreover have "unat (drop_bit 4 b) = unat b div 16" by (simp add: unat_drop_bit_div)
  ultimately show ?thesis
    using v w by (auto simp: unat_arith_simps(3))
qed

lemma nibble_bounds: "b AND 15 \<le> 15" "drop_bit 4 b \<le> 15" for b :: u8
proof -
  have "unat b div 16 < 16" using unat_byte_bound [of b] by (intro less_mult_imp_div_less) simp
  then show "b AND 15 \<le> 15" "drop_bit 4 b \<le> 15"
    using unat_and_mask [of b 4] by (simp_all add: mask_eq_exp_minus_1 word_le_nat_alt unat_drop_bit_div)
qed

lemma fromHex_loop_iff:
  "even (length t) \<Longrightarrow> fromHex_loop t = Some d \<longleftrightarrow> toHex d = map lower t"
proof (induction t arbitrary: d rule: fromHex_loop.induct)
  case (1 c1 c2 rest)
  show ?case
  proof (cases d)
    case Nil
    then show ?thesis by (auto simp: bind_eq_Some_conv)
  next
    case (Cons b ds)
    note low = nibble_bounds [of b]
    have "fromHex_loop (c1 # c2 # rest) = Some d \<longleftrightarrow>
        (\<exists>v w. fromHex_char c1 = Some v \<and> fromHex_char c2 = Some w \<and> fromHex_loop rest = Some ds \<and> b = push_bit 4 v OR w)"
      using Cons by (auto simp: bind_eq_Some_conv)
    also have "\<dots> \<longleftrightarrow> fromHex_char c1 = Some (drop_bit 4 b) \<and> fromHex_char c2 = Some (b AND 15)
        \<and> fromHex_loop rest = Some ds" (is "?l \<longleftrightarrow> ?r")
    proof
      assume ?l
      then obtain v w where vw: "fromHex_char c1 = Some v" "fromHex_char c2 = Some w"
        "fromHex_loop rest = Some ds" "b = push_bit 4 v OR w" by blast
      then have "v \<le> 15" "w \<le> 15" by (simp_all add: fromHex_char_iff)
      from nibbles [OF this, of b] vw show ?r by simp
    next
      assume ?r
      with nibbles [OF low(2,1), of b] show ?l by blast
    qed
    also have "\<dots> \<longleftrightarrow> toHex d = map lower (c1 # c2 # rest)"
      using Cons "1.IH" [of "drop_bit 4 b" "b AND 15" ds] "1.prems" low by (auto simp: fromHex_char_iff)
    finally show ?thesis .
  qed
next
  case "2_1"
  then show ?case by (cases d) auto
next
  case "2_2"
  then show ?case by simp
qed

lemma length_toHex: "length (toHex d) = 2 * length d"
  by (induction d) simp_all

lemma fromHex_iff: "fromHex t = Some d \<longleftrightarrow> toHex d = map lower t"
proof (cases "even (length t)")
  case True
  then show ?thesis by (simp add: fromHex_def fromHex_loop_iff)
next
  case False
  then have "toHex d \<noteq> map lower t" using length_toHex [of d] by (metis dvd_triv_left length_map)
  with False show ?thesis by (simp add: fromHex_def)
qed

lemma lower_hexDigits: "c \<in> set hexDigits \<Longrightarrow> lower c = c"
  by (auto simp: hexDigits_eq lower_def)

lemma map_lower_toHex: "map lower (toHex d) = toHex d"
proof (induction d)
  case (Cons b d)
  have "hexDigits ! unat (drop_bit 4 b) \<in> set hexDigits" "hexDigits ! unat (b AND 15) \<in> set hexDigits"
    using nibble_bounds [of b] by (auto simp: length_hexDigits word_le_nat_alt intro!: nth_mem)
  with Cons show ?case by (simp add: lower_hexDigits)
qed simp

lemma fromHex_toHex: "fromHex (toHex d) = Some d"
  by (simp add: fromHex_iff map_lower_toHex)

lemma podFromHex_iff: "podFromHex t n = Some d \<longleftrightarrow> length d = n \<and> toHex d = map lower t"
proof -
  have "toHex d = map lower t \<Longrightarrow> length t = 2 * length d"
    using length_toHex [of d] by (metis length_map)
  then show ?thesis
    using fromHex_iff [of t d] by (auto simp: podFromHex_def fromHex_buffer_def fromHex_def bind_eq_Some_conv)
qed

section \<open>Base 64 round trip\<close>

lemma base64chars_eq [code]:
  "base64chars = [65, 66, 67, 68, 69, 70, 71, 72, 73, 74, 75, 76, 77, 78, 79, 80, 81, 82, 83, 84, 85, 86, 87, 88, 89, 90,
    97, 98, 99, 100, 101, 102, 103, 104, 105, 106, 107, 108, 109, 110, 111, 112, 113, 114, 115, 116, 117, 118, 119, 120,
    121, 122, 48, 49, 50, 51, 52, 53, 54, 55, 56, 57, 43, 47]"
  by (simp add: base64chars_def)

lemma base64_value_table: "list_all (\<lambda>n. unat (base64_value (base64chars ! n)) = n) [0..<64]"
  by code_simp

lemma base64chars_accepted: "list_all (\<lambda>c. c \<noteq> 61 \<and> is_base64 c) base64chars"
  by code_simp

lemma length_base64chars: "length base64chars = 64"
  by (simp add: base64chars_eq)

lemma base64chars_nth:
  assumes "n < 64"
  shows "unat (base64_value (base64chars ! n)) = n" "base64chars ! n \<noteq> 61" "is_base64 (base64chars ! n)"
proof -
  have "base64chars ! n \<in> set base64chars" using assms by (intro nth_mem) (simp add: length_base64chars)
  with base64chars_accepted show "base64chars ! n \<noteq> 61" "is_base64 (base64chars ! n)"
    unfolding list_all_iff by blast+
  show "unat (base64_value (base64chars ! n)) = n"
    using list_all_upt [OF base64_value_table assms] .
qed

lemma unat_scast_byte:
  "unat (scast (x :: u8) :: u64) = (if unat x < 128 then unat x else 2 ^ 64 - 256 + unat x)"
proof -
  have b: "- 128 \<le> sint x" "sint x < 128" using sint_ge [of x] sint_lt [of x] by simp_all
  have u: "uint x = sint x mod 256" by (simp add: uint_sint take_bit_eq_mod)
  have "(scast x :: u64) = word_of_int (sint x)" by simp
  then have s: "uint (scast x :: u64) = sint x mod 2 ^ 64" by (simp only: uint_word_of_int) simp
  show ?thesis
  proof (cases "0 \<le> sint x")
    case True
    with b u s have "uint x = sint x" "uint (scast x :: u64) = sint x" by simp_all
    with b have "int (unat (scast x :: u64)) = int (unat x)" "int (unat x) < 128" by simp_all
    then have "unat (scast x :: u64) = unat x" "unat x < 128" by linarith+
    then show ?thesis by simp
  next
    case False
    have "(sint x + 256) mod 256 = sint x + 256" using False b by (intro mod_pos_pos_trivial) simp_all
    then have "uint x = sint x + 256" unfolding u by (simp only: mod_add_self2)
    moreover have "(sint x + 2 ^ 64) mod 2 ^ 64 = sint x + 2 ^ 64" using False b by (intro mod_pos_pos_trivial) simp_all
    then have "uint (scast x :: u64) = sint x + 2 ^ 64" unfolding s by (simp only: mod_add_self2)
    ultimately have "int (unat (scast x :: u64)) = int (unat x) + (2 ^ 64 - 256)" "128 \<le> int (unat x)"
      using b by simp_all
    then have "int (unat (scast x :: u64)) = int (2 ^ 64 - 256 + unat x)" "\<not> unat x < 128"
      by (simp, linarith)
    then show ?thesis by (simp only: of_nat_eq_iff if_False)
  qed
qed

lemma encodingTable_None: "encodingTable i = None \<longleftrightarrow> drop_bit 6 i \<noteq> 0"
proof -
  have "drop_bit 6 i = 0 \<longleftrightarrow> unat i div 64 = 0"
    using unat_drop_bit_div [of 6 i] by (simp only: unat_eq_zero [symmetric]) simp
  then show ?thesis by (auto simp: encodingTable_def)
qed

lemma encodingTable_or_None: "drop_bit 6 j \<noteq> 0 \<Longrightarrow> encodingTable (i OR j) = None"
  by (simp add: encodingTable_None or_eq_0_iff)

lemma drop_bit_scast_high: "128 \<le> x \<Longrightarrow> k \<le> 12 \<Longrightarrow> drop_bit k (scast (x :: u8) :: u64) \<noteq> 0"
proof -
  assume "128 \<le> x" "k \<le> 12"
  then have "unat (scast x :: u64) = 2 ^ 64 - 256 + unat x" by (simp add: unat_scast_byte word_le_nat_alt)
  moreover have "(2 :: nat) ^ k \<le> 2 ^ 12" using \<open>k \<le> 12\<close> by (intro power_increasing) simp_all
  ultimately have "2 ^ k \<le> unat (scast x :: u64)" by simp
  then have "0 < unat (drop_bit k (scast x :: u64))" unfolding unat_drop_bit_div by (simp add: div_greater_zero_iff)
  then show ?thesis by auto
qed

lemma encodingTable_high:
  assumes "128 \<le> (x :: u8)"
  shows "encodingTable (drop_bit 2 (scast x)) = None"
    and "encodingTable (i OR drop_bit 4 (scast x)) = None"
    and "encodingTable (i OR drop_bit 6 (scast x)) = None"
  using drop_bit_scast_high [OF assms] by (simp_all add: encodingTable_None or_eq_0_iff)

lemma base64Encode_loop_None: "\<not> list_all (\<lambda>b. b < 128) s \<Longrightarrow> base64Encode_loop s = None"
proof (induction s rule: length_induct)
  case (1 s)
  show ?case
  proof (cases s rule: base64Encode_loop.cases)
    case 1
    then show ?thesis using "1.prems" by simp
  next
    case (2 x)
    then show ?thesis using "1.prems" by (simp add: encodingTable_high not_less Let_def)
  next
    case (3 x y)
    then show ?thesis using "1.prems" by (auto simp: encodingTable_high not_less Let_def)
  next
    case (4 x y z rest)
    consider "128 \<le> x" | "128 \<le> y" | "128 \<le> z" | "\<not> list_all (\<lambda>b. b < 128) rest"
      using "1.prems" 4 by (auto simp: not_less)
    then show ?thesis
    proof cases
      case 4
      with "1.IH" \<open>s = x # y # z # rest\<close> have "base64Encode_loop rest = None" by simp
      then show ?thesis using \<open>s = x # y # z # rest\<close> by (simp add: Let_def)
    qed (simp_all add: \<open>s = x # y # z # rest\<close> encodingTable_high Let_def)
  qed
qed

section \<open>Sextets\<close>

lemma sextets:
  fixes a b c :: nat
  assumes "a < 128" and "b < 128" and "c < 128"
  shows "a div 4 < 64" and "a mod 4 * 16 + b div 16 < 64" and "b mod 16 * 4 + c div 64 < 64"
  using assms by auto

lemma unat_and_3: "unat (a AND 3 :: 'a::len word) = unat a mod 4"
  and unat_and_15: "unat (a AND 15 :: 'a::len word) = unat a mod 16"
  and unat_and_63: "unat (a AND 63 :: 'a::len word) = unat a mod 64"
  using unat_and_mask [of a 2] unat_and_mask [of a 4] unat_and_mask [of a 6] by (simp_all add: mask_eq_exp_minus_1)

lemma unat_or_shift:
  fixes p q :: u64
  assumes "unat p * 2 ^ k < 2 ^ 64" and "unat q < 2 ^ k"
  shows "unat (push_bit k p OR q) = unat p * 2 ^ k + unat q"
proof -
  have p: "unat (push_bit k p) = unat p * 2 ^ k" using assms(1) by (simp add: unat_push_bit)
  have "unat (q OR push_bit k p) = unat q + unat (push_bit k p)"
    by (rule unat_or_disjoint [OF assms(2)]) (simp add: p)
  then show ?thesis by (simp add: or.commute p)
qed

lemma encodingTable_low:
  fixes x y z :: u8
  assumes "x < 128" and "y < 128" and "z < 128"
  shows "encodingTable (drop_bit 2 (scast x)) = Some (base64chars ! (unat x div 4))"
    and "encodingTable (push_bit 4 (scast x AND 3) OR drop_bit 4 (scast y))
      = Some (base64chars ! (unat x mod 4 * 16 + unat y div 16))"
    and "encodingTable (push_bit 4 (scast x AND 3) OR drop_bit 4 0) = Some (base64chars ! (unat x mod 4 * 16))"
    and "encodingTable (push_bit 2 (scast y AND 0xF) OR drop_bit 6 (scast z))
      = Some (base64chars ! (unat y mod 16 * 4 + unat z div 64))"
    and "encodingTable (push_bit 2 (scast y AND 0xF) OR drop_bit 6 0) = Some (base64chars ! (unat y mod 16 * 4))"
    and "encodingTable (scast z AND 0x3F) = Some (base64chars ! (unat z mod 64))"
proof -
  have u: "unat (scast x :: u64) = unat x" "unat (scast y :: u64) = unat y" "unat (scast z :: u64) = unat z"
    and lt: "unat x < 128" "unat y < 128" "unat z < 128"
    using assms by (simp_all add: unat_scast_byte word_less_nat_alt)
  have tab: "encodingTable i = Some (base64chars ! unat i)" if "unat i < 64" for i
    using that by (simp add: encodingTable_def)
  note s = sextets [OF lt]
  have "unat (drop_bit 2 (scast x :: u64)) = unat x div 4" by (simp add: unat_drop_bit_div u)
  with s(1) tab show "encodingTable (drop_bit 2 (scast x)) = Some (base64chars ! (unat x div 4))" by simp
  have d4: "unat (drop_bit 4 (scast y :: u64)) = unat y div 16" and d6: "unat (drop_bit 6 (scast z :: u64)) = unat z div 64"
    by (simp_all add: unat_drop_bit_div u)
  have i2: "unat (push_bit 4 (scast x AND 3) OR q :: u64) = unat x mod 4 * 16 + unat q" if "unat q < 16" for q
    using unat_or_shift [of "scast x AND 3" 4 q] that by (simp add: unat_and_3 u)
  have i3: "unat (push_bit 2 (scast y AND 0xF) OR q :: u64) = unat y mod 16 * 4 + unat q" if "unat q < 4" for q
    using unat_or_shift [of "scast y AND 0xF" 2 q] that by (simp add: unat_and_15 u)
  show "encodingTable (push_bit 4 (scast x AND 3) OR drop_bit 4 (scast y))
      = Some (base64chars ! (unat x mod 4 * 16 + unat y div 16))"
    using i2 [of "drop_bit 4 (scast y)"] d4 lt s(2) tab [of "push_bit 4 (scast x AND 3) OR drop_bit 4 (scast y)"] by simp
  show "encodingTable (push_bit 4 (scast x AND 3) OR drop_bit 4 0) = Some (base64chars ! (unat x mod 4 * 16))"
    using i2 [of 0] s(2) tab [of "push_bit 4 (scast x AND 3) OR 0"] by simp
  show "encodingTable (push_bit 2 (scast y AND 0xF) OR drop_bit 6 (scast z))
      = Some (base64chars ! (unat y mod 16 * 4 + unat z div 64))"
    using i3 [of "drop_bit 6 (scast z)"] d6 lt s(3) tab [of "push_bit 2 (scast y AND 0xF) OR drop_bit 6 (scast z)"] by simp
  show "encodingTable (push_bit 2 (scast y AND 0xF) OR drop_bit 6 0) = Some (base64chars ! (unat y mod 16 * 4))"
    using i3 [of 0] s(3) tab [of "push_bit 2 (scast y AND 0xF) OR 0"] by simp
  show "encodingTable (scast z AND 0x3F) = Some (base64chars ! (unat z mod 64))"
    using tab [of "scast z AND 0x3F"] by (simp add: unat_and_63 u)
qed

lemma decode_sextets:
  fixes v0 v1 v2 v3 :: u8
  assumes "unat v0 < 64" and "unat v1 < 64" and "unat v2 < 64" and "unat v3 < 64"
  shows "unat (push_bit 2 v0 + drop_bit 4 (v1 AND 0x30)) = unat v0 * 4 + unat v1 div 16"
    and "unat (push_bit 4 (v1 AND 0xf) + drop_bit 2 (v2 AND 0x3c)) = unat v1 mod 16 * 16 + unat v2 div 4"
    and "unat (push_bit 6 (v2 AND 0x3) + v3) = unat v2 mod 4 * 64 + unat v3"
proof -
  have a: "drop_bit 4 (v1 AND 0x30) = drop_bit 4 v1 AND 3" "drop_bit 2 (v2 AND 0x3c) = drop_bit 2 v2 AND 15"
    by (simp_all add: drop_bit_and)
  have "unat (drop_bit 4 (v1 AND 0x30)) = unat v1 div 16" "unat (drop_bit 2 (v2 AND 0x3c)) = unat v2 div 4"
    unfolding a using assms by (simp_all add: unat_and_3 unat_and_15 unat_drop_bit_div)
  moreover have "unat (push_bit 2 v0) = unat v0 * 4" "unat (push_bit 4 (v1 AND 0xf)) = unat v1 mod 16 * 16"
    "unat (push_bit 6 (v2 AND 0x3)) = unat v2 mod 4 * 64"
    using assms by (simp_all only: unat_push_bit unat_and_3 unat_and_15) simp_all
  ultimately show "unat (push_bit 2 v0 + drop_bit 4 (v1 AND 0x30)) = unat v0 * 4 + unat v1 div 16"
    "unat (push_bit 4 (v1 AND 0xf) + drop_bit 2 (v2 AND 0x3c)) = unat v1 mod 16 * 16 + unat v2 div 4"
    "unat (push_bit 6 (v2 AND 0x3) + v3) = unat v2 mod 4 * 64 + unat v3"
    using assms by (simp_all add: unat_add_no_wrap)
qed

lemma base64_triple_values:
  assumes "n0 < 64" and "n1 < 64" and "unat w0 = n0 * 4 + n1 div 16"
  shows "take 1 (base64_triple (base64chars ! n0) (base64chars ! n1) c2 c3) = [w0]"
    and "n2 < 64 \<Longrightarrow> unat w1 = n1 mod 16 * 16 + n2 div 4 \<Longrightarrow>
      take 2 (base64_triple (base64chars ! n0) (base64chars ! n1) (base64chars ! n2) c3) = [w0, w1]"
    and "n2 < 64 \<Longrightarrow> n3 < 64 \<Longrightarrow> unat w1 = n1 mod 16 * 16 + n2 div 4 \<Longrightarrow> unat w2 = n2 mod 4 * 64 + n3 \<Longrightarrow>
      base64_triple (base64chars ! n0) (base64chars ! n1) (base64chars ! n2) (base64chars ! n3) = [w0, w1, w2]"
proof -
  let ?v = "\<lambda>n. base64_value (base64chars ! n)"
  have v: "n < 64 \<Longrightarrow> unat (?v n) = n" for n by (rule base64chars_nth(1))
  have e0: "push_bit 2 (?v n0) + drop_bit 4 (?v n1 AND 0x30) = w0"
    using decode_sextets(1) [of "?v n0" "?v n1" "?v n0" "?v n0"] assms v
    by (simp only: unat_arith_simps(3))
  then show "take 1 (base64_triple (base64chars ! n0) (base64chars ! n1) c2 c3) = [w0]"
    unfolding base64_triple_def Let_def by simp
  have e1: "push_bit 4 (?v n1 AND 0xf) + drop_bit 2 (?v n2 AND 0x3c) = w1"
    if "n2 < 64" "unat w1 = n1 mod 16 * 16 + n2 div 4"
    using decode_sextets(2) [of "?v n0" "?v n1" "?v n2" "?v n0"] assms v that
    by (simp only: unat_arith_simps(3))
  with e0 show "n2 < 64 \<Longrightarrow> unat w1 = n1 mod 16 * 16 + n2 div 4 \<Longrightarrow>
      take 2 (base64_triple (base64chars ! n0) (base64chars ! n1) (base64chars ! n2) c3) = [w0, w1]"
    unfolding base64_triple_def Let_def by simp
  have e2: "push_bit 6 (?v n2 AND 0x3) + ?v n3 = w2" if "n2 < 64" "n3 < 64" "unat w2 = n2 mod 4 * 64 + n3"
    using decode_sextets(3) [of "?v n0" "?v n1" "?v n2" "?v n3"] assms v that
    by (simp only: unat_arith_simps(3))
  with e0 e1 show "n2 < 64 \<Longrightarrow> n3 < 64 \<Longrightarrow> unat w1 = n1 mod 16 * 16 + n2 div 4 \<Longrightarrow> unat w2 = n2 mod 4 * 64 + n3 \<Longrightarrow>
      base64_triple (base64chars ! n0) (base64chars ! n1) (base64chars ! n2) (base64chars ! n3) = [w0, w1, w2]"
    unfolding base64_triple_def Let_def by simp
qed

lemma bytes_of_sextets:
  fixes a b c :: nat
  assumes "a < 128" and "b < 128" and "c < 128"
  shows "a = a div 4 * 4 + (a mod 4 * 16) div 16" and "a = a div 4 * 4 + (a mod 4 * 16 + b div 16) div 16"
    and "b = (a mod 4 * 16 + b div 16) mod 16 * 16 + (b mod 16 * 4) div 4"
    and "b = (a mod 4 * 16 + b div 16) mod 16 * 16 + (b mod 16 * 4 + c div 64) div 4"
    and "c = (b mod 16 * 4 + c div 64) mod 4 * 64 + c mod 64"
proof -
  have "b div 16 < 16" "c div 64 < 4" using assms by auto
  then have "(a mod 4 * 16 + b div 16) div 16 = a mod 4" "(a mod 4 * 16 + b div 16) mod 16 = b div 16"
    "(b mod 16 * 4 + c div 64) div 4 = b mod 16" "(b mod 16 * 4 + c div 64) mod 4 = c div 64" by auto
  then show "a = a div 4 * 4 + (a mod 4 * 16) div 16" "a = a div 4 * 4 + (a mod 4 * 16 + b div 16) div 16"
    "b = (a mod 4 * 16 + b div 16) mod 16 * 16 + (b mod 16 * 4) div 4"
    "b = (a mod 4 * 16 + b div 16) mod 16 * 16 + (b mod 16 * 4 + c div 64) div 4"
    "c = (b mod 16 * 4 + c div 64) mod 4 * 64 + c mod 64" by simp_all
qed

lemma base64_loops:
  "list_all (\<lambda>b. b < 128) s \<Longrightarrow> \<exists>e. base64Encode_loop s = Some e \<and> base64Decode_loop e = s
     \<and> list_all (\<lambda>c. c \<noteq> 61 \<and> is_base64 c) e"
proof (induction s rule: length_induct)
  case (1 s)
  show ?case
  proof (cases s rule: base64Encode_loop.cases)
    case 1
    then show ?thesis by simp
  next
    case (2 x)
    then have x: "x < 128" using "1.prems" by simp
    then have u: "unat x < 128" by (simp add: word_less_nat_alt)
    note s = sextets [OF u u u]
    have "unat x div 4 < 64" "unat x mod 4 * 16 < 64" using s by auto
    then show ?thesis
      using base64_triple_values(1) [OF _ _ bytes_of_sextets(1) [OF u u u]] encodingTable_low(1,3) [OF x x x] 2
      by (simp add: Let_def base64chars_nth del: drop_bit_0)
  next
    case (3 x y)
    then have x: "x < 128" and y: "y < 128" using "1.prems" by simp_all
    then have u: "unat x < 128" "unat y < 128" by (simp_all add: word_less_nat_alt)
    note s = sextets [OF u u(2)] and b = bytes_of_sextets [OF u u(2)]
    have "unat y mod 16 * 4 < 64" using s by auto
    with base64_triple_values(2) [OF s(1,2) b(2) this b(3)] show ?thesis
      using encodingTable_low(1,2,5) [OF x y y] 3 s by (simp add: Let_def base64chars_nth)
  next
    case (4 x y z rest)
    then have x: "x < 128" and y: "y < 128" and z: "z < 128" and r: "list_all (\<lambda>b. b < 128) rest"
      using "1.prems" by simp_all
    then have u: "unat x < 128" "unat y < 128" "unat z < 128" by (simp_all add: word_less_nat_alt)
    note s = sextets [OF u] and b = bytes_of_sextets [OF u]
    have m: "unat z mod 64 < 64" by simp
    obtain e where e: "base64Encode_loop rest = Some e" "base64Decode_loop e = rest"
      "list_all (\<lambda>c. c \<noteq> 61 \<and> is_base64 c) e"
      using "1.IH" r 4 by force
    show ?thesis
      using base64_triple_values(3) [OF s(1,2) b(2) s(3) m b(4,5)] encodingTable_low(1,2,4,6) [OF x y z] 4 s m e
      by (simp add: Let_def base64chars_nth)
  qed
qed

lemma length_base64Encode_loop:
  "base64Encode_loop s = Some e \<Longrightarrow> length e \<le> 4 * ((length s + 2) div 3)"
proof (induction s arbitrary: e rule: length_induct)
  case (1 s)
  show ?case
  proof (cases s rule: base64Encode_loop.cases)
    case (4 x y z rest)
    with "1.prems" obtain e' where "base64Encode_loop rest = Some e'" "length e = 4 + length e'"
      by (auto simp: Let_def bind_eq_Some_conv)
    moreover from this "1.IH" 4 have "length e' \<le> 4 * ((length rest + 2) div 3)" by simp
    moreover have "(length s + 2) div 3 = (length rest + 2) div 3 + 1"
      using 4 div_add_self2 [of 3 "length rest + 2"] by simp
    ultimately show ?thesis by simp
  qed (use "1.prems" in \<open>auto simp: Let_def bind_eq_Some_conv\<close>)
qed

lemma base64Decode_base64Encode:
  "case base64Encode s of
     None \<Rightarrow> \<not> list_all (\<lambda>b. b < 128) s
   | Some e \<Rightarrow> list_all (\<lambda>b. b < 128) s \<and> base64Decode e = s \<and> length e = 4 * ((length s + 2) div 3)"
proof (cases "list_all (\<lambda>b. b < 128) s")
  case True
  then obtain e where e: "base64Encode_loop s = Some e" "base64Decode_loop e = s"
    "list_all (\<lambda>c. c \<noteq> 61 \<and> is_base64 c) e" using base64_loops by blast
  have "takeWhile (\<lambda>c. c \<noteq> 61 \<and> is_base64 c) (e @ replicate k 61) = e" for k
    using e(3) by (simp add: takeWhile_append2 list_all_iff)
  with e True length_base64Encode_loop [OF e(1)] show ?thesis
    by (simp add: base64Encode_def base64Decode_def)
next
  case False
  then show ?thesis by (simp add: base64Encode_def base64Encode_loop_None)
qed

section \<open>Properties\<close>

text \<open>
  C28: Hexadecimal text is read exactly as it is written, in either case: a text decodes to \<open>d\<close> precisely
  when its lower-case form is the hexadecimal form of \<open>d\<close>. Odd lengths and foreign characters are
  rejected, and a fixed-size read (used for keys, hashes and payment ids) moreover checks the size.
\<close>

theorem hex_exact:
  "(fromHex t = Some d \<longleftrightarrow> toHex d = map lower t) \<and> fromHex (toHex d) = Some d \<and>
   (podFromHex t n = Some d \<longleftrightarrow> length d = n \<and> toHex d = map lower t)"
  by (simp add: fromHex_iff map_lower_toHex podFromHex_iff)

text \<open>
  Base 64 of 7-bit text decodes to the text and has the padded length; but \<^verbatim>\<open>base64Encode\<close> indexes its
  table out of range as soon as one byte is 0x80 or more, because \<^verbatim>\<open>char\<close> is sign-extended to \<^verbatim>\<open>size_t\<close>.
\<close>

theorem base64_ascii_exact:
  "case base64Encode s of
     None \<Rightarrow> \<not> list_all (\<lambda>b. b < 128) s
   | Some e \<Rightarrow> list_all (\<lambda>b. b < 128) s \<and> base64Decode e = s \<and> length e = 4 * ((length s + 2) div 3)"
  by (rule base64Decode_base64Encode)

end
