(* ===== verification/TreeHash.thy ===== *)
theory TreeHash
  imports Keccak
begin

text \<open>
  Merkle trees of transaction hashes, \<^verbatim>\<open>lib/crypto/tree-hash.c\<close>. An array of hashes is a list. The
  in-place pairing loops read the entries \<open>2j\<close> and \<open>2j + 1\<close> and write entry \<open>j\<close>, so they are the
  function \<open>pair_hashes\<close>. A failed \<^verbatim>\<open>assert(count > 0)\<close> is \<^verbatim>\<open>None\<close>. The tree over \<open>n\<close> leaves is complete down to
  level \<open>2 ^ d \<le> n < 2 ^ (d + 1)\<close>; \<open>base_level\<close> names that level and both the root and the branch of the
  first leaf are computed from it.
\<close>

unbundle bit_operations_syntax

section \<open>Definitions\<close>

definition hash2 :: "hash \<Rightarrow> hash \<Rightarrow> hash" where
  "hash2 a b = cn_fast_hash (a @ b)"

fun pair_hashes :: "hash list \<Rightarrow> hash list" where
  "pair_hashes (a # b # hs) = hash2 a b # pair_hashes hs"
| "pair_hashes _ = []"

definition tree_cnt :: "nat \<Rightarrow> nat" where
  "tree_cnt count =
     (let cnt = word_of_nat (count - 1) :: u64;
          cnt = cnt OR drop_bit 1 cnt; cnt = cnt OR drop_bit 2 cnt; cnt = cnt OR drop_bit 4 cnt;
          cnt = cnt OR drop_bit 8 cnt; cnt = cnt OR drop_bit 16 cnt; cnt = cnt OR drop_bit 32 cnt
      in unat (cnt AND NOT (drop_bit 1 cnt)))"

function tree_hash_loop :: "nat \<Rightarrow> hash list \<Rightarrow> hash" where
  "tree_hash_loop cnt ints =
     (if 2 < cnt then tree_hash_loop (cnt div 2) (pair_hashes ints) else hash2 (ints ! 0) (ints ! 1))"
  by pat_completeness auto
termination
  by (relation "measure (\<lambda>(cnt, ints). cnt)") auto

declare tree_hash_loop.simps [simp del]

definition tree_hash :: "hash list \<Rightarrow> hash option" where
  "tree_hash hashes =
     (let count = length hashes
      in if count = 0 then None
         else if count = 1 then Some (hashes ! 0)
         else if count = 2 then Some (hash2 (hashes ! 0) (hashes ! 1))
         else
           (let cnt = tree_cnt count;
                ints = take (2 * cnt - count) hashes @ pair_hashes (drop (2 * cnt - count) hashes)
            in Some (tree_hash_loop cnt ints)))"

definition tree_depth :: "nat \<Rightarrow> nat" where
  "tree_depth count =
     snd (fold (\<lambda>i (count, depth). if 0 < count div 2 ^ i then (count div 2 ^ i, depth + i) else (count, depth))
       [32, 16, 8, 4, 2, 1] (count, 0))"

definition tree_branch_cnt :: "nat \<Rightarrow> nat \<times> nat" where
  "tree_branch_cnt count =
     fold (\<lambda>i (cnt, depth). if cnt * 2 ^ i \<le> count then (cnt * 2 ^ i, depth + i) else (cnt, depth))
       [32, 16, 8, 4, 2, 1] (1, 0)"

fun tree_branch_loop :: "nat \<Rightarrow> hash list \<Rightarrow> hash list" where
  "tree_branch_loop 0 ints = []"
| "tree_branch_loop (Suc depth) ints = tree_branch_loop depth (pair_hashes (tl ints)) @ [ints ! 0]"

definition tree_branch :: "hash list \<Rightarrow> hash list option" where
  "tree_branch hashes =
     (let count = length hashes; (cnt, depth) = tree_branch_cnt count
      in if count = 0 then None
         else
           (let ints = take (2 * cnt - count - 1) (drop 1 hashes) @ pair_hashes (drop (2 * cnt - count) hashes)
            in Some (tree_branch_loop depth ints)))"

fun tree_hash_from_branch :: "hash list \<Rightarrow> nat \<Rightarrow> hash \<Rightarrow> bytes option \<Rightarrow> hash" where
  "tree_hash_from_branch branch 0 leaf path = leaf"
| "tree_hash_from_branch branch (Suc depth) leaf path =
     tree_hash_from_branch branch depth
       (if (case path of None \<Rightarrow> False | Some p \<Rightarrow> bit (p ! (depth div 8)) (depth mod 8))
        then hash2 (branch ! depth) leaf else hash2 leaf (branch ! depth))
       path"

section \<open>Powers of two\<close>

lemma bit_smear_step:
  fixes c x :: "'a::len word"
  assumes "\<And>n. bit x n \<longleftrightarrow> (\<exists>d<k. bit c (n + d))"
  shows "bit (x OR drop_bit k x) n \<longleftrightarrow> (\<exists>d<2 * k. bit c (n + d))"
proof
  assume "bit (x OR drop_bit k x) n"
  then obtain d where "d < k" "bit c (n + d) \<or> bit c (k + n + d)"
    by (auto simp: bit_or_iff bit_drop_bit_eq assms add.commute)
  then show "\<exists>d<2 * k. bit c (n + d)"
    by (auto intro: exI [of _ d] exI [of _ "k + d"] simp: ac_simps)
next
  assume "\<exists>d<2 * k. bit c (n + d)"
  then obtain d where d: "d < 2 * k" "bit c (n + d)" by blast
  show "bit (x OR drop_bit k x) n"
  proof (cases "d < k")
    case True
    with d show ?thesis by (auto simp: bit_or_iff assms)
  next
    case False
    then have "n + d = k + n + (d - k)" "d - k < k" using d by simp_all
    with d(2) have "bit x (k + n)" unfolding assms by metis
    then show ?thesis by (simp add: bit_or_iff bit_drop_bit_eq)
  qed
qed

lemma top_bit:
  fixes n :: nat
  assumes "2 ^ k \<le> n" and "n < 2 ^ (k + 1)"
  shows "bit n k" and "bit n m \<Longrightarrow> m \<le> k"
proof -
  have "n div 2 ^ k = 1" using assms by (intro div_nat_eqI) simp_all
  then show "bit n k" by (simp add: bit_iff_odd)
  have "take_bit (k + 1) n = n" using assms(2) by (rule take_bit_nat_eq_self)
  then show "bit n m \<Longrightarrow> m \<le> k" using bit_take_bit_iff [of "k + 1" n m] by simp
qed

lemma tree_cnt_power:
  assumes "2 ^ k < count" and "count \<le> 2 ^ (k + 1)" and "count < 2 ^ 64"
  shows "tree_cnt count = 2 ^ k"
proof -
  define c :: u64 where "c = word_of_nat (count - 1)"
  have uc: "unat c = count - 1" using assms(3) by (simp add: c_def unsigned_of_nat take_bit_nat_eq_self)
  have "2 ^ k \<le> unat c" "unat c < 2 ^ (k + 1)" using assms uc by linarith+
  from top_bit [OF this] have top: "bit c k" "\<And>m. bit c m \<Longrightarrow> m \<le> k" by (simp_all add: bit_unsigned_iff)
  define s where "s = (let c = c OR drop_bit 1 c; c = c OR drop_bit 2 c; c = c OR drop_bit 4 c;
      c = c OR drop_bit 8 c; c = c OR drop_bit 16 c in c OR drop_bit 32 c)"
  have "bit s n \<longleftrightarrow> (\<exists>d<64. bit c (n + d))" for n
  proof -
    have "\<And>n. bit c n \<longleftrightarrow> (\<exists>d<1. bit c (n + d))" by simp
    note 1 = bit_smear_step [OF this] note 2 = bit_smear_step [OF 1] note 4 = bit_smear_step [OF 2]
    note 8 = bit_smear_step [OF 4] note 16 = bit_smear_step [OF 8] note 32 = bit_smear_step [OF 16]
    from 32 [of n] show ?thesis by (simp add: s_def Let_def)
  qed
  moreover have "(\<exists>d<64. bit c (n + d)) \<longleftrightarrow> n \<le> k" for n
  proof
    assume "n \<le> k"
    moreover have "k < 64" using top(1) bit_imp_le_length by fastforce
    ultimately show "\<exists>d<64. bit c (n + d)" using top(1) by (intro exI [of _ "k - n"]) simp
  next
    assume "\<exists>d<64. bit c (n + d)"
    then obtain d where "bit c (n + d)" by blast
    then show "n \<le> k" using top(2) [of "n + d"] by simp
  qed
  ultimately have s: "bit s n \<longleftrightarrow> n \<le> k" for n by simp
  have "s AND NOT (drop_bit 1 s) = push_bit k 1"
    by (rule bit_word_eqI) (auto simp: bit_and_iff bit_not_iff bit_drop_bit_eq s bit_exp_iff)
  moreover have "tree_cnt count = unat (s AND NOT (drop_bit 1 s))"
    unfolding tree_cnt_def s_def c_def Let_def by (rule refl)
  ultimately have "tree_cnt count = unat (push_bit k 1 :: u64)" by simp
  moreover have "k < 64" using top(1) bit_imp_le_length by fastforce
  moreover from this have "(2 :: nat) ^ k < 2 ^ 64" by (intro power_strict_increasing) simp_all
  ultimately show ?thesis by (simp only: unat_push_bit) simp
qed

text \<open>Both binary searches keep the depth within a window that halves with every step.\<close>

lemma power_le_iff:
  fixes count :: nat
  assumes "2 ^ d \<le> count" and "count < 2 ^ (d + 1)"
  shows "2 ^ x \<le> count \<longleftrightarrow> x \<le> d"
proof
  assume "2 ^ x \<le> count"
  with assms(2) have "(2 :: nat) ^ x < 2 ^ (d + 1)" by linarith
  then have "x < d + 1" using power_less_imp_less_exp [of "2 :: nat" x "d + 1"] by simp
  then show "x \<le> d" by simp
next
  assume "x \<le> d"
  then have "(2 :: nat) ^ x \<le> 2 ^ d" by (intro power_increasing) simp_all
  with assms(1) show "2 ^ x \<le> count" by linarith
qed

definition in_window :: "nat \<Rightarrow> nat \<Rightarrow> nat \<Rightarrow> bool" where
  "in_window d w m \<longleftrightarrow> m \<le> d \<and> d < m + w"

lemma window_search:
  fixes d :: nat
  assumes "d < 64"
  shows "fold (\<lambda>i m. if m + i \<le> d then m + i else m) [32, 16, 8, 4, 2, 1] 0 = d"
proof -
  define f where "f = (\<lambda>i m. if m + i \<le> d then m + i else m)"
  have step: "in_window d (2 * i) m \<Longrightarrow> in_window d i (f i m)" for i m
    by (auto simp: in_window_def f_def)
  have "in_window d 64 0" using assms by (simp add: in_window_def)
  then have "in_window d 32 (f 32 0)" using step [of 32] by simp
  then have "in_window d 16 (f 16 (f 32 0))" using step [of 16] by simp
  then have "in_window d 8 (f 8 (f 16 (f 32 0)))" using step [of 8] by simp
  then have "in_window d 4 (f 4 (f 8 (f 16 (f 32 0))))" using step [of 4] by simp
  then have "in_window d 2 (f 2 (f 4 (f 8 (f 16 (f 32 0)))))" using step [of 2] by simp
  then have "in_window d 1 (f 1 (f 2 (f 4 (f 8 (f 16 (f 32 0))))))" using step [of 1] by simp
  then have "f 1 (f 2 (f 4 (f 8 (f 16 (f 32 0))))) = d" by (simp add: in_window_def)
  then have "fold f [32, 16, 8, 4, 2, 1] 0 = d" by simp
  then show ?thesis unfolding f_def .
qed

lemma tree_depth_log:
  assumes "2 ^ d \<le> count" and "count < 2 ^ (d + 1)" and "d < 64"
  shows "tree_depth count = d"
proof -
  let ?g = "\<lambda>i (c, depth). if 0 < c div 2 ^ i then (c div 2 ^ i, depth + i) else (c, depth)"
  let ?f = "\<lambda>i m. if m + i \<le> d then m + i else m"
  have "0 < count div 2 ^ m div 2 ^ i \<longleftrightarrow> m + i \<le> d" for m i
    using power_le_iff [OF assms(1,2), of "m + i"]
    by (simp add: div_mult2_eq [symmetric] power_add [symmetric] div_greater_zero_iff)
  then have step: "?g i (count div 2 ^ m, m) = (count div 2 ^ ?f i m, ?f i m)" for i m
    by (simp add: div_mult2_eq [symmetric] power_add [symmetric])
  have "fold ?g is (count div 2 ^ m, m) = (count div 2 ^ fold ?f is m, fold ?f is m)" for "is" m
    by (induction "is" arbitrary: m) (simp_all only: fold_simps step id_apply)
  from this [of "[32, 16, 8, 4, 2, 1]" 0] window_search [OF assms(3)] show ?thesis
    unfolding tree_depth_def by (simp only: power_0 div_by_1 snd_conv)
qed

lemma tree_branch_cnt_log:
  assumes "2 ^ d \<le> count" and "count < 2 ^ (d + 1)" and "d < 64"
  shows "tree_branch_cnt count = (2 ^ d, d)"
proof -
  let ?g = "\<lambda>i (cnt, depth). if cnt * 2 ^ i \<le> count then (cnt * 2 ^ i, depth + i) else (cnt, depth)"
  let ?f = "\<lambda>i m. if m + i \<le> d then m + i else m"
  have step: "?g i (2 ^ m, m) = (2 ^ ?f i m, ?f i m)" for i m
    using power_le_iff [OF assms(1,2), of "m + i"] by (simp add: power_add)
  have "fold ?g is (2 ^ m, m) = (2 ^ fold ?f is m, fold ?f is m)" for "is" m
    by (induction "is" arbitrary: m) (simp_all only: fold_simps step id_apply)
  from this [of "[32, 16, 8, 4, 2, 1]" 0] window_search [OF assms(3)] show ?thesis
    unfolding tree_branch_cnt_def by (simp only: power_0)
qed

section \<open>Levels of the tree\<close>

definition base_level :: "nat \<Rightarrow> hash list \<Rightarrow> hash list" where
  "base_level cnt hashes = take (2 * cnt - length hashes) hashes @ pair_hashes (drop (2 * cnt - length hashes) hashes)"

definition tree_root :: "nat \<Rightarrow> hash list \<Rightarrow> hash" where
  "tree_root d hashes = hd ((pair_hashes ^^ d) hashes)"

lemma length_pair_hashes: "length (pair_hashes hs) = length hs div 2"
  by (induction hs rule: pair_hashes.induct) simp_all

lemma tree_root_Suc: "tree_root (Suc d) hs = tree_root d (pair_hashes hs)"
  by (simp add: tree_root_def funpow_swap1)

lemma length_base_level: "cnt \<le> length hs \<Longrightarrow> length hs \<le> 2 * cnt \<Longrightarrow> length (base_level cnt hs) = cnt"
  by (simp add: base_level_def length_pair_hashes)

lemma tree_hash_loop_root:
  "length ints = 2 ^ Suc k \<Longrightarrow> tree_hash_loop (2 ^ Suc k) ints = tree_root (Suc k) ints"
proof (induction k arbitrary: ints)
  case 0
  then obtain a b where "ints = [a, b]" by (auto simp: length_Suc_conv numeral_2_eq_2)
  then show ?case by (simp add: tree_hash_loop.simps tree_root_def)
next
  case (Suc k)
  have "(2 :: nat) ^ 1 < 2 ^ Suc (Suc k)" by (intro power_strict_increasing) simp_all
  moreover have "2 ^ Suc (Suc k) div 2 = (2 :: nat) ^ Suc k" by simp
  moreover have "length (pair_hashes ints) = 2 ^ Suc k" using Suc.prems by (simp add: length_pair_hashes)
  ultimately show ?case
    using Suc.IH [of "pair_hashes ints"]
    by (simp only: tree_hash_loop.simps [of "2 ^ Suc (Suc k)"] tree_root_Suc if_True power_one_right)
qed

lemma tree_hash_root:
  assumes "2 ^ d \<le> length hs" and "length hs < 2 ^ (d + 1)" and "length hs < 2 ^ 64"
  shows "tree_hash hs = Some (tree_root d (base_level (2 ^ d) hs))"
proof (cases "length hs \<le> 2")
  case True
  consider a where "hs = [a]" | a b where "hs = [a, b]"
    using True assms(1) by (cases hs rule: pair_hashes.cases) (auto simp: le_Suc_eq)
  then show ?thesis
  proof cases
    case 1
    with assms(1) have "d = 0" using power_increasing [of 1 d "2 :: nat"] by (cases "1 \<le> d") auto
    with 1 show ?thesis by (simp add: tree_hash_def base_level_def tree_root_def)
  next
    case 2
    with assms have "d = 1" using power_increasing [of 2 d "2 :: nat"] by (cases "2 \<le> d") (auto simp: not_le less_2_cases_iff)
    with 2 show ?thesis by (simp add: tree_hash_def base_level_def tree_root_def)
  qed
next
  case False
  then obtain d' where d': "d = Suc d'" using assms(2) by (cases d) auto
  show ?thesis
  proof (cases "length hs = 2 ^ d")
    case True
    have "0 < d'" using True False d' by (cases d') auto
    then obtain k where k: "d' = Suc k" by (cases d') auto
    have "tree_cnt (length hs) = 2 ^ d'" by (rule tree_cnt_power) (use True assms(3) d' in simp_all)
    moreover have "length (pair_hashes hs) = 2 ^ Suc k" using True d' k by (simp add: length_pair_hashes)
    ultimately have "tree_hash hs = Some (tree_root d' (pair_hashes hs))"
      using False True d' k tree_hash_loop_root [of "pair_hashes hs" k] by (simp add: tree_hash_def Let_def)
    then show ?thesis using True d' by (simp add: base_level_def tree_root_Suc)
  next
    case neq: False
    have "tree_cnt (length hs) = 2 ^ d" by (rule tree_cnt_power) (use neq assms in simp_all)
    moreover have "length (base_level (2 ^ d) hs) = 2 ^ Suc d'"
      using length_base_level [of "2 ^ d" hs] assms d' by simp
    ultimately show ?thesis
      using False d' tree_hash_loop_root [of "base_level (2 ^ d) hs" d']
      by (auto simp: tree_hash_def Let_def base_level_def)
  qed
qed

section \<open>The branch of the first leaf\<close>

lemma length_tree_branch_loop: "length (tree_branch_loop d ints) = d"
  by (induction d arbitrary: ints) simp_all

lemma tree_hash_from_branch_cong:
  "(\<And>i. i < d \<Longrightarrow> b ! i = b' ! i) \<Longrightarrow> tree_hash_from_branch b d leaf path = tree_hash_from_branch b' d leaf path"
  by (induction b d leaf path rule: tree_hash_from_branch.induct) simp_all

lemma branch_root:
  "length level = 2 ^ d \<Longrightarrow>
   tree_hash_from_branch (tree_branch_loop d (tl level)) d (hd level) None = tree_root d level"
proof (induction d arbitrary: level)
  case 0
  then show ?case by (simp add: tree_root_def)
next
  case (Suc d)
  from Suc.prems obtain a b rest where level: "level = a # b # rest"
    by (cases level rule: pair_hashes.cases) (auto simp: power_eq_iff_eq_base)
  let ?b = "tree_branch_loop d (pair_hashes rest)"
  have "tree_hash_from_branch (?b @ [b]) d (hash2 a b) None = tree_hash_from_branch ?b d (hash2 a b) None"
    by (rule tree_hash_from_branch_cong) (simp add: nth_append length_tree_branch_loop)
  moreover have "length (pair_hashes level) = 2 ^ d" using Suc.prems by (simp add: length_pair_hashes)
  from Suc.IH [OF this] have "tree_hash_from_branch ?b d (hash2 a b) None = tree_root (Suc d) level"
    by (simp add: level tree_root_Suc)
  ultimately show ?case by (simp add: level nth_append length_tree_branch_loop)
qed

lemma exists_log:
  fixes n :: nat
  assumes "0 < n"
  obtains d where "2 ^ d \<le> n" and "n < 2 ^ (d + 1)"
proof -
  have "\<exists>d. 2 ^ d \<le> n \<and> n < 2 ^ (d + 1)"
    using assms
  proof (induction n rule: less_induct)
    case (less n)
    show ?case
    proof (cases "n = 1")
      case True
      then show ?thesis by (intro exI [of _ 0]) simp
    next
      case False
      then have "0 < n div 2" "n div 2 < n" using less.prems by auto
      then obtain d where "2 ^ d \<le> n div 2" "n div 2 < 2 ^ (d + 1)" using less.IH by blast
      then show ?thesis by (intro exI [of _ "d + 1"]) auto
    qed
  qed
  with that show thesis by blast
qed

lemma tree_branch_root:
  assumes "0 < length hs" and "length hs < 2 ^ 64"
  shows "\<exists>branch. tree_branch hs = Some branch \<and> length branch = tree_depth (length hs) \<and>
    tree_hash hs = Some (tree_hash_from_branch branch (tree_depth (length hs)) (hs ! 0) None)"
proof -
  obtain d where d: "2 ^ d \<le> length hs" "length hs < 2 ^ (d + 1)" using exists_log [OF assms(1)] .
  have "d < 64"
  proof (rule ccontr)
    assume "\<not> d < 64"
    then have "(2 :: nat) ^ 64 \<le> 2 ^ d" by (intro power_increasing) simp_all
    with d(1) assms(2) show False by linarith
  qed
  let ?level = "base_level (2 ^ d) hs"
  obtain h rest where hs: "hs = h # rest" using assms(1) by (cases hs) auto
  have m: "2 * 2 ^ d - length hs = Suc (2 * 2 ^ d - length hs - 1)" using d by simp
  have "tl ?level = take (2 * 2 ^ d - length hs - 1) (drop 1 hs) @ pair_hashes (drop (2 * 2 ^ d - length hs) hs)"
    unfolding base_level_def by (subst m) (simp add: hs)
  moreover have "hd ?level = hs ! 0" unfolding base_level_def by (subst m) (simp add: hs)
  moreover have "length ?level = 2 ^ d" using length_base_level [of "2 ^ d" hs] d by simp
  ultimately show ?thesis
    using branch_root [of ?level d] tree_branch_cnt_log [OF d \<open>d < 64\<close>] tree_depth_log [OF d \<open>d < 64\<close>]
      tree_hash_root [OF d assms(2)] assms(1)
    by (simp add: tree_branch_def Let_def length_tree_branch_loop)
qed

section \<open>Properties\<close>

text \<open>
  C12: A Merkle branch proves membership of the first leaf: for every non-empty list of hashes,
  \<^verbatim>\<open>tree_branch\<close> returns as many hashes as \<^verbatim>\<open>tree_depth\<close> says, and folding them over the first hash with
  \<^verbatim>\<open>tree_hash_from_branch\<close> gives the root that \<^verbatim>\<open>tree_hash\<close> computes, whether or not the number of leaves
  is a power of two. An empty list fails the assertion of both functions.
\<close>

theorem merkle_branch_correct:
  assumes "length hs < 2 ^ 64"
  shows "if hs = [] then tree_hash hs = None \<and> tree_branch hs = None
    else \<exists>branch. tree_branch hs = Some branch \<and> length branch = tree_depth (length hs) \<and>
      tree_hash hs = Some (tree_hash_from_branch branch (tree_depth (length hs)) (hs ! 0) None)"
proof (cases "hs = []")
  case True
  then show ?thesis by (simp add: tree_hash_def tree_branch_def split: prod.splits)
next
  case False
  then show ?thesis using tree_branch_root [of hs] assms by simp
qed

theorem merkle_branch_correct_witness:
  "\<exists>branch. tree_branch [[1], [2], [3]] = Some branch \<and> length branch = tree_depth 3 \<and>
     tree_hash [[1], [2], [3]] = Some (tree_hash_from_branch branch (tree_depth 3) [1] None)"
  using merkle_branch_correct [of "[[1], [2], [3]]"] by (simp add: numeral_3_eq_3)

end
