(* ===== verification/TransactionExtra.thy ===== *)
theory TransactionExtra
  imports Serialization StringTools Chacha Keccak
begin

text \<open>
  The extra field of a transaction: \<^verbatim>\<open>lib/CryptoNoteCore/TransactionExtra.cpp\<close> and its header. The parser
  returns the fields it read together with its verdict, the writers return \<open>None\<close> where the code returns
  \<^verbatim>\<open>false\<close>. Payment ids, public keys and enciphered messages are shown to survive a round trip.
\<close>

unbundle bit_operations_syntax

section \<open>Fields\<close>

datatype TransactionExtraField =
    TransactionExtraPadding nat
  | TransactionExtraPublicKey bytes
  | TransactionExtraNonce bytes
  | TxExtraMergeMiningTag TransactionExtraMergeMiningTag
  | tx_extra_message bytes
  | TransactionExtraTTL u64
  | tx_extra_sender bytes

definition TX_EXTRA_PADDING_MAX_COUNT :: nat where "TX_EXTRA_PADDING_MAX_COUNT = 255"
definition TX_EXTRA_NONCE_MAX_COUNT :: nat where "TX_EXTRA_NONCE_MAX_COUNT = 255"
definition TX_EXTRA_TAG_PADDING :: u8 where "TX_EXTRA_TAG_PADDING = 0x00"
definition TX_EXTRA_TAG_PUBKEY :: u8 where "TX_EXTRA_TAG_PUBKEY = 0x01"
definition TX_EXTRA_NONCE :: u8 where "TX_EXTRA_NONCE = 0x02"
definition TX_EXTRA_MERGE_MINING_TAG :: u8 where "TX_EXTRA_MERGE_MINING_TAG = 0x03"
definition TX_EXTRA_MESSAGE_TAG :: u8 where "TX_EXTRA_MESSAGE_TAG = 0x04"
definition TX_EXTRA_TTL :: u8 where "TX_EXTRA_TTL = 0x05"
definition TX_EXTRA_SENDER_TAG :: u8 where "TX_EXTRA_SENDER_TAG = 0x06"
definition TX_EXTRA_NONCE_PAYMENT_ID :: u8 where "TX_EXTRA_NONCE_PAYMENT_ID = 0x00"

lemmas tx_extra_tags = TX_EXTRA_TAG_PADDING_def TX_EXTRA_TAG_PUBKEY_def TX_EXTRA_NONCE_def
  TX_EXTRA_MERGE_MINING_TAG_def TX_EXTRA_MESSAGE_TAG_def TX_EXTRA_TTL_def TX_EXTRA_SENDER_TAG_def

text \<open>\<^verbatim>\<open>findTransactionExtraFieldByType\<close> for one alternative of the variant, given by its accessor.\<close>

fun findTransactionExtraFieldByType :: "(TransactionExtraField \<Rightarrow> 'a option) \<Rightarrow> TransactionExtraField list \<Rightarrow> 'a option" where
  "findTransactionExtraFieldByType get [] = None"
| "findTransactionExtraFieldByType get (f # fs) =
     (case get f of Some x \<Rightarrow> Some x | None \<Rightarrow> findTransactionExtraFieldByType get fs)"

definition asPublicKey :: "TransactionExtraField \<Rightarrow> bytes option" where
  "asPublicKey f = (case f of TransactionExtraPublicKey k \<Rightarrow> Some k | _ \<Rightarrow> None)"

definition asNonce :: "TransactionExtraField \<Rightarrow> bytes option" where
  "asNonce f = (case f of TransactionExtraNonce n \<Rightarrow> Some n | _ \<Rightarrow> None)"

definition asMergeMiningTag :: "TransactionExtraField \<Rightarrow> TransactionExtraMergeMiningTag option" where
  "asMergeMiningTag f = (case f of TxExtraMergeMiningTag t \<Rightarrow> Some t | _ \<Rightarrow> None)"

definition asMessage :: "TransactionExtraField \<Rightarrow> bytes option" where
  "asMessage f = (case f of tx_extra_message d \<Rightarrow> Some d | _ \<Rightarrow> None)"

definition asSender :: "TransactionExtraField \<Rightarrow> bytes option" where
  "asSender f = (case f of tx_extra_sender d \<Rightarrow> Some d | _ \<Rightarrow> None)"

section \<open>Parsing\<close>

text \<open>
  The loop of the padding case: the field's size and the rest of the input, or \<open>None\<close> for a non-zero
  byte.
\<close>

fun padding_loop :: "nat \<Rightarrow> bytes \<Rightarrow> (nat \<times> bytes) option" where
  "padding_loop sz [] = Some (sz, [])"
| "padding_loop sz (b # bs) =
     (if sz \<le> TX_EXTRA_PADDING_MAX_COUNT
      then (if b \<noteq> 0 then None else padding_loop (sz + 1) bs)
      else Some (sz, b # bs))"

text \<open>
  One round of the parsing loop after its tag is read. \<open>None\<close> is a \<^verbatim>\<open>return false\<close> or an exception, which
  the function's handler turns into \<^verbatim>\<open>false\<close>; an unknown tag is skipped.
\<close>

definition caught :: "('a \<times> bytes) result \<Rightarrow> ('a \<times> bytes) option" where
  "caught r = (case r of Inl _ \<Rightarrow> None | Inr p \<Rightarrow> Some p)"

definition read_nonce :: "bytes reader" where
  "read_nonce = rbind read_u8 (\<lambda>sz. if 0 < sz then read_bytes (unat sz) else rret [])"

definition read_ttl :: "u64 reader" where
  "read_ttl = rbind (readVarint :: u8 reader) (\<lambda>_. readVarint)"

definition read_field :: "u8 \<Rightarrow> TransactionExtraField option reader" where
  "read_field c =
     (if c = TX_EXTRA_TAG_PUBKEY then rbind (get_binary 32) (\<lambda>k. rret (Some (TransactionExtraPublicKey k)))
      else if c = TX_EXTRA_NONCE then rbind read_nonce (\<lambda>n. rret (Some (TransactionExtraNonce n)))
      else if c = TX_EXTRA_MERGE_MINING_TAG then rbind get_MergeMiningTag (\<lambda>t. rret (Some (TxExtraMergeMiningTag t)))
      else if c = TX_EXTRA_MESSAGE_TAG then rbind get_string (\<lambda>d. rret (Some (tx_extra_message d)))
      else if c = TX_EXTRA_TTL then rbind read_ttl (\<lambda>t. rret (Some (TransactionExtraTTL t)))
      else if c = TX_EXTRA_SENDER_TAG then rbind get_string (\<lambda>d. rret (Some (tx_extra_sender d)))
      else rret None)"

definition parse_field :: "u8 \<Rightarrow> bytes \<Rightarrow> (TransactionExtraField option \<times> bytes) option" where
  "parse_field c bs =
     (if c = TX_EXTRA_TAG_PADDING then
        (case padding_loop 1 bs of
           None \<Rightarrow> None
         | Some (sz, rest) \<Rightarrow>
             if TX_EXTRA_PADDING_MAX_COUNT < sz then None else Some (Some (TransactionExtraPadding sz), rest))
      else caught (read_field c bs))"

lemma padding_loop_Some:
  "padding_loop sz bs = Some (n, rest) \<Longrightarrow> \<exists>k. bs = replicate k 0 @ rest \<and> n = sz + k"
proof (induction sz bs rule: padding_loop.induct)
  case (1 sz)
  then show ?case by (intro exI [of _ 0]) simp
next
  case (2 sz b bs)
  show ?case
  proof (cases "sz \<le> TX_EXTRA_PADDING_MAX_COUNT")
    case True
    with 2 obtain k where "bs = replicate k 0 @ rest" "n = sz + 1 + k" "b = 0"
      by (auto split: if_splits)
    then show ?thesis by (intro exI [of _ "Suc k"]) simp
  next
    case False
    with 2 show ?thesis by (intro exI [of _ 0]) simp
  qed
qed

lemma caught_eq_Some: "caught r = Some p \<longleftrightarrow> r = Inr p"
  by (cases r) (simp_all add: caught_def)

text \<open>Every reader of a field consumes a prefix of its input.\<close>

lemma read_nonce_iff:
  "read_nonce bs = Inr (n, rest) \<longleftrightarrow> length n \<le> 255 \<and> bs = word_of_nat (length n) # n @ rest"
proof (cases bs)
  case Nil
  then show ?thesis by (simp add: read_nonce_def)
next
  case (Cons b bs')
  have "(if 0 < b then read_bytes (unat b) else rret []) bs' = Inr (n, rest) \<longleftrightarrow> length n = unat b \<and> bs' = n @ rest"
    using read_bytes_or_empty [of "unat b" bs' n rest] by (simp add: word_gt_0 unat_gt_0)
  moreover have "length n = unat b \<longleftrightarrow> length n \<le> 255 \<and> b = word_of_nat (length n)"
  proof -
    have "unat b \<le> 255" using unat_byte_bound [of b] by linarith
    then show ?thesis by (auto simp: unat_of_nat)
  qed
  ultimately show ?thesis using Cons by (auto simp: read_nonce_def)
qed

lemma read_ttl_iff:
  "read_ttl bs = Inr (t, rest) \<longleftrightarrow> (\<exists>s :: u8. bs = put_u8 s @ put_u64 t @ rest)"
  by (auto simp: read_ttl_def rbind_eq_Inr_iff varint8.decode_iff varint64.decode_iff put_u8_def put_u64_def)

lemma get_MergeMiningTag_iff:
  "get_MergeMiningTag bs = Inr (t, rest) \<longleftrightarrow>
   (\<exists>field slack. get_string bs = Inr (field, rest) \<and> doSerialize_get field = Inr (t, slack))"
proof -
  have "(case doSerialize_get field of Inl e \<Rightarrow> rfail e | Inr (tag, _) \<Rightarrow> rret tag) r = Inr (t, rest) \<longleftrightarrow>
    r = rest \<and> (\<exists>slack. doSerialize_get field = Inr (t, slack))" for field r
    by (cases "doSerialize_get field") auto
  then show ?thesis unfolding get_MergeMiningTag_def rbind_eq_Inr_iff by auto
qed

text \<open>A field other than padding is read the same way when more bytes follow the input.\<close>

definition reads_prefix :: "'a reader \<Rightarrow> bool" where
  "reads_prefix get \<longleftrightarrow>
     (\<forall>bs x rest. get bs = Inr (x, rest) \<longrightarrow> (\<exists>p. bs = p @ rest) \<and> (\<forall>ys. get (bs @ ys) = Inr (x, rest @ ys)))"

lemma reads_prefixD:
  assumes "reads_prefix get" and "get bs = Inr (x, rest)"
  shows "\<exists>p. bs = p @ rest" and "get (bs @ ys) = Inr (x, rest @ ys)"
  using assms by (simp_all add: reads_prefix_def)

lemma reads_prefix_of_iff:
  assumes "\<And>bs x rest. get bs = Inr (x, rest) \<longleftrightarrow> (\<exists>p \<in> P x. bs = p @ rest)"
  shows "reads_prefix get"
  unfolding reads_prefix_def
proof (intro allI impI conjI)
  fix bs x rest
  assume "get bs = Inr (x, rest)"
  then obtain p where p: "p \<in> P x" "bs = p @ rest" using assms by blast
  show "\<exists>p. bs = p @ rest" using p by blast
  show "get (bs @ ys) = Inr (x, rest @ ys)" for ys
    using p assms [of "bs @ ys" x "rest @ ys"] by auto
qed

lemma reads_prefix_field: "reads_prefix get \<Longrightarrow> reads_prefix (rbind get (\<lambda>x. rret (F x)))"
  by (fastforce simp: reads_prefix_def rbind_eq_Inr_iff)

lemma reads_prefix_readers:
  "reads_prefix (get_binary n)" "reads_prefix get_string" "reads_prefix read_nonce" "reads_prefix read_ttl"
  "reads_prefix get_MergeMiningTag"
proof -
  show "reads_prefix (get_binary n)"
    by (rule reads_prefix_of_iff [where P = "\<lambda>x. if length x = n then {put_binary x} else {}"]) (simp add: get_binary_iff)
  show s: "reads_prefix get_string"
    by (rule reads_prefix_of_iff [where P = "\<lambda>x. if length x < 2 ^ 64 then {put_string x} else {}"])
      (simp add: get_string_iff)
  show "reads_prefix read_nonce"
    by (rule reads_prefix_of_iff [where P = "\<lambda>x. if length x \<le> 255 then {word_of_nat (length x) # x} else {}"])
      (simp add: read_nonce_iff)
  show "reads_prefix read_ttl"
    by (rule reads_prefix_of_iff [where P = "\<lambda>t. {put_u8 s @ put_u64 t | s. True}"]) (auto simp: read_ttl_iff)
  show "reads_prefix get_MergeMiningTag"
    unfolding reads_prefix_def get_MergeMiningTag_iff using reads_prefixD [OF s] by blast
qed

lemma reads_prefix_rret: "reads_prefix (rret x)"
  by (simp add: reads_prefix_def)

lemma reads_prefix_read_field: "reads_prefix (read_field c)"
  by (simp add: read_field_def reads_prefix_rret reads_prefix_readers reads_prefix_field)

lemma parse_field_prefix:
  assumes "parse_field c bs = Some (f, rest)"
  shows "\<exists>p. bs = p @ rest"
proof (cases "c = TX_EXTRA_TAG_PADDING")
  case True
  with assms show ?thesis using padding_loop_Some [of 1 bs]
    by (auto simp: parse_field_def split: option.splits prod.splits if_splits)
next
  case False
  with assms show ?thesis
    using reads_prefixD(1) [OF reads_prefix_read_field] by (simp add: parse_field_def caught_eq_Some)
qed

lemma parse_field_shorter: "parse_field c bs = Some (f, rest) \<Longrightarrow> length rest < length (c # bs)"
  using parse_field_prefix [of c bs f rest] by auto

lemma parse_field_append:
  assumes "parse_field c bs = Some (f, rest)" and "c \<noteq> TX_EXTRA_TAG_PADDING"
  shows "parse_field c (bs @ ys) = Some (f, rest @ ys)"
  using assms reads_prefixD(2) [OF reads_prefix_read_field] by (simp add: parse_field_def caught_eq_Some)

text \<open>The fields and whether the function returned \<^verbatim>\<open>true\<close>; fields read before a failure are kept.\<close>

function parseTransactionExtra :: "bytes \<Rightarrow> TransactionExtraField list \<times> bool" where
  "parseTransactionExtra [] = ([], True)"
| "parseTransactionExtra (c # bs) =
     (case parse_field c bs of
        None \<Rightarrow> ([], False)
      | Some (f, rest) \<Rightarrow>
          (let (fs, ok) = parseTransactionExtra rest in ((case f of None \<Rightarrow> fs | Some x \<Rightarrow> x # fs), ok)))"
  by pat_completeness auto
termination
  by (relation "measure length") (use parse_field_shorter in fastforce)+


section \<open>Writing\<close>

definition addTransactionPublicKeyToExtra :: "bytes \<Rightarrow> bytes \<Rightarrow> bytes" where
  "addTransactionPublicKeyToExtra tx_extra tx_pub_key = tx_extra @ [TX_EXTRA_TAG_PUBKEY] @ tx_pub_key"

definition addExtraNonceToTransactionExtra :: "bytes \<Rightarrow> bytes \<Rightarrow> bytes option" where
  "addExtraNonceToTransactionExtra tx_extra extra_nonce =
     (if TX_EXTRA_NONCE_MAX_COUNT < length extra_nonce then None
      else Some (tx_extra @ [TX_EXTRA_NONCE, word_of_nat (length extra_nonce)] @ extra_nonce))"

definition appendMergeMiningTagToExtra :: "bytes \<Rightarrow> TransactionExtraMergeMiningTag \<Rightarrow> bytes option" where
  "appendMergeMiningTagToExtra tx_extra mm_tag =
     (case toBinaryArray (\<lambda>t. Inr (put_MergeMiningTag t)) mm_tag of
        None \<Rightarrow> None
      | Some blob \<Rightarrow> Some (tx_extra @ [TX_EXTRA_MERGE_MINING_TAG] @ blob))"

definition message_serialize :: "bytes \<Rightarrow> bytes result" where
  "message_serialize d = Inr (put_string d)"

definition sender_serialize :: "bytes \<Rightarrow> bytes result" where
  "sender_serialize d = Inr (put_string d)"

definition appendMessageToExtra :: "bytes \<Rightarrow> bytes \<Rightarrow> bytes option" where
  "appendMessageToExtra tx_extra message =
     (case toBinaryArray message_serialize message of
        None \<Rightarrow> None
      | Some blob \<Rightarrow> Some (tx_extra @ [TX_EXTRA_MESSAGE_TAG] @ blob))"

definition appendTTLToExtra :: "bytes \<Rightarrow> u64 \<Rightarrow> bytes" where
  "appendTTLToExtra tx_extra ttl =
     (let ttlData = get_varint_data ttl;
          extraFieldSize = get_varint_data (word_of_nat (length ttlData))
      in tx_extra @ [TX_EXTRA_TTL] @ extraFieldSize @ ttlData)"

definition appendSenderToExtra :: "bytes \<Rightarrow> bytes \<Rightarrow> bytes option" where
  "appendSenderToExtra tx_extra sender =
     (case toBinaryArray sender_serialize sender of
        None \<Rightarrow> None
      | Some blob \<Rightarrow> Some (tx_extra @ [TX_EXTRA_SENDER_TAG] @ blob))"

text \<open>The visitor's overloads and the loop over the fields.\<close>

definition ExtraSerializerVisitor :: "bytes \<Rightarrow> TransactionExtraField \<Rightarrow> bytes option" where
  "ExtraSerializerVisitor ext f =
     (case f of
        TransactionExtraPadding n \<Rightarrow>
          if TX_EXTRA_PADDING_MAX_COUNT < n then None else Some (ext @ replicate n 0)
      | TransactionExtraPublicKey k \<Rightarrow> Some (addTransactionPublicKeyToExtra ext k)
      | TransactionExtraNonce n \<Rightarrow> addExtraNonceToTransactionExtra ext n
      | TxExtraMergeMiningTag t \<Rightarrow> appendMergeMiningTagToExtra ext t
      | tx_extra_message d \<Rightarrow> appendMessageToExtra ext d
      | TransactionExtraTTL t \<Rightarrow> Some (appendTTLToExtra ext t)
      | tx_extra_sender d \<Rightarrow> appendSenderToExtra ext d)"

fun writeTransactionExtra :: "bytes \<Rightarrow> TransactionExtraField list \<Rightarrow> bytes option" where
  "writeTransactionExtra tx_extra [] = Some tx_extra"
| "writeTransactionExtra tx_extra (f # fs) =
     (case ExtraSerializerVisitor tx_extra f of
        None \<Rightarrow> None
      | Some tx_extra' \<Rightarrow> writeTransactionExtra tx_extra' fs)"

section \<open>Accessors\<close>

definition getTransactionPublicKeyFromExtra :: "bytes \<Rightarrow> bytes" where
  "getTransactionPublicKeyFromExtra tx_extra =
     (case findTransactionExtraFieldByType asPublicKey (fst (parseTransactionExtra tx_extra)) of
        None \<Rightarrow> replicate 32 0
      | Some k \<Rightarrow> k)"

definition getMergeMiningTagFromExtra :: "bytes \<Rightarrow> TransactionExtraMergeMiningTag option" where
  "getMergeMiningTagFromExtra tx_extra =
     findTransactionExtraFieldByType asMergeMiningTag (fst (parseTransactionExtra tx_extra))"

definition setPaymentIdToTransactionExtraNonce :: "hash \<Rightarrow> bytes" where
  "setPaymentIdToTransactionExtraNonce payment_id = TX_EXTRA_NONCE_PAYMENT_ID # payment_id"

definition getPaymentIdFromTransactionExtraNonce :: "bytes \<Rightarrow> hash option" where
  "getPaymentIdFromTransactionExtraNonce extra_nonce =
     (if 32 + 1 \<noteq> length extra_nonce then None
      else if TX_EXTRA_NONCE_PAYMENT_ID \<noteq> extra_nonce ! 0 then None
      else Some (drop 1 extra_nonce))"

definition parsePaymentId :: "bytes \<Rightarrow> hash option" where
  "parsePaymentId paymentIdString = podFromHex paymentIdString 32"

definition createTxExtraWithPaymentId :: "bytes \<Rightarrow> bytes \<Rightarrow> bytes option" where
  "createTxExtraWithPaymentId paymentIdString ext =
     (case parsePaymentId paymentIdString of
        None \<Rightarrow> None
      | Some paymentIdBin \<Rightarrow> addExtraNonceToTransactionExtra ext (setPaymentIdToTransactionExtraNonce paymentIdBin))"

definition getPaymentIdFromTxExtra :: "bytes \<Rightarrow> hash option" where
  "getPaymentIdFromTxExtra ext =
     (case parseTransactionExtra ext of
        (fs, False) \<Rightarrow> None
      | (fs, True) \<Rightarrow>
          (case findTransactionExtraFieldByType asNonce fs of
             Some extra_nonce \<Rightarrow> getPaymentIdFromTransactionExtraNonce extra_nonce
           | None \<Rightarrow> None))"

section \<open>Encrypted messages\<close>

text \<open>
  Messages and senders are enciphered the same way, with checksums of 4 and 6 zero bytes.
  \<^verbatim>\<open>generateKeyDerivation\<close> (elliptic curve arithmetic) is an argument: it takes a public and a secret key and
  may fail. A null recipient or secret key is \<open>None\<close>.
\<close>

definition TX_EXTRA_MESSAGE_CHECKSUM_SIZE :: nat where "TX_EXTRA_MESSAGE_CHECKSUM_SIZE = 4"
definition TX_EXTRA_SENDER_CHECKSUM_SIZE :: nat where "TX_EXTRA_SENDER_CHECKSUM_SIZE = 6"

definition message_cipher :: "hash \<Rightarrow> u64 \<Rightarrow> bytes \<Rightarrow> bytes" where
  "message_cipher derivation index buf =
     (let h = cn_fast_hash (derivation @ [0x80, 0]) in chacha 10 buf h (write_u64 index))"

definition message_encrypt ::
  "(bytes \<Rightarrow> bytes \<Rightarrow> hash option) \<Rightarrow> u64 \<Rightarrow> bytes \<Rightarrow> AccountPublicAddress option \<Rightarrow> KeyPair \<Rightarrow> bytes option" where
  "message_encrypt generateKeyDerivation index message recipient txkey =
     (let buf = message @ replicate TX_EXTRA_MESSAGE_CHECKSUM_SIZE 0
      in case recipient of
           None \<Rightarrow> Some buf
         | Some r \<Rightarrow>
             (case generateKeyDerivation (spendPublicKey r) (kp_secretKey txkey) of
                None \<Rightarrow> None
              | Some derivation \<Rightarrow> Some (message_cipher derivation index buf)))"

definition message_decrypt ::
  "(bytes \<Rightarrow> bytes \<Rightarrow> hash option) \<Rightarrow> bytes \<Rightarrow> u64 \<Rightarrow> bytes \<Rightarrow> bytes option \<Rightarrow> bytes option" where
  "message_decrypt generateKeyDerivation d index txkey recepient_secret_key =
     (let mlen = length d
      in if mlen < TX_EXTRA_MESSAGE_CHECKSUM_SIZE then None
         else
           (case (case recepient_secret_key of
                    None \<Rightarrow> Some d
                  | Some sk \<Rightarrow>
                      (case generateKeyDerivation txkey sk of
                         None \<Rightarrow> None
                       | Some derivation \<Rightarrow> Some (message_cipher derivation index d))) of
              None \<Rightarrow> None
            | Some buf \<Rightarrow>
                (let mlen = mlen - TX_EXTRA_MESSAGE_CHECKSUM_SIZE
                 in if list_all (\<lambda>b. b = 0) (drop mlen buf) then Some (take mlen buf) else None)))"

definition sender_encrypt ::
  "(bytes \<Rightarrow> bytes \<Rightarrow> hash option) \<Rightarrow> u64 \<Rightarrow> bytes \<Rightarrow> AccountPublicAddress option \<Rightarrow> KeyPair \<Rightarrow> bytes option" where
  "sender_encrypt generateKeyDerivation index sender recipient txkey =
     (let buf = sender @ replicate TX_EXTRA_SENDER_CHECKSUM_SIZE 0
      in case recipient of
           None \<Rightarrow> Some buf
         | Some r \<Rightarrow>
             (case generateKeyDerivation (spendPublicKey r) (kp_secretKey txkey) of
                None \<Rightarrow> None
              | Some derivation \<Rightarrow> Some (message_cipher derivation index buf)))"

definition sender_decrypt ::
  "(bytes \<Rightarrow> bytes \<Rightarrow> hash option) \<Rightarrow> bytes \<Rightarrow> u64 \<Rightarrow> bytes \<Rightarrow> bytes option \<Rightarrow> bytes option" where
  "sender_decrypt generateKeyDerivation d index txkey recepient_secret_key =
     (let mlen = length d
      in if mlen < TX_EXTRA_SENDER_CHECKSUM_SIZE then None
         else
           (case (case recepient_secret_key of
                    None \<Rightarrow> Some d
                  | Some sk \<Rightarrow>
                      (case generateKeyDerivation txkey sk of
                         None \<Rightarrow> None
                       | Some derivation \<Rightarrow> Some (message_cipher derivation index d))) of
              None \<Rightarrow> None
            | Some buf \<Rightarrow>
                (let mlen = mlen - TX_EXTRA_SENDER_CHECKSUM_SIZE
                 in if list_all (\<lambda>b. b = 0) (drop mlen buf) then Some (take mlen buf) else None)))"

text \<open>The loops of \<^verbatim>\<open>getMessagesFromExtra\<close> and \<^verbatim>\<open>getSendersFromExtra\<close>: the index counts the fields of the kind.\<close>

fun decrypt_fields :: "(bytes \<Rightarrow> u64 \<Rightarrow> bytes option) \<Rightarrow> (TransactionExtraField \<Rightarrow> bytes option) \<Rightarrow> u64 \<Rightarrow> TransactionExtraField list \<Rightarrow> bytes list" where
  "decrypt_fields decrypt get i [] = []"
| "decrypt_fields decrypt get i (f # fs) =
     (case get f of
        None \<Rightarrow> decrypt_fields decrypt get i fs
      | Some d \<Rightarrow>
          (case decrypt d i of
             None \<Rightarrow> decrypt_fields decrypt get (i + 1) fs
           | Some res \<Rightarrow> res # decrypt_fields decrypt get (i + 1) fs))"

definition getMessagesFromExtra :: "(bytes \<Rightarrow> bytes \<Rightarrow> hash option) \<Rightarrow> bytes \<Rightarrow> bytes \<Rightarrow> bytes option \<Rightarrow> bytes list" where
  "getMessagesFromExtra generateKeyDerivation ext txkey recepient_secret_key =
     (case parseTransactionExtra ext of
        (fs, False) \<Rightarrow> []
      | (fs, True) \<Rightarrow>
          decrypt_fields (\<lambda>d i. message_decrypt generateKeyDerivation d i txkey recepient_secret_key) asMessage 0 fs)"

definition getSendersFromExtra :: "(bytes \<Rightarrow> bytes \<Rightarrow> hash option) \<Rightarrow> bytes \<Rightarrow> bytes \<Rightarrow> bytes option \<Rightarrow> bytes list" where
  "getSendersFromExtra generateKeyDerivation ext txkey recepient_secret_key =
     (case parseTransactionExtra ext of
        (fs, False) \<Rightarrow> []
      | (fs, True) \<Rightarrow>
          decrypt_fields (\<lambda>d i. sender_decrypt generateKeyDerivation d i txkey recepient_secret_key) asSender 0 fs)"

section \<open>Parsing what was written\<close>

definition isPadding :: "TransactionExtraField \<Rightarrow> bool" where
  "isPadding f = (case f of TransactionExtraPadding _ \<Rightarrow> True | _ \<Rightarrow> False)"

definition valid_field :: "TransactionExtraField \<Rightarrow> bool" where
  "valid_field f =
     (case f of
        TransactionExtraPadding n \<Rightarrow> 1 \<le> n
      | TransactionExtraPublicKey k \<Rightarrow> length k = 32
      | TransactionExtraNonce n \<Rightarrow> True
      | TxExtraMergeMiningTag t \<Rightarrow> wf_hash (mm_merkleRoot t)
      | tx_extra_message d \<Rightarrow> length d < 2 ^ 64
      | TransactionExtraTTL t \<Rightarrow> True
      | tx_extra_sender d \<Rightarrow> length d < 2 ^ 64)"

lemmas extra_writers = addTransactionPublicKeyToExtra_def addExtraNonceToTransactionExtra_def
  appendMergeMiningTagToExtra_def appendMessageToExtra_def appendTTLToExtra_def appendSenderToExtra_def
  message_serialize_def sender_serialize_def toBinaryArray_def Let_def

lemma visitor_append: "ExtraSerializerVisitor ext f = map_option ((@) ext) (ExtraSerializerVisitor [] f)"
  by (cases f) (simp_all add: ExtraSerializerVisitor_def extra_writers)

lemma padding_loop_zeros: "sz + n \<le> TX_EXTRA_PADDING_MAX_COUNT \<Longrightarrow> padding_loop sz (replicate n 0) = Some (sz + n, [])"
  by (induction n arbitrary: sz) auto

lemma parse_padding:
  "1 \<le> n \<Longrightarrow> n \<le> TX_EXTRA_PADDING_MAX_COUNT \<Longrightarrow> parseTransactionExtra (replicate n 0) = ([TransactionExtraPadding n], True)"
  using padding_loop_zeros [of 1 "n - 1"]
  by (cases n) (simp_all add: parse_field_def TX_EXTRA_TAG_PADDING_def)

lemma read_ttl_written: "read_ttl (get_varint_data (word_of_nat (length (get_varint_data t))) @ get_varint_data t @ rest) = Inr (t, rest)"
proof -
  have len: "length (get_varint_data t) \<le> 10"
    using length_writeVarint [of t] by (simp add: get_varint_data_def writeVarint_eq_write_varint)
  have "ucast (word_of_nat (length (get_varint_data t)) :: u8) = (word_of_nat (length (get_varint_data t)) :: u64)"
    using len by (intro word_eq_of_natI) (simp add: unat_ucast_up unat_of_nat)
  then have "put_u8 (word_of_nat (length (get_varint_data t))) = get_varint_data (word_of_nat (length (get_varint_data t)))"
    by (simp add: put_u8_def get_varint_data_def writeVarint_eq_write_varint)
  then show ?thesis unfolding read_ttl_iff
    by (intro exI [of _ "word_of_nat (length (get_varint_data t))"])
      (simp add: put_u64_def get_varint_data_def writeVarint_eq_write_varint)
qed

lemma parse_written_field:
  assumes "ExtraSerializerVisitor [] f = Some p" and "valid_field f" and "\<not> isPadding f"
  shows "parseTransactionExtra p = ([f], True)"
proof -
  have one: "parseTransactionExtra (c # bs) = ([f], True)"
    if "parse_field c bs = Some (Some f, [])" for c bs
    using that by simp
  have eqs: "caught (rbind get (\<lambda>x. rret (Some (F x))) bs) = Some (Some (F x), [])"
    if "get bs = Inr (x, [])" for get :: "'a reader" and F bs x
    using that by (simp add: caught_def rbind_def)
  show ?thesis
  proof (cases f)
    case (TransactionExtraPadding n)
    with assms show ?thesis by (simp add: isPadding_def)
  next
    case (TransactionExtraPublicKey k)
    with assms have "p = TX_EXTRA_TAG_PUBKEY # k" "length k = 32"
      by (auto simp: ExtraSerializerVisitor_def extra_writers valid_field_def)
    then show ?thesis using TransactionExtraPublicKey
      by (simp add: parse_field_def read_field_def tx_extra_tags caught_def rbind_def get_binary_def read_bytes_def)
  next
    case (TransactionExtraNonce n)
    with assms have "p = TX_EXTRA_NONCE # word_of_nat (length n) # n" "length n \<le> 255"
      by (auto simp: ExtraSerializerVisitor_def extra_writers TX_EXTRA_NONCE_MAX_COUNT_def split: if_splits)
    then show ?thesis using TransactionExtraNonce read_nonce_iff [of "word_of_nat (length n) # n" n "[]"]
      by (simp add: parse_field_def read_field_def tx_extra_tags caught_def rbind_def)
  next
    case (TxExtraMergeMiningTag t)
    with assms have "p = TX_EXTRA_MERGE_MINING_TAG # put_MergeMiningTag t" "wf_hash (mm_merkleRoot t)"
      by (auto simp: ExtraSerializerVisitor_def extra_writers valid_field_def)
    then show ?thesis using TxExtraMergeMiningTag get_put_MergeMiningTag [of t "[]"]
      by (simp add: parse_field_def read_field_def tx_extra_tags caught_def rbind_def)
  next
    case (tx_extra_message d)
    with assms have "p = TX_EXTRA_MESSAGE_TAG # put_string d" "length d < 2 ^ 64"
      by (auto simp: ExtraSerializerVisitor_def extra_writers valid_field_def)
    then show ?thesis using tx_extra_message get_string_iff [of "put_string d" d "[]"]
      by (simp add: parse_field_def read_field_def tx_extra_tags caught_def rbind_def)
  next
    case (TransactionExtraTTL t)
    with assms have "p = TX_EXTRA_TTL # get_varint_data (word_of_nat (length (get_varint_data t))) @ get_varint_data t"
      by (auto simp: ExtraSerializerVisitor_def extra_writers)
    then show ?thesis using TransactionExtraTTL read_ttl_written [of t "[]"]
      by (simp add: parse_field_def read_field_def tx_extra_tags caught_def rbind_def)
  next
    case (tx_extra_sender d)
    with assms have "p = TX_EXTRA_SENDER_TAG # put_string d" "length d < 2 ^ 64"
      by (auto simp: ExtraSerializerVisitor_def extra_writers valid_field_def)
    then show ?thesis using tx_extra_sender get_string_iff [of "put_string d" d "[]"]
      by (simp add: parse_field_def read_field_def tx_extra_tags caught_def rbind_def)
  qed
qed

text \<open>A completely parsed extra without padding may be extended: the old fields stay.\<close>

lemma padding_field: "parse_field TX_EXTRA_TAG_PADDING bs = Some (f, rest) \<Longrightarrow> \<exists>n. f = Some (TransactionExtraPadding n)"
  by (auto simp: parse_field_def split: option.splits prod.splits if_splits)

lemma parse_append:
  "parseTransactionExtra a = (gs, True) \<Longrightarrow> \<not> list_ex isPadding gs \<Longrightarrow>
   parseTransactionExtra (a @ b) = (gs @ fst (parseTransactionExtra b), snd (parseTransactionExtra b))"
proof (induction a arbitrary: gs rule: parseTransactionExtra.induct)
  case 1
  then show ?case by simp
next
  case (2 c bs)
  then obtain f rest fs where p: "parse_field c bs = Some (f, rest)" and r: "parseTransactionExtra rest = (fs, True)"
    and g: "gs = (case f of None \<Rightarrow> fs | Some x \<Rightarrow> x # fs)"
    by (auto split: option.splits prod.splits)
  have "c \<noteq> TX_EXTRA_TAG_PADDING"
    using padding_field [of bs f rest] p g 2(3) by (auto simp: isPadding_def)
  then have "parse_field c (bs @ b) = Some (f, rest @ b)" using parse_field_append p by blast
  moreover have "parseTransactionExtra (rest @ b) = (fs @ fst (parseTransactionExtra b), snd (parseTransactionExtra b))"
    using 2(1) [OF p refl r] g 2(3) by (auto split: option.splits)
  ultimately show ?case using g by (simp split: option.splits)
qed

lemma parse_write_from:
  "writeTransactionExtra a fs = Some ext \<Longrightarrow> parseTransactionExtra a = (gs, True) \<Longrightarrow> \<not> list_ex isPadding gs \<Longrightarrow>
   list_all valid_field fs \<Longrightarrow> \<not> list_ex isPadding (butlast fs) \<Longrightarrow> parseTransactionExtra ext = (gs @ fs, True)"
proof (induction fs arbitrary: a gs)
  case Nil
  then show ?case by simp
next
  case (Cons f fs)
  then obtain p where p: "ExtraSerializerVisitor [] f = Some p" and w: "writeTransactionExtra (a @ p) fs = Some ext"
    by (auto simp: visitor_append [of a f] split: option.splits)
  show ?case
  proof (cases "isPadding f")
    case True
    then obtain n where n: "f = TransactionExtraPadding n" by (auto simp: isPadding_def split: TransactionExtraField.splits)
    with p Cons.prems have "p = replicate n 0" "1 \<le> n" "n \<le> TX_EXTRA_PADDING_MAX_COUNT"
      by (auto simp: ExtraSerializerVisitor_def valid_field_def split: if_splits)
    moreover have "fs = []" using True Cons.prems(5) by (auto split: if_splits)
    ultimately show ?thesis using w n parse_append [OF Cons.prems(2,3), of p] parse_padding by simp
  next
    case False
    have "parseTransactionExtra (a @ p) = (gs @ [f], True)"
      using parse_append [OF Cons.prems(2,3), of p] parse_written_field [OF p _ False] Cons.prems(4) by simp
    then show ?thesis
      using Cons.IH [OF w, of "gs @ [f]"] Cons.prems False by (auto split: if_splits)
  qed
qed

lemma find_append:
  "findTransactionExtraFieldByType get (fs @ gs) =
   (case findTransactionExtraFieldByType get fs of Some x \<Rightarrow> Some x | None \<Rightarrow> findTransactionExtraFieldByType get gs)"
  by (induction fs) (auto split: option.splits)



lemma payment_nonce:
  "length h = 32 \<Longrightarrow> getPaymentIdFromTransactionExtraNonce (setPaymentIdToTransactionExtraNonce h) = Some h"
  by (simp add: getPaymentIdFromTransactionExtraNonce_def setPaymentIdToTransactionExtraNonce_def)

lemma added_field:
  assumes "parseTransactionExtra ext = (fs, True)" and "\<not> list_ex isPadding fs"
    and "ExtraSerializerVisitor ext f = Some ext'" and "valid_field f" and "\<not> isPadding f"
  shows "parseTransactionExtra ext' = (fs @ [f], True)"
  using parse_write_from [of ext "[f]" ext' fs] assms by simp



section \<open>Messages\<close>

lemma message_cipher_involution [simp]: "message_cipher d i (message_cipher d i buf) = buf"
  by (simp add: message_cipher_def chacha_involution)

lemma length_message_cipher [simp]: "length (message_cipher d i buf) = length buf"
  by (simp add: message_cipher_def)

lemma message_decrypt_encrypt:
  assumes "message_encrypt kd i m r txkey = Some d"
    and "case r of None \<Rightarrow> sk = None
         | Some a \<Rightarrow> (\<exists>s. sk = Some s \<and> kd (spendPublicKey a) (kp_secretKey txkey) = kd (kp_publicKey txkey) s)"
  shows "message_decrypt kd d i (kp_publicKey txkey) sk = Some m" and "length d = length m + TX_EXTRA_MESSAGE_CHECKSUM_SIZE"
  using assms by (auto simp: message_encrypt_def message_decrypt_def Let_def list_all_iff split: option.splits)

lemma sender_decrypt_encrypt:
  assumes "sender_encrypt kd i m r txkey = Some d"
    and "case r of None \<Rightarrow> sk = None
         | Some a \<Rightarrow> (\<exists>s. sk = Some s \<and> kd (spendPublicKey a) (kp_secretKey txkey) = kd (kp_publicKey txkey) s)"
  shows "sender_decrypt kd d i (kp_publicKey txkey) sk = Some m"
  using assms by (auto simp: sender_encrypt_def sender_decrypt_def Let_def list_all_iff split: option.splits)

lemma decrypt_messages:
  assumes "\<And>i m d. i < length ms \<Longrightarrow> decrypt (ds ! i) (k + word_of_nat i) = Some (ms ! i)" and "length ds = length ms"
  shows "decrypt_fields decrypt asMessage k (map tx_extra_message ds) = ms"
  using assms
proof (induction ds arbitrary: ms k)
  have as: "asMessage (tx_extra_message d) = Some d" for d by (simp add: asMessage_def)
  case (Cons d ds)
  then obtain m ms' where ms: "ms = m # ms'" by (cases ms) auto
  have "decrypt (ds ! i) (k + 1 + word_of_nat i) = Some (ms' ! i)" if "i < length ms'" for i
    using Cons.prems(1) [of "Suc i"] that ms by (simp add: add.assoc)
  then have "decrypt_fields decrypt asMessage (k + 1) (map tx_extra_message ds) = ms'"
    using Cons.IH [of ms' "k + 1"] Cons.prems(2) ms by simp
  then show ?case using Cons.prems(1) [of 0] ms by (simp add: as)
qed simp

text \<open>
  Messages enciphered for a recipient under their positions and written into an extra are returned
  in order by \<^verbatim>\<open>getMessagesFromExtra\<close> under the recipient's secret key, when the key derivation is
  symmetric for the two key pairs.
\<close>

theorem messages_roundtrip:
  assumes dh: "generateKeyDerivation (spendPublicKey r) (kp_secretKey txkey) = generateKeyDerivation (kp_publicKey txkey) sk"
    and enc: "\<And>i. i < length ms \<Longrightarrow>
      message_encrypt generateKeyDerivation (word_of_nat i) (ms ! i) (Some r) txkey = Some (ds ! i)"
    and len: "length ds = length ms" "list_all (\<lambda>m. length m + 4 < 2 ^ 64) ms"
    and w: "writeTransactionExtra [] (map tx_extra_message ds) = Some ext"
  shows "getMessagesFromExtra generateKeyDerivation ext (kp_publicKey txkey) (Some sk) = ms"
proof -
  note dec = message_decrypt_encrypt [OF enc, of _ "Some sk", simplified, OF _ dh]
  have "valid_field (tx_extra_message d)" if "d \<in> set ds" for d
    using that dec(2) len by (auto simp: in_set_conv_nth valid_field_def TX_EXTRA_MESSAGE_CHECKSUM_SIZE_def list_all_length)
  then have "parseTransactionExtra ext = (map tx_extra_message ds, True)"
    using parse_write_from [OF w, of "[]"]
    by (simp add: list_all_iff isPadding_def list_ex_iff map_butlast [symmetric] del: map_butlast)
  then show ?thesis
    using decrypt_messages [of ms "\<lambda>d i. message_decrypt generateKeyDerivation d i (kp_publicKey txkey) (Some sk)" ds 0] dec(1) len(1)
    by (simp add: getMessagesFromExtra_def)
qed

theorem messages_roundtrip_witness:
  "getMessagesFromExtra (\<lambda>p s. Some (map2 (+) p s))
     (4 # put_string (message_cipher (map2 (+) [1] [2]) 0 ([5, 6] @ replicate 4 0))) [2] (Some [1]) = [[5, 6]]"
  using messages_roundtrip [of "\<lambda>p s. Some (map2 (+) p s)" "\<lparr>spendPublicKey = [1], viewPublicKey = []\<rparr>"
      "\<lparr>kp_publicKey = [2], kp_secretKey = [2]\<rparr>" "[1]" "[[5, 6]]" "[message_cipher (map2 (+) [1] [2]) 0 ([5, 6] @ replicate 4 0)]"
      "4 # put_string (message_cipher (map2 (+) [1] [2]) 0 ([5, 6] @ replicate 4 0))"]
  by (simp add: message_encrypt_def TX_EXTRA_MESSAGE_CHECKSUM_SIZE_def ExtraSerializerVisitor_def extra_writers tx_extra_tags)

end
