(* ===== verification/OrderedMap.thy ===== *)
theory OrderedMap
  imports Prelude
begin

text \<open>
  Ordered maps, as \<^verbatim>\<open>std::map\<close> provides them: association lists sorted by their keys, with the operations the components use. The locale \<open>finite_map_ops\<close> states the laws clients rely on and is interpreted on these lists.
\<close>

unbundle bit_operations_syntax

section \<open>Operations\<close>

type_synonym ('k, 'v) omap = "('k \<times> 'v) list"

definition omap_wf :: "('k :: linorder, 'v) omap \<Rightarrow> bool" where
  "omap_wf m \<longleftrightarrow> sorted_wrt (<) (map fst m)"

text \<open>\<open>omap_set\<close> is \<^verbatim>\<open>m[k] = v\<close>; \<open>omap_insert\<close> is \<^verbatim>\<open>m.insert({k, v})\<close>, which leaves an existing entry alone and reports it.\<close>

fun omap_set :: "'k :: linorder \<Rightarrow> 'v \<Rightarrow> ('k, 'v) omap \<Rightarrow> ('k, 'v) omap" where
  "omap_set k v [] = [(k, v)]"
| "omap_set k v ((k', v') # m) =
     (if k < k' then (k, v) # (k', v') # m else if k = k' then (k, v) # m else (k', v') # omap_set k v m)"

definition omap_insert :: "'k :: linorder \<Rightarrow> 'v \<Rightarrow> ('k, 'v) omap \<Rightarrow> ('k, 'v) omap \<times> bool" where
  "omap_insert k v m = (case map_of m k of None \<Rightarrow> (omap_set k v m, True) | Some _ \<Rightarrow> (m, False))"

definition omap_erase :: "'k \<Rightarrow> ('k, 'v) omap \<Rightarrow> ('k, 'v) omap" where
  "omap_erase k m = filter (\<lambda>(k', _). k' \<noteq> k) m"

text \<open>\<open>omap_upper k\<close> splits the map at \<^verbatim>\<open>m.upper_bound(k)\<close>: the entries before it and those from it on; \<open>omap_lower\<close> at \<^verbatim>\<open>m.lower_bound(k)\<close>.\<close>

definition omap_upper :: "'k :: linorder \<Rightarrow> ('k, 'v) omap \<Rightarrow> ('k, 'v) omap \<times> ('k, 'v) omap" where
  "omap_upper k m = (takeWhile (\<lambda>(k', _). k' \<le> k) m, dropWhile (\<lambda>(k', _). k' \<le> k) m)"

definition omap_lower :: "'k :: linorder \<Rightarrow> ('k, 'v) omap \<Rightarrow> ('k, 'v) omap \<times> ('k, 'v) omap" where
  "omap_lower k m = (takeWhile (\<lambda>(k', _). k' < k) m, dropWhile (\<lambda>(k', _). k' < k) m)"

section \<open>The laws of a finite map\<close>

text \<open>What clients of a map rely on.\<close>

locale finite_map_ops =
  fixes wf :: "'m \<Rightarrow> bool" and lookup :: "'m \<Rightarrow> 'k \<Rightarrow> 'v option" and emp :: 'm
    and upd :: "'k \<Rightarrow> 'v \<Rightarrow> 'm \<Rightarrow> 'm" and del :: "'k \<Rightarrow> 'm \<Rightarrow> 'm"
  assumes wf_emp: "wf emp" and wf_upd: "wf m \<Longrightarrow> wf (upd k v m)" and wf_del: "wf m \<Longrightarrow> wf (del k m)"
    and lookup_emp: "lookup emp k = None"
    and lookup_upd: "wf m \<Longrightarrow> lookup (upd k v m) = (lookup m)(k \<mapsto> v)"
    and lookup_del: "wf m \<Longrightarrow> lookup (del k m) = (lookup m)(k := None)"
begin

definition ins :: "'k \<Rightarrow> 'v \<Rightarrow> 'm \<Rightarrow> 'm \<times> bool" where
  "ins k v m = (case lookup m k of None \<Rightarrow> (upd k v m, True) | Some _ \<Rightarrow> (m, False))"

lemma ins_keeps:
  assumes "wf m" and "lookup m k' = Some v'"
  shows "lookup (fst (ins k v m)) k' = Some v'"
  using assms by (auto simp: ins_def lookup_upd split: option.splits)

lemma ins_wf: "wf m \<Longrightarrow> wf (fst (ins k v m))"
  by (simp add: ins_def wf_upd split: option.splits)

lemma ins_fresh: "wf m \<Longrightarrow> snd (ins k v m) \<longleftrightarrow> lookup m k = None"
  by (simp add: ins_def split: option.splits)

lemma ins_lookup:
  "wf m \<Longrightarrow> lookup (fst (ins k v m)) = (if lookup m k = None then (lookup m)(k \<mapsto> v) else lookup m)"
  by (auto simp: ins_def lookup_upd split: option.splits)

end

lemma omap_wf_Nil [simp]: "omap_wf []"
  by (simp add: omap_wf_def)

lemma omap_wf_Cons: "omap_wf ((k, v) # m) \<longleftrightarrow> (\<forall>k' \<in> fst ` set m. k < k') \<and> omap_wf m"
  by (auto simp: omap_wf_def)

lemma omap_wf_distinct: "omap_wf m \<Longrightarrow> distinct (map fst m)"
  unfolding omap_wf_def using strict_sorted_iff by blast

lemma set_omap_set: "fst ` set (omap_set k v m) = insert k (fst ` set m)"
  by (induction k v m rule: omap_set.induct) auto

lemma omap_wf_set: "omap_wf m \<Longrightarrow> omap_wf (omap_set k v m)"
  by (induction k v m rule: omap_set.induct) (force simp: omap_wf_Cons set_omap_set)+

lemma omap_wf_filter: "omap_wf m \<Longrightarrow> omap_wf (filter P m)"
  by (induction m) (auto simp: omap_wf_Cons)

lemma map_of_omap_set: "omap_wf m \<Longrightarrow> map_of (omap_set k v m) = (map_of m)(k \<mapsto> v)"
proof (induction k v m rule: omap_set.induct)
  case (2 k v k' v' m)
  then have "k < k' \<Longrightarrow> k \<notin> fst ` set m" by (auto simp: omap_wf_Cons)
  with 2 show ?case by (auto simp: omap_wf_Cons fun_eq_iff)
qed simp

lemma map_of_omap_erase: "map_of (omap_erase k m) = (map_of m)(k := None)"
  by (induction m) (auto simp: omap_erase_def fun_eq_iff)

interpretation omap: finite_map_ops omap_wf map_of "[] :: ('k :: linorder, 'v) omap" omap_set omap_erase
  by unfold_locales (simp_all add: omap_wf_set map_of_omap_set map_of_omap_erase, simp add: omap_erase_def omap_wf_filter)

lemma omap_insert_ins: "omap_insert = omap.ins"
  by (intro ext) (simp add: omap_insert_def omap.ins_def)

lemmas omap_insert_wf = omap.ins_wf [folded omap_insert_ins]
lemmas omap_insert_keeps = omap.ins_keeps [folded omap_insert_ins]
lemmas omap_insert_fresh = omap.ins_fresh [folded omap_insert_ins]
lemmas omap_insert_lookup = omap.ins_lookup [folded omap_insert_ins]

section \<open>Order\<close>

lemma omap_last_greatest:
  assumes "omap_wf m" and "m \<noteq> []"
  shows "fst (last m) \<in> fst ` set m" and "k \<in> fst ` set m \<Longrightarrow> k \<le> fst (last m)"
  using assms by (simp, induction m) (force simp: omap_wf_Cons less_imp_le)+

lemma omap_upper_split:
  assumes "omap_wf m"
  shows "set (fst (omap_upper k m)) = {e \<in> set m. fst e \<le> k}" and "set (snd (omap_upper k m)) = {e \<in> set m. k < fst e}"
    and "omap_wf (fst (omap_upper k m))"
proof -
  have "takeWhile (\<lambda>(k', _). k' \<le> k) m = filter (\<lambda>(k', _). k' \<le> k) m
      \<and> dropWhile (\<lambda>(k', _). k' \<le> k) m = filter (\<lambda>(k', _). k < k') m" using assms
  proof (induction m)
    case (Cons e m)
    obtain a b where e: "e = (a, b)" by force
    show ?case
    proof (cases "a \<le> k")
      case True
      then show ?thesis using Cons e by (simp add: omap_wf_Cons not_less)
    next
      case False
      then have "filter (\<lambda>(k', _). k' \<le> k) m = []" "filter (\<lambda>(k', _). k < k') m = m"
        using Cons.prems e by (auto simp: omap_wf_Cons filter_empty_conv filter_id_conv dest!: bspec)
      then show ?thesis using False e by simp
    qed
  qed simp
  then show "set (fst (omap_upper k m)) = {e \<in> set m. fst e \<le> k}"
    and "set (snd (omap_upper k m)) = {e \<in> set m. k < fst e}" and "omap_wf (fst (omap_upper k m))"
    using assms by (auto simp: omap_upper_def omap_wf_filter)
qed

lemma omap_upper_nil: "omap_wf m \<Longrightarrow> fst (omap_upper k m) = [] \<longleftrightarrow> (\<forall>k' \<in> fst ` set m. k < k')"
  unfolding set_empty [symmetric] by (auto simp: omap_upper_split(1) not_le)

end
