(* ===== verification/TextNumbers.thy ===== *)
theory TextNumbers
  imports Prelude
begin

text \<open>
  Numbers and lines in text, as the standard library reads and prints them: \<^verbatim>\<open>std::getline\<close>, \<^verbatim>\<open>std::stoi\<close>, \<^verbatim>\<open>std::to_string\<close> and stream
  extraction of unsigned numbers. Printing and reading decimal numbers are inverse.
\<close>

unbundle bit_operations_syntax

section \<open>Reading numbers and lines\<close>

text \<open>
  The parts of the standard library that the loaders use, in the C locale: \<^verbatim>\<open>std::getline\<close> on a stream (its
  remaining bytes and whether it is still good; the result is the line, \<open>None\<close> when the call fails),
  \<^verbatim>\<open>std::stoi\<close>, and extraction of an unsigned 32-bit number followed by a test for the end of the stream.
\<close>

definition getline :: "u8 \<Rightarrow> bytes \<times> bool \<Rightarrow> bytes option \<times> (bytes \<times> bool)" where
  "getline delim st =
     (case st of (bs, good) \<Rightarrow>
        if \<not> good then (None, (bs, False))
        else (case dropWhile (\<lambda>b. b \<noteq> delim) bs of
                [] \<Rightarrow> ((if bs = [] then None else Some bs), ([], False))
              | _ # rest \<Rightarrow> (Some (takeWhile (\<lambda>b. b \<noteq> delim) bs), (rest, True))))"

definition isspace :: "u8 \<Rightarrow> bool" where
  "isspace b \<longleftrightarrow> b = 32 \<or> 9 \<le> b \<and> b \<le> 13"

definition isdigit :: "u8 \<Rightarrow> bool" where
  "isdigit b \<longleftrightarrow> 48 \<le> b \<and> b \<le> 57"

definition decimal :: "bytes \<Rightarrow> nat" where
  "decimal ds = foldl (\<lambda>n b. 10 * n + (unat b - 48)) 0 ds"

definition read_sign :: "bytes \<Rightarrow> bool \<times> bytes" where
  "read_sign bs = (case bs of [] \<Rightarrow> (False, []) | b # r \<Rightarrow> if b = 45 then (True, r) else if b = 43 then (False, r) else (False, bs))"

definition stoi :: "bytes \<Rightarrow> int result" where
  "stoi str =
     (let (neg, r) = read_sign (dropWhile isspace str);
          ds = takeWhile isdigit r;
          n = (if neg then - int (decimal ds) else int (decimal ds))
      in if ds = [] then Inl InvalidArgument
         else if n < - (2 ^ 31) \<or> 2 ^ 31 \<le> n then Inl OutOfRange
         else Inr n)"

definition parse_uint32 :: "bytes \<Rightarrow> u32 option" where
  "parse_uint32 str =
     (let (neg, r) = read_sign (dropWhile isspace str);
          ds = takeWhile isdigit r;
          n = decimal ds
      in if ds = [] \<or> 2 ^ 32 \<le> n \<or> ds \<noteq> r then None
         else Some (if neg then - word_of_nat n else word_of_nat n))"

text \<open>\<^verbatim>\<open>std::to_string\<close> of an unsigned number, and extraction of an unsigned 64-bit number from a stream.\<close>

fun to_decimal :: "nat \<Rightarrow> bytes" where
  "to_decimal n = (if n < 10 then [word_of_nat (48 + n)] else to_decimal (n div 10) @ [word_of_nat (48 + n mod 10)])"

declare to_decimal.simps [simp del]

definition to_string :: "u64 \<Rightarrow> bytes" where
  "to_string v = to_decimal (unat v)"

definition fromString :: "bytes \<Rightarrow> u64 option" where
  "fromString str =
     (let (neg, r) = read_sign (dropWhile isspace str);
          ds = takeWhile isdigit r;
          n = decimal ds
      in if ds = [] \<or> 2 ^ 64 \<le> n then None
         else Some (if neg then - word_of_nat n else word_of_nat n))"

lemma digit_char: "n < 10 \<Longrightarrow> isdigit (word_of_nat (48 + n)) \<and> unat (word_of_nat (48 + n) :: u8) = 48 + n"
  by (simp add: isdigit_def word_le_nat_alt unat_of_nat del: of_nat_add)

lemma decimal_append: "decimal (xs @ [b]) = 10 * decimal xs + (unat b - 48)"
  by (simp add: decimal_def)

lemma decimal_to_decimal: "decimal (to_decimal n) = n"
proof (induction n rule: to_decimal.induct)
  case (1 n)
  show ?case
  proof (cases "n < 10")
    case True
    then show ?thesis using digit_char [of n] by (subst to_decimal.simps) (simp add: decimal_def)
  next
    case False
    then show ?thesis using 1 digit_char [of "n mod 10"]
      by (subst to_decimal.simps) (simp add: decimal_append del: of_nat_add)
  qed
qed

lemma to_decimal_digits: "to_decimal n \<noteq> [] \<and> list_all isdigit (to_decimal n)"
proof (induction n rule: to_decimal.induct)
  case (1 n)
  then show ?case using digit_char [of n] digit_char [of "n mod 10"]
    by (subst (1 2) to_decimal.simps) (simp del: of_nat_add)
qed

lemma decimal_leading_zeros: "decimal (replicate k 48 @ ds) = decimal ds"
  by (induction k) (simp_all add: decimal_def)

lemma isdigit_props: "isdigit b \<Longrightarrow> \<not> isspace b \<and> b \<noteq> 45 \<and> b \<noteq> 43 \<and> b \<noteq> 46"
  by (auto simp: isdigit_def isspace_def word_le_nat_alt)

lemma fromString_digits:
  assumes "list_all isdigit ds" and "ds \<noteq> []" and "decimal ds < 2 ^ 64"
  shows "fromString ds = Some (word_of_nat (decimal ds))"
proof -
  obtain b r where ds: "ds = b # r" using assms(2) by (cases ds) auto
  then have dw: "dropWhile isspace ds = ds" and rs: "read_sign ds = (False, ds)"
    using assms(1) isdigit_props [of b] by (simp_all add: read_sign_def)
  have tw: "takeWhile isdigit ds = ds" using assms(1) by (simp add: list_all_iff)
  show ?thesis unfolding fromString_def dw rs Let_def prod.case tw using assms(2,3) by simp
qed

end
