(* ===== verification/Checkpoints.thy ===== *)
theory Checkpoints
  imports OrderedMap TextNumbers StringTools Config
begin

text \<open>
  Checkpoints of the block chain: \<^verbatim>\<open>lib/CryptoNoteCore/Checkpoints.cpp\<close>. The state is the map \<^verbatim>\<open>m_points\<close>; the loaders take the contents of the file and the DNS records as arguments.
\<close>

unbundle bit_operations_syntax

section \<open>Checkpoints\<close>

type_synonym Checkpoints = "(u32, hash) omap"

definition CRYPTONOTE_MINED_MONEY_UNLOCK_WINDOW :: u64 where
  "CRYPTONOTE_MINED_MONEY_UNLOCK_WINDOW = 60"

definition add_checkpoint :: "u32 \<Rightarrow> bytes \<Rightarrow> Checkpoints \<Rightarrow> Checkpoints \<times> bool" where
  "add_checkpoint height hash_str m_points =
     (case podFromHex hash_str 32 of
        None \<Rightarrow> (m_points, False)
      | Some h \<Rightarrow>
          (case omap_insert height h m_points of
             (m_points', False) \<Rightarrow> (m_points', False)
           | (m_points', True) \<Rightarrow> (omap_set height h m_points', True)))"

text \<open>
  The loop of \<^verbatim>\<open>load_checkpoints_from_file\<close> on the contents of the file. An index that is not a number makes it
  return \<^verbatim>\<open>false\<close>, one outside the range of \<^verbatim>\<open>int\<close> escapes as an exception.
\<close>

lemma getline_length:
  assumes "getline d (bs, g) = (l, (rest, g'))"
  shows "length rest \<le> length bs" and "g' \<Longrightarrow> length rest < length bs" and "l \<noteq> None \<Longrightarrow> g"
proof -
  have "length (dropWhile (\<lambda>b. b \<noteq> d) bs) \<le> length bs" by (rule length_dropWhile_le)
  then show "length rest \<le> length bs" and "g' \<Longrightarrow> length rest < length bs" and "l \<noteq> None \<Longrightarrow> g"
    using assms by (auto simp: getline_def split: if_splits list.splits)
qed

function load_loop :: "bytes \<times> bool \<Rightarrow> Checkpoints \<Rightarrow> Checkpoints \<times> bool result" where
  "load_loop st m_points =
     (let (indexString, st1) = getline 44 st;
          (hash, st2) = getline 10 st1
      in case hash of
           None \<Rightarrow> (m_points, Inr True)
         | Some hash_str \<Rightarrow>
             (case stoi (case indexString of None \<Rightarrow> [] | Some s \<Rightarrow> s) of
                Inl InvalidArgument \<Rightarrow> (m_points, Inr False)
              | Inl e \<Rightarrow> (m_points, Inl e)
              | Inr n \<Rightarrow>
                  (case add_checkpoint (word_of_int n) hash_str m_points of
                     (m_points', False) \<Rightarrow> (m_points', Inr False)
                   | (m_points', True) \<Rightarrow> load_loop st2 m_points')))"
  by pat_completeness auto
termination
proof (relation "measure (\<lambda>((bs, g), m). length bs)", goal_cases)
  case (2 st m_points x indexString st1 y hash st2 hash_str n m_points' ok)
  obtain bs g bs1 g1 bs2 g2 where st: "st = (bs, g)" "st1 = (bs1, g1)" "st2 = (bs2, g2)" by (metis surj_pair)
  have "g1" using 2 st getline_length(3) [of 10 bs1 g1 hash bs2 g2] by simp
  then have "length bs1 < length bs" using 2 st getline_length(2) [of 44 bs g indexString bs1 g1] by simp
  moreover have "length bs2 \<le> length bs1" using 2 st getline_length(1) [of 10 bs1 g1 hash bs2 g2] by simp
  ultimately show ?case using st by simp
qed simp

declare load_loop.simps [simp del]

text \<open>\<open>None\<close> for a file that cannot be opened.\<close>

definition load_checkpoints_from_file :: "bytes option \<Rightarrow> Checkpoints \<Rightarrow> Checkpoints \<times> bool result" where
  "load_checkpoints_from_file file m_points =
     (case file of None \<Rightarrow> (m_points, Inr False) | Some contents \<Rightarrow> load_loop (contents, True) m_points)"

definition is_in_checkpoint_zone :: "Checkpoints \<Rightarrow> u32 \<Rightarrow> bool" where
  "is_in_checkpoint_zone m_points height \<longleftrightarrow> m_points \<noteq> [] \<and> height \<le> fst (last m_points)"

text \<open>The verdict and the out parameter \<^verbatim>\<open>is_a_checkpoint\<close>.\<close>

definition check_block :: "Checkpoints \<Rightarrow> u32 \<Rightarrow> hash \<Rightarrow> bool \<times> bool" where
  "check_block m_points height h =
     (case map_of m_points height of None \<Rightarrow> (True, False) | Some h' \<Rightarrow> (h' = h, True))"

definition is_alternative_block_allowed :: "Checkpoints \<Rightarrow> u32 \<Rightarrow> u32 \<Rightarrow> bool" where
  "is_alternative_block_allowed m_points blockchain_height block_height =
     (if block_height = 0 then False
      else if (ucast block_height :: u64) < ucast blockchain_height - CRYPTONOTE_MINED_MONEY_UNLOCK_WINDOW
           \<and> \<not> is_in_checkpoint_zone m_points block_height then False
      else (let before = fst (omap_upper blockchain_height m_points)
            in if before = [] then True else fst (last before) < block_height))"

definition getCheckpointHeights :: "Checkpoints \<Rightarrow> u32 list" where
  "getCheckpointHeights m_points = map fst m_points"

text \<open>
  One record of \<^verbatim>\<open>load_checkpoints_from_dns\<close>; the records are what \<^verbatim>\<open>fetch_dns_txt\<close> stored, whether or not it
  reported success. A record without a colon is skipped.
\<close>

definition add_dns_record :: "bytes \<Rightarrow> Checkpoints \<Rightarrow> Checkpoints" where
  "add_dns_record record m_points =
     (case dropWhile (\<lambda>b. b \<noteq> 58) record of
        [] \<Rightarrow> m_points
      | _ # after \<Rightarrow>
          (let height_str = takeWhile (\<lambda>b. b \<noteq> 58) record; hash_str = take 64 after
           in case (parse_uint32 height_str, podFromHex hash_str 32) of
                (Some height, Some _) \<Rightarrow>
                  (if map_of m_points height \<noteq> None then m_points else fst (add_checkpoint height hash_str m_points))
              | _ \<Rightarrow> m_points))"

definition load_checkpoints_from_dns :: "bytes list \<Rightarrow> Checkpoints \<Rightarrow> Checkpoints \<times> bool" where
  "load_checkpoints_from_dns records m_points = (fold add_dns_record records m_points, True)"

section \<open>Checkpoints are well formed and never change\<close>

definition checkpoints_wf :: "Checkpoints \<Rightarrow> bool" where
  "checkpoints_wf m \<longleftrightarrow> omap_wf m \<and> list_all (\<lambda>(_, h). wf_hash h) m"

text \<open>The heights that have a checkpoint keep it, and what is added is well formed.\<close>

definition extends :: "Checkpoints \<Rightarrow> Checkpoints \<Rightarrow> bool" where
  "extends m m' \<longleftrightarrow> checkpoints_wf m \<longrightarrow> checkpoints_wf m' \<and> map_of m \<subseteq>\<^sub>m map_of m'"

lemma extends_refl [simp]: "extends m m"
  by (simp add: extends_def)

lemma extends_trans: "extends m1 m2 \<Longrightarrow> extends m2 m3 \<Longrightarrow> extends m1 m3"
  by (auto simp: extends_def intro: map_le_trans)

lemma omap_set_in: "e \<in> set (omap_set k v m) \<Longrightarrow> e = (k, v) \<or> e \<in> set m"
  by (induction k v m rule: omap_set.induct) (auto split: if_splits)

lemma omap_set_same: "map_of m k = Some v \<Longrightarrow> omap_wf m \<Longrightarrow> omap_set k v m = m"
  by (induction k v m rule: omap_set.induct) (force simp: omap_wf_Cons dest: map_of_SomeD split: if_splits)+

lemma add_checkpoint_eq:
  assumes "omap_wf m"
  shows "add_checkpoint height s m =
    (case podFromHex s 32 of
       None \<Rightarrow> (m, False)
     | Some h \<Rightarrow> if map_of m height = None then (omap_set height h m, True) else (m, False))"
  using assms omap_set_same [of "omap_set height h m" height h for h]
  by (auto simp: add_checkpoint_def omap_insert_def omap_wf_set map_of_omap_set split: option.splits)

lemma extends_add_checkpoint: "extends m (fst (add_checkpoint height s m))"
proof -
  have "wf_hash h" if "podFromHex s 32 = Some h" for h using that by (simp add: podFromHex_iff wf_hash_def)
  then show ?thesis
    by (auto simp: extends_def checkpoints_wf_def add_checkpoint_eq omap_wf_set map_of_omap_set list_all_iff
        map_le_def dest!: omap_set_in split: option.splits)
qed

lemma extends_load_loop: "extends m (fst (load_loop st m))"
proof (induction st m rule: load_loop.induct)
  case (1 st m)
  obtain i st1 h st2 where g: "getline 44 st = (i, st1)" "getline 10 st1 = (h, st2)" by (metis surj_pair)
  show ?case
  proof (cases h)
    case None
    then show ?thesis using g by (simp add: load_loop.simps [of st m])
  next
    case (Some hs)
    show ?thesis
    proof (cases "stoi (case i of None \<Rightarrow> [] | Some s \<Rightarrow> s)")
      case (Inl e)
      then show ?thesis using g Some by (cases e) (simp_all add: load_loop.simps [of st m])
    next
      case (Inr n)
      obtain m' ok where a: "add_checkpoint (word_of_int n) hs m = (m', ok)" by force
      have "extends m m'" using extends_add_checkpoint [of m "word_of_int n" hs] a by simp
      moreover have "ok \<Longrightarrow> extends m' (fst (load_loop st2 m'))"
        using "1.IH" [of "(i, st1)" i st1 "(h, st2)" h st2 hs n m' True] g Some Inr a by simp
      ultimately show ?thesis using g Some Inr a extends_trans
        by (cases ok) (auto simp: load_loop.simps [of st m])
    qed
  qed
qed

lemma extends_dns: "extends m (fold add_dns_record rs m)"
proof (induction rs arbitrary: m)
  case (Cons r rs)
  have "extends m (add_dns_record r m)"
    by (auto simp: add_dns_record_def Let_def extends_add_checkpoint split: list.splits option.splits)
  then show ?case using Cons extends_trans by fastforce
qed simp

lemma zone_iff: "checkpoints_wf m \<Longrightarrow> is_in_checkpoint_zone m height \<longleftrightarrow> (\<exists>k \<in> dom (map_of m). height \<le> k)"
  using omap_last_greatest [of m]
  by (cases "m = []") (auto simp: is_in_checkpoint_zone_def checkpoints_wf_def dom_map_of_conv_image_fst intro: order.trans)

lemma alternative_iff:
  assumes "checkpoints_wf m"
  shows "is_alternative_block_allowed m bh h \<longleftrightarrow>
    h \<noteq> 0 \<and> \<not> ((ucast h :: u64) < ucast bh - 60 \<and> \<not> is_in_checkpoint_zone m h) \<and>
    (\<forall>k \<in> dom (map_of m). k \<le> bh \<longrightarrow> k < h)"
proof -
  let ?b = "fst (omap_upper bh m)"
  have wf: "omap_wf m" using assms by (simp add: checkpoints_wf_def)
  have b: "fst ` set ?b = {k \<in> dom (map_of m). k \<le> bh}"
    by (force simp: omap_upper_split(1) [OF wf] dom_map_of_conv_image_fst)
  have "(if ?b = [] then True else fst (last ?b) < h) \<longleftrightarrow> (\<forall>k \<in> fst ` set ?b. k < h)"
    using omap_last_greatest [OF omap_upper_split(3) [OF wf, of bh]] by (auto intro: le_less_trans)
  also have "\<dots> \<longleftrightarrow> (\<forall>k \<in> dom (map_of m). k \<le> bh \<longrightarrow> k < h)" unfolding b by blast
  finally show ?thesis
    by (simp add: is_alternative_block_allowed_def CRYPTONOTE_MINED_MONEY_UNLOCK_WINDOW_def Let_def)
qed

text \<open>
  C14: whatever sequence of loads and additions is made after a set of checkpoints was well formed, every
  checkpoint it had stays, with its hash; so \<^verbatim>\<open>check_block\<close> accepts at such a height only the hash that was
  there first, and the map stays well formed.
\<close>

theorem checkpoints_immutable:
  assumes "checkpoints_wf m" and "map_of m height = Some h"
    and "m' \<in> {fst (add_checkpoint k s m), fst (load_checkpoints_from_file f m), fst (load_checkpoints_from_dns rs m)}"
  shows "checkpoints_wf m' \<and> (\<forall>h'. check_block m' height h' = (h' = h, True))"
proof -
  have "extends m m'"
    using assms(3) extends_add_checkpoint extends_dns
    by (auto simp: load_checkpoints_from_file_def load_checkpoints_from_dns_def extends_load_loop split: option.splits)
  then have "checkpoints_wf m'" "map_of m' height = Some h"
    using assms(1,2) by (auto simp: extends_def map_le_def dest!: bspec [of _ _ height])
  then show ?thesis by (auto simp: check_block_def)
qed

theorem checkpoints_immutable_witness:
  "check_block (fst (add_checkpoint 5 [] [(3, replicate 32 1)])) 3 (replicate 32 1) = (True, True)"
  using checkpoints_immutable [of "[(3, replicate 32 1)]" 3 "replicate 32 1" _ 5 "[]" None "[]"]
  by (simp add: checkpoints_wf_def omap_wf_def wf_hash_def)



end
