(* ===== verification/BlockIndex.thy ===== *)
theory BlockIndex
  imports Serialization
begin

text \<open>
  The index of block hashes by height: \<^verbatim>\<open>lib/CryptoNoteCore/BlockIndex.cpp\<close> and its header. The random-access and hashed views of the container are one list without duplicates. A call outside a function's precondition (an assertion of the code, or popping an empty container) is \<open>None\<close>.
\<close>

unbundle bit_operations_syntax

section \<open>Operations\<close>

type_synonym BlockIndex = "hash list"

definition bi_pop :: "BlockIndex \<Rightarrow> BlockIndex option" where
  "bi_pop c = (if c = [] then None else Some (butlast c))"

definition bi_push :: "hash \<Rightarrow> BlockIndex \<Rightarrow> BlockIndex \<times> bool" where
  "bi_push h c = (if h \<in> set c then (c, False) else (c @ [h], True))"

definition hasBlock :: "BlockIndex \<Rightarrow> hash \<Rightarrow> bool" where
  "hasBlock c h \<longleftrightarrow> h \<in> set c"

fun index_of :: "'a \<Rightarrow> 'a list \<Rightarrow> nat option" where
  "index_of h [] = None"
| "index_of h (x # xs) = (if x = h then Some 0 else map_option Suc (index_of h xs))"

definition getBlockHeight :: "BlockIndex \<Rightarrow> hash \<Rightarrow> u32 option" where
  "getBlockHeight c h = map_option word_of_nat (index_of h c)"

definition bi_size :: "BlockIndex \<Rightarrow> u32" where
  "bi_size c = word_of_nat (length c)"

definition bi_clear :: "BlockIndex \<Rightarrow> BlockIndex" where
  "bi_clear c = []"

definition getBlockId :: "BlockIndex \<Rightarrow> u32 \<Rightarrow> hash option" where
  "getBlockId c height = (if unat height < length c then Some (c ! unat height) else None)"

definition getBlockIds :: "BlockIndex \<Rightarrow> u32 \<Rightarrow> u32 \<Rightarrow> hash list" where
  "getBlockIds c startBlockIndex maxCount =
     (if length c \<le> unat startBlockIndex then []
      else (let count = min (unat maxCount) (length c - unat startBlockIndex)
            in map (\<lambda>i. c ! (unat startBlockIndex + i)) [0..<count]))"

fun findSupplement :: "BlockIndex \<Rightarrow> hash list \<Rightarrow> u32 option" where
  "findSupplement c [] = None"
| "findSupplement c (h # ids) = (case getBlockHeight c h of Some offset \<Rightarrow> Some offset | None \<Rightarrow> findSupplement c ids)"

text \<open>
  The doubling loop of \<^verbatim>\<open>buildSparseChain\<close>. The counter starts at 1 and stays below 2 to the 34, so it does not wrap
  in a \<^verbatim>\<open>size_t\<close>.
\<close>

function sparse_loop :: "BlockIndex \<Rightarrow> nat \<Rightarrow> nat \<Rightarrow> hash list" where
  "sparse_loop c sparseChainEnd i =
     (if 0 < i \<and> i \<le> sparseChainEnd then c ! (sparseChainEnd - i) # sparse_loop c sparseChainEnd (i * 2) else [])"
  by pat_completeness auto
termination
  by (relation "measure (\<lambda>(c, e, i). Suc e - i)") auto

declare sparse_loop.simps [simp del]

definition buildSparseChain :: "BlockIndex \<Rightarrow> hash \<Rightarrow> hash list option" where
  "buildSparseChain c startBlockId =
     (case getBlockHeight c startBlockId of
        None \<Rightarrow> None
      | Some startBlockHeight \<Rightarrow>
          (let result = sparse_loop c (unat (startBlockHeight + 1)) 1
           in if result = [] then None
              else Some (if last result \<noteq> c ! 0 then result @ [c ! 0] else result)))"

definition getTailId :: "BlockIndex \<Rightarrow> hash option" where
  "getTailId c = (if c = [] then None else Some (last c))"

definition put_BlockIndex :: "BlockIndex \<Rightarrow> bytes" where
  "put_BlockIndex c = put_vector put_binary c"

definition get_BlockIndex :: "BlockIndex \<Rightarrow> BlockIndex reader" where
  "get_BlockIndex c =
     rbind get_size (\<lambda>n. rbind (rrepeat n (get_binary 32)) (\<lambda>hs. rret (fold (\<lambda>h c. fst (bi_push h c)) hs c)))"

section \<open>The index is a bijection of heights and hashes\<close>

definition bi_inv :: "BlockIndex \<Rightarrow> bool" where
  "bi_inv c \<longleftrightarrow> distinct c \<and> list_all wf_hash c"

lemma index_of_Some: "index_of h c = Some i \<Longrightarrow> i < length c \<and> c ! i = h"
  by (induction c arbitrary: i) (auto split: if_splits)

lemma index_of_None: "index_of h c = None \<longleftrightarrow> h \<notin> set c"
  by (induction c) auto

lemma index_of_nth: "distinct c \<Longrightarrow> i < length c \<Longrightarrow> index_of (c ! i) c = Some i"
proof (induction c arbitrary: i)
  case (Cons x c)
  then show ?case by (cases i) auto
qed simp

lemma bi_inv_push: "bi_inv c \<Longrightarrow> wf_hash h \<Longrightarrow> bi_inv (fst (bi_push h c))"
  by (simp add: bi_inv_def bi_push_def)

lemma bi_inv_pop: "bi_inv c \<Longrightarrow> bi_pop c = Some c' \<Longrightarrow> bi_inv c'"
  by (auto simp: bi_inv_def bi_pop_def distinct_butlast list_all_iff dest: in_set_butlastD split: if_splits)

lemma fold_push_inv: "bi_inv c \<Longrightarrow> list_all wf_hash hs \<Longrightarrow> bi_inv (fold (\<lambda>h c. fst (bi_push h c)) hs c)"
  by (induction hs arbitrary: c) (simp_all add: bi_inv_push)

lemma fold_push_fresh:
  "distinct (c @ hs) \<Longrightarrow> fold (\<lambda>h c. fst (bi_push h c)) hs c = c @ hs"
  by (induction hs arbitrary: c) (simp_all add: bi_push_def)

lemma repeat_hashes: "rrepeat n (get_binary 32) bs = Inr (hs, rest) \<Longrightarrow> list_all wf_hash hs"
  by (simp add: key_codec.repeat_iff wf_hash_def list_all_iff)

lemma bi_inv_read: "bi_inv c \<Longrightarrow> get_BlockIndex c bs = Inr (c', rest) \<Longrightarrow> bi_inv c'"
  by (auto simp: get_BlockIndex_def rbind_eq_Inr_iff intro: fold_push_inv repeat_hashes)

lemma getBlockHeight_iff:
  assumes "distinct c" and "length c \<le> 2 ^ 32"
  shows "getBlockHeight c h = Some height \<longleftrightarrow> getBlockId c height = Some h"
proof
  assume "getBlockHeight c h = Some height"
  then obtain i where "index_of h c = Some i" "height = word_of_nat i" by (auto simp: getBlockHeight_def)
  then show "getBlockId c height = Some h"
    using index_of_Some [of h c i] assms(2) by (simp add: getBlockId_def unat_of_nat)
next
  assume "getBlockId c height = Some h"
  then have "index_of h c = Some (unat height)"
    using index_of_nth [OF assms(1)] by (auto simp: getBlockId_def split: if_splits)
  then show "getBlockHeight c h = Some height" by (simp add: getBlockHeight_def)
qed

text \<open>
  C16: pushing, popping, clearing and reading keep the hashes distinct and 32 bytes long; for such an index a hash
  has the height \<open>height\<close> exactly when the block at \<open>height\<close> has that hash, a push is refused exactly for a known hash, and
  reading what was written gives the index back.
\<close>

theorem block_index_bijection:
  assumes "bi_inv c" and "length c < 2 ^ 32"
  shows "(wf_hash h \<longrightarrow> bi_inv (fst (bi_push h c))) \<and> (\<forall>c'. bi_pop c = Some c' \<longrightarrow> bi_inv c') \<and>
    (\<forall>bs c' rest. get_BlockIndex c bs = Inr (c', rest) \<longrightarrow> bi_inv c') \<and>
    (getBlockHeight c h = Some height \<longleftrightarrow> getBlockId c height = Some h) \<and>
    (snd (bi_push h c) \<longleftrightarrow> getBlockHeight c h = None) \<and>
    get_BlockIndex (bi_clear c) (put_BlockIndex c @ rest) = Inr (c, rest)"
proof -
  have "rrepeat (length c) (get_binary 32) (concat (map put_binary c) @ rest) = Inr (c, rest)"
    using assms(1) by (simp add: key_codec.repeat_iff bi_inv_def wf_hash_def list_all_iff)
  moreover have sz: "get_size (put_size (length c) @ ys) = Inr (length c, ys)" for ys
    using assms(2) by (simp add: put_get_size)
  ultimately have "get_BlockIndex [] (put_BlockIndex c @ rest) = Inr (c, rest)"
    using assms fold_push_fresh [of "[]" c] sz
    by (simp add: get_BlockIndex_def put_BlockIndex_def put_vector_def rbind_def bi_inv_def)
  then have "get_BlockIndex (bi_clear c) (put_BlockIndex c @ rest) = Inr (c, rest)" by (simp add: bi_clear_def)
  moreover have "snd (bi_push h c) \<longleftrightarrow> getBlockHeight c h = None"
    by (simp add: bi_push_def getBlockHeight_def index_of_None)
  moreover have "getBlockHeight c h = Some height \<longleftrightarrow> getBlockId c height = Some h"
    using assms by (intro getBlockHeight_iff) (simp_all add: bi_inv_def)
  ultimately show ?thesis
    using bi_inv_push [OF assms(1)] bi_inv_pop [OF assms(1)] bi_inv_read [OF assms(1)] by blast
qed

theorem block_index_bijection_witness:
  "getBlockHeight [replicate 32 1, replicate 32 2] (replicate 32 2) = Some 1"
  using block_index_bijection [of "[replicate 32 1, replicate 32 2]" "replicate 32 2" 1 "[]"]
  by (simp add: bi_inv_def wf_hash_def getBlockId_def)

section \<open>Sparse chains\<close>

lemma sparse_loop_in: "h \<in> set (sparse_loop c e i) \<Longrightarrow> \<exists>j < e. h = c ! j"
proof (induction c e i rule: sparse_loop.induct)
  case (1 c e i)
  then show ?case by (auto simp: sparse_loop.simps [of c e i] split: if_splits intro: exI [of _ "e - i"])
qed

text \<open>
  Along the loop the first entry below a bound \<open>p\<close> is at less than twice the distance of \<open>p\<close> from the end.
\<close>

lemma findSupplement_append:
  "findSupplement d (xs @ ys) = (case findSupplement d xs of Some x \<Rightarrow> Some x | None \<Rightarrow> findSupplement d ys)"
  by (induction xs) (auto split: option.splits)

lemma findSupplement_loop:
  assumes common: "\<And>j. j < p \<Longrightarrow> getBlockHeight d (c ! j) = Some (word_of_nat j)"
    and fork: "\<And>j. p \<le> j \<Longrightarrow> j < e \<Longrightarrow> getBlockHeight d (c ! j) = None"
  shows "0 < i \<Longrightarrow> i \<le> e \<Longrightarrow> p \<le> e \<Longrightarrow> i \<le> 2 * (e + 1 - p) - 1 \<Longrightarrow>
    (\<exists>j. j < p \<and> e - j \<le> 2 * (e + 1 - p) - 1 \<and> findSupplement d (sparse_loop c e i) = Some (word_of_nat j)) \<or>
    (findSupplement d (sparse_loop c e i) = None \<and> e \<le> 2 * (e + 1 - p) - 1)"
proof (induction i rule: measure_induct_rule [where f = "\<lambda>i. e - i"])
  case (less i)
  show ?case
  proof (cases "e - i < p")
    case True
    then show ?thesis using less.prems common [of "e - i"]
      by (intro disjI1 exI [of _ "e - i"]) (simp add: sparse_loop.simps [of c e i])
  next
    case False
    then have skip: "findSupplement d (sparse_loop c e i) = findSupplement d (sparse_loop c e (i * 2))"
      using less.prems fork [of "e - i"] by (simp add: sparse_loop.simps [of c e i])
    have i: "i \<le> e - p" using False less.prems by simp
    show ?thesis
    proof (cases "i * 2 \<le> e")
      case True
      then show ?thesis unfolding skip using less.IH [of "i * 2"] less.prems i by simp
    next
      case f: False
      then show ?thesis unfolding skip using less.prems i by (simp add: sparse_loop.simps [of c e "i * 2"])
    qed
  qed
qed



end
