(* ===== verification/FormatUtils.thy ===== *)
theory FormatUtils
  imports TransactionExtra TreeHash Base58 IntUtil
begin

text \<open>
  Amounts, checks and hashes of transactions and blocks: \<^verbatim>\<open>lib/CryptoNoteCore/CryptoNoteFormatUtils.cpp\<close> and its
  header, \<^verbatim>\<open>CryptoNoteTools.cpp\<close> and \<^verbatim>\<open>CryptoNoteBasicImpl.cpp\<close>. Amounts are 64-bit words, so every sum wraps as it does
  in the code. Functions of the elliptic curve are arguments of the definitions that call them.
\<close>

unbundle bit_operations_syntax

section \<open>Amounts\<close>

definition PRETTY_AMOUNTS :: "u64 list" where
  "PRETTY_AMOUNTS =
     [1, 2, 3, 4, 5, 6, 7, 8, 9, 10, 20, 30, 40, 50, 60, 70, 80, 90, 100, 200, 300, 400, 500, 600, 700, 800,
      900, 1000, 2000, 3000, 4000, 5000, 6000, 7000, 8000, 9000, 10000, 20000, 30000, 40000, 50000, 60000,
      70000, 80000, 90000, 100000, 200000, 300000, 400000, 500000, 600000, 700000, 800000, 900000, 1000000,
      2000000, 3000000, 4000000, 5000000, 6000000, 7000000, 8000000, 9000000, 10000000, 20000000, 30000000,
      40000000, 50000000, 60000000, 70000000, 80000000, 90000000, 100000000, 200000000, 300000000, 400000000,
      500000000, 600000000, 700000000, 800000000, 900000000, 1000000000, 2000000000, 3000000000, 4000000000,
      5000000000, 6000000000, 7000000000, 8000000000, 9000000000, 10000000000, 20000000000, 30000000000,
      40000000000, 50000000000, 60000000000, 70000000000, 80000000000, 90000000000, 100000000000,
      200000000000, 300000000000, 400000000000, 500000000000, 600000000000, 700000000000, 800000000000,
      900000000000, 1000000000000, 2000000000000, 3000000000000, 4000000000000, 5000000000000, 6000000000000,
      7000000000000, 8000000000000, 9000000000000, 10000000000000, 20000000000000, 30000000000000,
      40000000000000, 50000000000000, 60000000000000, 70000000000000, 80000000000000, 90000000000000,
      100000000000000, 200000000000000, 300000000000000, 400000000000000, 500000000000000, 600000000000000,
      700000000000000, 800000000000000, 900000000000000, 1000000000000000, 2000000000000000, 3000000000000000,
      4000000000000000, 5000000000000000, 6000000000000000, 7000000000000000, 8000000000000000,
      9000000000000000, 10000000000000000, 20000000000000000, 30000000000000000, 40000000000000000,
      50000000000000000, 60000000000000000, 70000000000000000, 80000000000000000, 90000000000000000,
      100000000000000000, 200000000000000000, 300000000000000000, 400000000000000000, 500000000000000000,
      600000000000000000, 700000000000000000, 800000000000000000, 900000000000000000, 1000000000000000000,
      2000000000000000000, 3000000000000000000, 4000000000000000000, 5000000000000000000, 6000000000000000000,
      7000000000000000000, 8000000000000000000, 9000000000000000000, 10000000000000000000]"

function power_loop :: "u64 \<Rightarrow> u64 \<Rightarrow> u64 \<Rightarrow> u64 \<Rightarrow> u64" where
  "power_loop a b i tot = (if i \<noteq> b then power_loop a b (i + 1) (tot * a) else tot)"
  by pat_completeness auto
termination
proof (relation "measure (\<lambda>(a, b, i, tot). unat (b - i))", goal_cases)
  case (2 a b i tot)
  then have "b - i \<noteq> 0" by simp
  then have "unat (b - i - 1) < unat (b - i)" by (simp add: unat_eq_0 measure_unat)
  then show ?case by (simp add: diff_diff_eq add.commute)
qed simp

declare power_loop.simps [simp del]

definition power_integral :: "u64 \<Rightarrow> u64 \<Rightarrow> u64" where
  "power_integral a b = (if b = 0 then 1 else power_loop a b 1 a)"

text \<open>The amount an input contributes; a base input contributes nothing.\<close>

definition input_amount :: "TransactionInput \<Rightarrow> u64" where
  "input_amount input =
     (case input of
        TxBaseInput _ \<Rightarrow> 0
      | TxKeyInput i \<Rightarrow> ki_amount i
      | TxMultiSignatureInput i \<Rightarrow> mi_amount i)"

definition getTxFee :: "Transaction \<Rightarrow> u64 option" where
  "getTxFee tx =
     (let amountIn = fold (\<lambda>i a. a + input_amount i) (inputs tx) 0;
          amountOut = fold (\<lambda>out a. a + to_amount out) (outputs tx) 0
      in if \<not> amountOut \<le> amountIn then None else Some (amountIn - amountOut))"

definition getTxFee_or_zero :: "Transaction \<Rightarrow> u64" where
  "getTxFee_or_zero tx = (case getTxFee tx of None \<Rightarrow> 0 | Some r \<Rightarrow> r)"

definition getInputsMoneyAmount :: "Transaction \<Rightarrow> u64" where
  "getInputsMoneyAmount tx = fold (\<lambda>i money. money + input_amount i) (inputs tx) 0"

fun overflow_loop :: "u64 \<Rightarrow> u64 list \<Rightarrow> bool" where
  "overflow_loop money [] = True"
| "overflow_loop money (amount # amounts) =
     (if amount + money < money then False else overflow_loop (money + amount) amounts)"

definition check_inputs_overflow :: "'a TransactionPrefix_scheme \<Rightarrow> bool" where
  "check_inputs_overflow tx = overflow_loop 0 (map input_amount (inputs tx))"

definition check_outs_overflow :: "'a TransactionPrefix_scheme \<Rightarrow> bool" where
  "check_outs_overflow tx = overflow_loop 0 (map to_amount (outputs tx))"

definition check_money_overflow :: "'a TransactionPrefix_scheme \<Rightarrow> bool" where
  "check_money_overflow tx \<longleftrightarrow> check_inputs_overflow tx \<and> check_outs_overflow tx"

definition getOutsMoneyAmount :: "Transaction \<Rightarrow> u64" where
  "getOutsMoneyAmount tx = fold (\<lambda>out a. a + to_amount out) (outputs tx) 0"

definition getInputAmount :: "Transaction \<Rightarrow> u64" where
  "getInputAmount tx = fold (\<lambda>i a. a + input_amount i) (inputs tx) 0"

definition getInputsAmounts :: "Transaction \<Rightarrow> u64 list" where
  "getInputsAmounts tx =
     concat (map (\<lambda>i. case i of
       TxBaseInput _ \<Rightarrow> [] | TxKeyInput k \<Rightarrow> [ki_amount k] | TxMultiSignatureInput m \<Rightarrow> [mi_amount m]) (inputs tx))"

definition getOutputAmount :: "Transaction \<Rightarrow> u64" where
  "getOutputAmount tx = fold (\<lambda>out a. a + to_amount out) (outputs tx) 0"

text \<open>\<^verbatim>\<open>std::lower_bound\<close> on a sorted vector gives the rest of the vector from the found position on.\<close>

definition is_valid_decomposed_amount :: "u64 \<Rightarrow> bool" where
  "is_valid_decomposed_amount amount =
     (case dropWhile (\<lambda>p. p < amount) PRETTY_AMOUNTS of [] \<Rightarrow> False | p # _ \<Rightarrow> amount = p)"

text \<open>The calls that \<^verbatim>\<open>decompose_amount_into_digits\<close> makes to its chunk and dust handlers, in order.\<close>

datatype decomposed = Chunk u64 | Dust u64

function decompose_loop :: "u64 \<Rightarrow> u64 \<Rightarrow> u64 \<Rightarrow> u64 \<Rightarrow> bool \<Rightarrow> decomposed list" where
  "decompose_loop dust_threshold amount dust order is_dust_handled =
     (if amount \<noteq> 0 then
        (let chunk = (amount mod 10) * order;
             amount = amount div 10;
             order = order * 10
         in if dust + chunk \<le> dust_threshold
            then decompose_loop dust_threshold amount (dust + chunk) order is_dust_handled
            else (let handle = \<not> is_dust_handled \<and> dust \<noteq> 0
                  in (if handle then [Dust dust] else []) @ (if chunk \<noteq> 0 then [Chunk chunk] else []) @
                     decompose_loop dust_threshold amount dust order (is_dust_handled \<or> handle)))
      else if \<not> is_dust_handled \<and> dust \<noteq> 0 then [Dust dust] else [])"
  by pat_completeness auto
termination
proof (relation "measure (\<lambda>(t, amount, d, r, h). unat amount)", goal_cases)
  case (2 t amount d r h)
  then show ?case by (simp add: unat_div unat_gt_0)
next
  case (3 t amount d r h)
  then show ?case by (simp add: unat_div unat_gt_0)
qed simp

declare decompose_loop.simps [simp del]

definition decompose_amount_into_digits :: "u64 \<Rightarrow> u64 \<Rightarrow> decomposed list" where
  "decompose_amount_into_digits amount dust_threshold =
     (if amount = 0 then [] else decompose_loop dust_threshold amount 0 1 False)"

definition decomposed_amount :: "decomposed \<Rightarrow> u64" where
  "decomposed_amount e = (case e of Chunk c \<Rightarrow> c | Dust d \<Rightarrow> d)"

definition decomposeAmount :: "u64 \<Rightarrow> u64 \<Rightarrow> u64 list \<Rightarrow> u64 list" where
  "decomposeAmount amount dustThreshold decomposedAmounts =
     decomposedAmounts @ map decomposed_amount (decompose_amount_into_digits amount dustThreshold)"

section \<open>Checks of a transaction\<close>

definition get_block_height :: "Block \<Rightarrow> u32" where
  "get_block_height b =
     (case inputs (baseTransaction b) of [TxBaseInput i] \<Rightarrow> bi_blockIndex i | _ \<Rightarrow> 0)"

definition is_coinbase :: "Transaction \<Rightarrow> bool" where
  "is_coinbase tx = (case inputs tx of [TxBaseInput _] \<Rightarrow> True | _ \<Rightarrow> False)"

definition check_inputs_types_supported :: "'a TransactionPrefix_scheme \<Rightarrow> bool" where
  "check_inputs_types_supported tx =
     list_all (\<lambda>i. case i of TxBaseInput _ \<Rightarrow> False | TxKeyInput _ \<Rightarrow> True | TxMultiSignatureInput _ \<Rightarrow> True) (inputs tx)"

datatype outs_error =
    ZeroAmountOutput
  | OutputWithInvalidKey
  | SameOutputTarget
  | InvalidRequiredSignatureCount
  | MultisignatureInvalidKey
  | SameMultisignatureTarget

text \<open>The loop over the keys of a multisignature output; \<^verbatim>\<open>checkKey\<close> (a point of the curve) is an argument.\<close>

fun check_multisignature_keys :: "(bytes \<Rightarrow> bool) \<Rightarrow> bytes list \<Rightarrow> bytes set \<Rightarrow> outs_error + bytes set" where
  "check_multisignature_keys checkKey [] keys_seen = Inr keys_seen"
| "check_multisignature_keys checkKey (key # ks) keys_seen =
     (if \<not> checkKey key then Inl MultisignatureInvalidKey
      else if key \<in> keys_seen then Inl SameMultisignatureTarget
      else check_multisignature_keys checkKey ks (insert key keys_seen))"

definition check_out :: "(bytes \<Rightarrow> bool) \<Rightarrow> TransactionOutput \<Rightarrow> bytes set \<Rightarrow> outs_error + bytes set" where
  "check_out checkKey out keys_seen =
     (case to_target out of
        TxKeyOutput k \<Rightarrow>
          if to_amount out = 0 then Inl ZeroAmountOutput
          else if \<not> checkKey (ko_key k) then Inl OutputWithInvalidKey
          else if ko_key k \<in> keys_seen then Inl SameOutputTarget
          else Inr (insert (ko_key k) keys_seen)
      | TxMultiSignatureOutput m \<Rightarrow>
          if length (mo_keys m) < unat (mo_requiredSignatureCount m) then Inl InvalidRequiredSignatureCount
          else check_multisignature_keys checkKey (mo_keys m) keys_seen)"

fun check_outs_loop :: "(bytes \<Rightarrow> bool) \<Rightarrow> TransactionOutput list \<Rightarrow> bytes set \<Rightarrow> outs_error option" where
  "check_outs_loop checkKey [] keys_seen = None"
| "check_outs_loop checkKey (out # outs) keys_seen =
     (case check_out checkKey out keys_seen of
        Inl e \<Rightarrow> Some e
      | Inr keys_seen' \<Rightarrow> check_outs_loop checkKey outs keys_seen')"

text \<open>\<open>None\<close> when the function returns \<^verbatim>\<open>true\<close>.\<close>

definition check_outs_valid :: "(bytes \<Rightarrow> bool) \<Rightarrow> 'a TransactionPrefix_scheme \<Rightarrow> outs_error option" where
  "check_outs_valid checkKey tx = check_outs_loop checkKey (outputs tx) {}"

fun inputs_diff_loop :: "TransactionInput list \<Rightarrow> (u64 \<times> u32) set \<Rightarrow> bool" where
  "inputs_diff_loop [] inputsUsage = True"
| "inputs_diff_loop (input # ins) inputsUsage =
     (case input of
        TxMultiSignatureInput i \<Rightarrow>
          (let u = (mi_amount i, mi_outputIndex i)
           in if u \<in> inputsUsage then False else inputs_diff_loop ins (insert u inputsUsage))
      | _ \<Rightarrow> inputs_diff_loop ins inputsUsage)"

definition checkMultisignatureInputsDiff :: "'a TransactionPrefix_scheme \<Rightarrow> bool" where
  "checkMultisignatureInputsDiff tx = inputs_diff_loop (inputs tx) {}"

section \<open>Outputs of an account\<close>

text \<open>
  \<^verbatim>\<open>generateKeyDerivation\<close> and \<^verbatim>\<open>derivePublicKey\<close> are arguments. Their results are used unchecked here, so they are
  tot functions giving the contents of the out parameter.
\<close>

definition is_out_to_acc :: "(hash \<Rightarrow> nat \<Rightarrow> bytes \<Rightarrow> bytes) \<Rightarrow> AccountKeys \<Rightarrow> KeyOutput \<Rightarrow> hash \<Rightarrow> nat \<Rightarrow> bool" where
  "is_out_to_acc derivePublicKey acc out_key derivation keyIndex \<longleftrightarrow>
     derivePublicKey derivation keyIndex (spendPublicKey (ak_address acc)) = ko_key out_key"

definition is_out_to_acc_key ::
  "(bytes \<Rightarrow> bytes \<Rightarrow> hash) \<Rightarrow> (hash \<Rightarrow> nat \<Rightarrow> bytes \<Rightarrow> bytes) \<Rightarrow> AccountKeys \<Rightarrow> KeyOutput \<Rightarrow> bytes \<Rightarrow> nat \<Rightarrow> bool" where
  "is_out_to_acc_key generateKeyDerivation derivePublicKey acc out_key tx_pub_key keyIndex =
     (let derivation = generateKeyDerivation tx_pub_key (ak_viewSecretKey acc)
      in is_out_to_acc derivePublicKey acc out_key derivation keyIndex)"

fun lookup_loop ::
  "(hash \<Rightarrow> nat \<Rightarrow> bytes \<Rightarrow> bytes) \<Rightarrow> AccountKeys \<Rightarrow> hash \<Rightarrow> TransactionOutput list \<Rightarrow> nat \<Rightarrow> nat \<Rightarrow> nat list \<times> u64 \<Rightarrow> nat list \<times> u64" where
  "lookup_loop derivePublicKey acc derivation [] keyIndex outputIndex st = st"
| "lookup_loop derivePublicKey acc derivation (out # os) keyIndex outputIndex (outs, money_transfered) =
     (case to_target out of
        TxKeyOutput k \<Rightarrow>
          lookup_loop derivePublicKey acc derivation os (keyIndex + 1) (outputIndex + 1)
            (if is_out_to_acc derivePublicKey acc k derivation keyIndex
             then (outs @ [outputIndex], money_transfered + to_amount out) else (outs, money_transfered))
      | TxMultiSignatureOutput m \<Rightarrow>
          lookup_loop derivePublicKey acc derivation os (keyIndex + length (mo_keys m)) (outputIndex + 1)
            (outs, money_transfered))"

definition lookup_acc_outs_key ::
  "(bytes \<Rightarrow> bytes \<Rightarrow> hash) \<Rightarrow> (hash \<Rightarrow> nat \<Rightarrow> bytes \<Rightarrow> bytes) \<Rightarrow> AccountKeys \<Rightarrow> Transaction \<Rightarrow> bytes \<Rightarrow> nat list \<Rightarrow> nat list \<times> u64" where
  "lookup_acc_outs_key generateKeyDerivation derivePublicKey acc tx tx_pub_key outs =
     (let derivation = generateKeyDerivation tx_pub_key (ak_viewSecretKey acc)
      in lookup_loop derivePublicKey acc derivation (outputs tx) 0 0 (outs, 0))"

definition lookup_acc_outs ::
  "(bytes \<Rightarrow> bytes \<Rightarrow> hash) \<Rightarrow> (hash \<Rightarrow> nat \<Rightarrow> bytes \<Rightarrow> bytes) \<Rightarrow> AccountKeys \<Rightarrow> Transaction \<Rightarrow> nat list \<Rightarrow> (nat list \<times> u64) option" where
  "lookup_acc_outs generateKeyDerivation derivePublicKey acc tx outs =
     (let transactionPublicKey = getTransactionPublicKeyFromExtra (extra tx)
      in if transactionPublicKey = replicate 32 0 then None
         else Some (lookup_acc_outs_key generateKeyDerivation derivePublicKey acc tx transactionPublicKey outs))"

section \<open>Hashes of blocks\<close>

definition toBinaryArray_blob :: "bytes \<Rightarrow> bytes result" where
  "toBinaryArray_blob object = Inr (put_string object)"

definition getBinaryArrayHash :: "bytes \<Rightarrow> hash" where
  "getBinaryArrayHash binaryArray = cn_fast_hash binaryArray"

definition get_tx_tree_hash :: "hash list \<Rightarrow> hash option" where
  "get_tx_tree_hash tx_hashes = tree_hash tx_hashes"

definition get_tx_tree_hash_block :: "Block \<Rightarrow> hash option" where
  "get_tx_tree_hash_block b =
     get_tx_tree_hash (snd (getObjectHash getBinaryArrayHash put_Transaction (baseTransaction b)) # transactionHashes b)"

definition get_block_hashing_blob :: "Block \<Rightarrow> bytes option" where
  "get_block_hashing_blob b =
     (case toBinaryArray put_BlockHeader (BlockHeader.truncate b) of
        None \<Rightarrow> None
      | Some ba \<Rightarrow>
          (case get_tx_tree_hash_block b of
             None \<Rightarrow> None
           | Some treeRootHash \<Rightarrow>
               Some (ba @ treeRootHash @ get_varint_data (word_of_nat (length (transactionHashes b) + 1)))))"

definition getBlockHash :: "Block \<Rightarrow> bool \<times> hash" where
  "getBlockHash b =
     (case get_block_hashing_blob b of
        None \<Rightarrow> (False, NULL_HASH)
      | Some ba \<Rightarrow> getObjectHash getBinaryArrayHash toBinaryArray_blob ba)"

text \<open>The proof-of-work hash \<^verbatim>\<open>cn_pow_hash_v1\<close> is an argument.\<close>

definition getBlockLongHash :: "(bytes \<Rightarrow> hash) \<Rightarrow> Block \<Rightarrow> hash option" where
  "getBlockLongHash cn_pow_hash_v1 b = map_option cn_pow_hash_v1 (get_block_hashing_blob b)"

definition short_hash_str :: "hash \<Rightarrow> bytes" where
  "short_hash_str h =
     (let res = toHex h in if length res = 64 then take 8 res @ map of_char ''....'' @ drop 56 res else res)"

section \<open>Output offsets\<close>

fun rel_to_abs_loop :: "u32 \<Rightarrow> u32 list \<Rightarrow> u32 list" where
  "rel_to_abs_loop prev [] = []"
| "rel_to_abs_loop prev (r # rs) = (r + prev) # rel_to_abs_loop (r + prev) rs"

definition relative_output_offsets_to_absolute :: "u32 list \<Rightarrow> u32 list" where
  "relative_output_offsets_to_absolute off =
     (case off of [] \<Rightarrow> [] | r # rs \<Rightarrow> r # rel_to_abs_loop r rs)"

fun abs_to_rel_loop :: "u32 list \<Rightarrow> u32 list" where
  "abs_to_rel_loop (a # b # rs) = (b - a) # abs_to_rel_loop (b # rs)"
| "abs_to_rel_loop _ = []"

text \<open>The loop runs from the end, so that each entry is reduced by its predecessor's original value.\<close>

definition absolute_output_offsets_to_relative :: "u32 list \<Rightarrow> u32 list" where
  "absolute_output_offsets_to_relative off =
     (case sort off of [] \<Rightarrow> [] | a # rs \<Rightarrow> a # abs_to_rel_loop (a # rs))"

section \<open>Addresses as text\<close>

definition getAccountAddressAsStr :: "u64 \<Rightarrow> AccountPublicAddress \<Rightarrow> bytes option" where
  "getAccountAddressAsStr prefix adr =
     (case toBinaryArray (\<lambda>a. Inr (put_AccountPublicAddress a)) adr of
        None \<Rightarrow> None
      | Some ba \<Rightarrow> encode_addr prefix ba)"

definition parseAccountAddressString :: "(bytes \<Rightarrow> bool) \<Rightarrow> bytes \<Rightarrow> (u64 \<times> AccountPublicAddress) option" where
  "parseAccountAddressString checkKey str =
     (case decode_addr str of
        None \<Rightarrow> None
      | Some (prefix, data) \<Rightarrow>
          (case fromBinaryArray get_AccountPublicAddress data of
             None \<Rightarrow> None
           | Some adr \<Rightarrow>
               if checkKey (spendPublicKey adr) \<and> checkKey (viewPublicKey adr) then Some (prefix, adr) else None))"

section \<open>Money\<close>

lemma unat_pred: "i < b \<Longrightarrow> unat (b - i) = Suc (unat (b - (i + 1)))" for b :: u64
proof -
  assume "i < b"
  then have "b - i \<noteq> 0" by simp
  then have "unat (b - i) = Suc (unat (b - i - 1))" by (simp add: unat_minus_one unat_gt_0)
  then show ?thesis by (simp add: diff_diff_eq)
qed

lemma fold_sum: "unat m + sum_list (map (unat \<circ> f) xs) < 2 ^ 64 \<Longrightarrow>
   unat (fold (\<lambda>x (a :: u64). a + f x) xs m) = unat m + sum_list (map (unat \<circ> f) xs)"
proof (induction xs arbitrary: m)
  case (Cons x xs)
  then have "unat (m + f x) = unat m + unat (f x)" by (intro unat_add_no_wrap) simp
  then show ?case using Cons by simp
qed simp
lemma overflow_loop_iff: "overflow_loop m xs \<longleftrightarrow> unat m + sum_list (map unat xs) < 2 ^ 64"
proof (induction xs arbitrary: m)
  case Nil
  then show ?case using unsigned_less [of m, where 'a = nat] by simp
next
  case (Cons x xs)
  have c: "x + m = m + x" by simp
  show ?case
  proof (cases "m + x < m")
    case False
    then have "unat (m + x) = unat m + unat x" 
      using word_add_wraps_iff [of m x] by (intro unat_add_no_wrap) simp
    then show ?thesis using Cons [of "m + x"] False by (simp add: c add.assoc)
  next
    case True
    then have "2 ^ 64 \<le> unat m + unat x" using word_add_wraps_iff [of m x] by simp
    then show ?thesis using True by (simp add: c)
  qed
qed
definition money_in :: "'a TransactionPrefix_scheme \<Rightarrow> nat" where
  "money_in tx = sum_list (map (unat \<circ> input_amount) (inputs tx))"

definition money_out :: "'a TransactionPrefix_scheme \<Rightarrow> nat" where
  "money_out tx = sum_list (map (unat \<circ> to_amount) (outputs tx))"

text \<open>
  C18: \<^verbatim>\<open>check_money_overflow\<close> accepts a transaction exactly when its inputs and its outputs each sum to less than 2 to
  the 64; for such a transaction no money is created by wrap-around: \<^verbatim>\<open>getTxFee\<close> succeeds exactly when the outputs
  do not exceed the inputs, and the fee is their exact difference.
\<close>

theorem fee_is_exact:
  "(check_money_overflow tx \<longleftrightarrow> money_in tx < 2 ^ 64 \<and> money_out tx < 2 ^ 64) \<and>
   (check_money_overflow tx \<longrightarrow>
      (\<forall>fee. getTxFee tx = Some fee \<longleftrightarrow> money_in tx = money_out tx + unat fee) \<and>
      (getTxFee tx = None \<longleftrightarrow> money_in tx < money_out tx))"
proof -
  have ov: "check_money_overflow tx \<longleftrightarrow> money_in tx < 2 ^ 64 \<and> money_out tx < 2 ^ 64"
    by (simp add: check_money_overflow_def check_inputs_overflow_def check_outs_overflow_def overflow_loop_iff
        money_in_def money_out_def o_def)
  let ?i = "fold (\<lambda>i a. a + input_amount i) (inputs tx) 0" and ?o = "fold (\<lambda>out a. a + to_amount out) (outputs tx) 0"
  have "(getTxFee tx = Some fee \<longleftrightarrow> money_in tx = money_out tx + unat fee) \<and>
      (getTxFee tx = None \<longleftrightarrow> money_in tx < money_out tx)" if "check_money_overflow tx" for fee
  proof -
    have i: "unat ?i = money_in tx" and out: "unat ?o = money_out tx"
      using that ov fold_sum [of 0 input_amount "inputs tx"] fold_sum [of 0 to_amount "outputs tx"]
      by (simp_all add: money_in_def money_out_def)
    show ?thesis
    proof (cases "?o \<le> ?i")
      case True
      then have s: "unat (?i - ?o) = money_in tx - money_out tx" "money_out tx \<le> money_in tx"
        using i out by (simp_all add: unat_sub word_le_nat_alt)
      have "?i - ?o = fee \<longleftrightarrow> unat (?i - ?o) = unat fee" by (simp add: word_unat_eq_iff)
      then show ?thesis using True s by (auto simp: getTxFee_def)
    next
      case False
      then have "money_in tx < money_out tx" using i out by (simp add: word_le_nat_alt)
      then show ?thesis using False by (auto simp: getTxFee_def)
    qed
  qed
  with ov show ?thesis by blast
qed

theorem fee_is_exact_witness:
  "getTxFee \<lparr>version = 1, unlockTime = 0,
     inputs = [TxKeyInput \<lparr>ki_amount = 10, ki_outputIndexes = [1], ki_keyImage = replicate 32 1\<rparr>],
     outputs = [\<lparr>to_amount = 7, to_target = TxKeyOutput \<lparr>ko_key = replicate 32 2\<rparr>\<rparr>], extra = [], signatures = []\<rparr> = Some 3"
  using fee_is_exact [of "\<lparr>version = 1, unlockTime = 0,
     inputs = [TxKeyInput \<lparr>ki_amount = 10, ki_outputIndexes = [1], ki_keyImage = replicate 32 1\<rparr>],
     outputs = [\<lparr>to_amount = 7, to_target = TxKeyOutput \<lparr>ko_key = replicate 32 2\<rparr>\<rparr>], extra = [], signatures = []\<rparr>"]
  by (simp add: money_in_def money_out_def input_amount_def)

lemma power_loop_eq: "i \<le> b \<Longrightarrow> power_loop a b i t = t * a ^ unat (b - i)"
proof (induction a b i t rule: power_loop.induct)
  case (1 a b i t)
  show ?case
  proof (cases "i = b")
    case True
    then show ?thesis by (subst power_loop.simps) simp
  next
    case False
    then have "i < b" using 1(2) by simp
    then have le: "i + 1 \<le> b" by (rule inc_le)
    have "power_loop a b i t = power_loop a b (i + 1) (t * a)" using False by (subst power_loop.simps) simp
    also have "\<dots> = t * a * a ^ unat (b - (i + 1))" by (rule 1(1) [OF False le])
    finally show ?thesis by (simp only: unat_pred [OF \<open>i < b\<close>] power_Suc mult.assoc)
  qed
qed

lemma power_integral_eq: "power_integral a b = a ^ unat b"
proof (cases "b = 0")
  case False
  then have "0 < b" by (simp add: word_gt_0)
  then have "1 \<le> b" using inc_le [of 0 b] by simp
  then show ?thesis using False power_loop_eq [of 1 b a a] unat_pred [of 0 b] \<open>0 < b\<close> by (simp add: power_integral_def)
qed (simp add: power_integral_def)

section \<open>Decomposition\<close>

lemma sorted_wrt_chain: "transp P \<Longrightarrow> sorted_wrt P (x # y # zs) \<longleftrightarrow> P x y \<and> sorted_wrt P (y # zs)"
  by (auto dest: transpD)

lemma pretty_sorted: "sorted_wrt (<) PRETTY_AMOUNTS"
  unfolding PRETTY_AMOUNTS_def by (simp add: sorted_wrt_chain [OF transp_on_less] sorted_wrt1 del: sorted_wrt.simps(2))

lemma pretty_table:
  "PRETTY_AMOUNTS = concat (map (\<lambda>k. map (\<lambda>d. d * 10 ^ k) [1, 2, 3, 4, 5, 6, 7, 8, 9]) [0..<19]) @ [10 ^ 19]"
proof -
  have upt: "[0..<19] = [0, 1, 2, 3, 4, 5, 6, 7, 8, 9, 10, 11, 12, 13, 14, 15, 16, 17, 18]" by (simp add: upt_rec)
  show ?thesis unfolding upt PRETTY_AMOUNTS_def list.map concat.simps append.simps power_0 mult_1_right by simp
qed

lemma pretty_member:
  assumes "1 \<le> m" and "m \<le> 9" and "m * 10 ^ k < (2 :: nat) ^ 64"
  shows "word_of_nat (m * 10 ^ k) \<in> set PRETTY_AMOUNTS"
proof -
  have m: "(word_of_nat m :: u64) \<in> set [1, 2, 3, 4, 5, 6, 7, 8, 9]"
  proof -
    have "m \<in> {1, 2, 3, 4, 5, 6, 7, 8, 9}" using assms(1,2) by auto
    then show ?thesis by auto
  qed
  have "\<not> 20 \<le> k"
  proof
    assume "20 \<le> k"
    then have "(10 :: nat) ^ 20 \<le> 10 ^ k" by (intro power_increasing) simp_all
    also have "\<dots> \<le> m * 10 ^ k" using assms(1) by simp
    finally show False using assms(3) by simp
  qed
  then consider "k = 19" | "k \<le> 18" by linarith
  then show ?thesis
  proof cases
    case 1
    then have "m = 1" using assms by simp
    then show ?thesis using 1 by (simp add: PRETTY_AMOUNTS_def)
  next
    case 2
    then have "k \<in> set [0..<19]" by simp
    then have a: "map (\<lambda>d. d * 10 ^ k) [1, 2, 3, 4, 5, 6, 7, 8, 9 :: u64] \<in>
        set (map (\<lambda>k. map (\<lambda>d. d * 10 ^ k) [1, 2, 3, 4, 5, 6, 7, 8, 9]) [0..<19])"
      unfolding set_map [of _ "[0..<19]"] by (rule imageI)
    have b: "(word_of_nat m :: u64) * 10 ^ k \<in> set (map (\<lambda>d. d * 10 ^ k) [1, 2, 3, 4, 5, 6, 7, 8, 9])"
      unfolding set_map using m by (rule imageI)
    have "(word_of_nat m :: u64) * 10 ^ k \<in> set PRETTY_AMOUNTS"
      unfolding pretty_table set_append set_concat by (rule UnI1, rule UN_I [where B = set, OF a b])
    then show ?thesis by (simp only: of_nat_mult of_nat_power of_nat_numeral)
  qed
qed

lemma dropWhile_less_sorted:
  fixes xs :: "'a :: linorder list"
  assumes "sorted_wrt (<) xs"
  shows "(case dropWhile (\<lambda>p. p < x) xs of [] \<Rightarrow> False | p # _ \<Rightarrow> x = p) \<longleftrightarrow> x \<in> set xs"
  using assms by (induction xs) (auto split: list.splits)

lemma is_valid_decomposed_amount_iff: "is_valid_decomposed_amount a \<longleftrightarrow> a \<in> set PRETTY_AMOUNTS"
  unfolding is_valid_decomposed_amount_def by (rule dropWhile_less_sorted [OF pretty_sorted])

text \<open>
  The loop's invariant: the rest of the amount, scaled by the order, and the dust fit a word; once the dust has been
  handled no later chunk is small enough to be added to it.
\<close>

definition total_amount :: "decomposed list \<Rightarrow> nat" where
  "total_amount es = sum_list (map (unat \<circ> decomposed_amount) es)"

lemma decompose_step:
  fixes amount ord dust :: u64
  assumes "amount \<noteq> 0" and "unat amount * unat ord + unat dust < 2 ^ 64"
  defines "chunk \<equiv> (amount mod 10) * ord"
  shows "unat chunk = (unat amount mod 10) * unat ord" and "unat (dust + chunk) = unat dust + unat chunk"
    and "amount div 10 \<noteq> 0 \<Longrightarrow> unat (ord * 10) = unat ord * 10"
    and "unat (amount div 10) * unat (ord * 10) + unat chunk = unat amount * unat ord"
proof -
  have split: "unat amount = unat amount div 10 * 10 + unat amount mod 10" by simp
  have eq: "unat amount * unat ord = unat amount div 10 * (unat ord * 10) + unat amount mod 10 * unat ord"
    by (subst split) (simp only: add_mult_distrib mult.assoc mult.commute [of 10])
  have m: "unat (amount mod 10) = unat amount mod 10" and d: "unat (amount div 10) = unat amount div 10"
    by (simp_all add: unat_mod unat_div)
  show c: "unat chunk = (unat amount mod 10) * unat ord"
    unfolding chunk_def using eq assms(2) m by (subst unat_mult_no_wrap) simp_all
  show "unat (dust + chunk) = unat dust + unat chunk"
    using eq assms(2) c by (intro unat_add_no_wrap) simp
  show o: "unat (ord * 10) = unat ord * 10" if "amount div 10 \<noteq> 0"
  proof -
    have "0 < unat amount div 10" using that d by (simp add: word_unat_eq_iff)
    then have "unat ord * 10 \<le> unat amount div 10 * (unat ord * 10)" by simp
    then have "unat ord * 10 < 2 ^ 64" using eq assms(2) by linarith
    then show ?thesis by (subst unat_mult_no_wrap) simp_all
  qed
  show "unat (amount div 10) * unat (ord * 10) + unat chunk = unat amount * unat ord"
    using eq c d o by (cases "amount div 10 = 0") simp_all
qed

lemma decompose_total:
  "unat amount * unat ord + unat dust < 2 ^ 64 \<Longrightarrow>
   (handled \<Longrightarrow> amount \<noteq> 0 \<Longrightarrow> unat thr < unat dust + unat ord) \<Longrightarrow>
   total_amount (decompose_loop thr amount dust ord handled) =
   unat amount * unat ord + (if handled then 0 else unat dust)"
proof (induction thr amount dust ord handled rule: decompose_loop.induct)
  case (1 thr amount dust ord handled)
  let ?chunk = "(amount mod 10) * ord"
  show ?case
  proof (cases "amount = 0")
    case True
    then show ?thesis by (subst decompose_loop.simps) (simp add: total_amount_def decomposed_amount_def)
  next
    case False
    note st = decompose_step [OF False 1(3)]
    have nine: "unat ?chunk \<le> 9 * unat ord"
      unfolding st(1) by (rule mult_le_mono1) (use mod_less_divisor [of 10 "unat amount"] in linarith)
    show ?thesis
    proof (cases "dust + ?chunk \<le> thr")
      case True
      have loop: "decompose_loop thr amount dust ord handled =
          decompose_loop thr (amount div 10) (dust + ?chunk) (ord * 10) handled"
        using False True by (subst decompose_loop.simps) (simp add: Let_def)
      have le: "unat dust + unat ?chunk \<le> unat thr" using True st(2) by (simp add: word_le_nat_alt)
      have z: "unat ?chunk = 0" if handled
      proof (rule ccontr)
        assume "unat ?chunk \<noteq> 0"
        then have "1 * unat ord \<le> unat ?chunk" unfolding st(1) by (intro mult_le_mono1) simp
        then show False using 1(4) [OF that False] le by linarith
      qed
      have "total_amount (decompose_loop thr (amount div 10) (dust + ?chunk) (ord * 10) handled) =
          unat (amount div 10) * unat (ord * 10) + (if handled then 0 else unat (dust + ?chunk))"
      proof (rule 1(1) [OF False refl refl refl True])
        show "unat (amount div 10) * unat (ord * 10) + unat (dust + ?chunk) < 2 ^ 64"
          using 1(3) st(2,4) by linarith
        assume h: handled and n: "amount div 10 \<noteq> 0"
        show "unat thr < unat (dust + ?chunk) + unat (ord * 10)"
          using 1(4) [OF h False] st(2) st(3) [OF n] by linarith
      qed
      then show ?thesis using loop st(2,4) z by auto
    next
      case f: False
      let ?handle = "\<not> handled \<and> dust \<noteq> 0"
      have loop: "decompose_loop thr amount dust ord handled =
          (if ?handle then [Dust dust] else []) @ (if ?chunk \<noteq> 0 then [Chunk ?chunk] else []) @
          decompose_loop thr (amount div 10) dust (ord * 10) (handled \<or> ?handle)"
        using False f by (subst decompose_loop.simps) (simp add: Let_def)
      have "total_amount (decompose_loop thr (amount div 10) dust (ord * 10) (handled \<or> ?handle)) =
          unat (amount div 10) * unat (ord * 10) + (if handled \<or> ?handle then 0 else unat dust)"
      proof (rule 1(2) [OF False refl refl refl f refl])
        show "unat (amount div 10) * unat (ord * 10) + unat dust < 2 ^ 64"
          using 1(3) st(4) by linarith
        assume n: "amount div 10 \<noteq> 0"
        have "unat thr < unat dust + unat ?chunk" using f st(2) by (simp add: word_le_nat_alt)
        then show "unat thr < unat dust + unat (ord * 10)" using nine st(3) [OF n] by linarith
      qed
      then show ?thesis unfolding loop using st(4) by (auto simp: total_amount_def decomposed_amount_def)
    qed
  qed
qed

lemma decompose_shape:
  "unat amount * unat ord + unat dust < 2 ^ 64 \<Longrightarrow> (amount \<noteq> 0 \<Longrightarrow> unat ord = 10 ^ k) \<Longrightarrow> dust \<le> thr \<Longrightarrow>
   e \<in> set (decompose_loop thr amount dust ord handled) \<Longrightarrow>
   case e of Chunk c \<Rightarrow> c \<in> set PRETTY_AMOUNTS | Dust d \<Rightarrow> d \<le> thr"
proof (induction thr amount dust ord handled arbitrary: k rule: decompose_loop.induct)
  case (1 thr amount dust ord handled)
  let ?chunk = "(amount mod 10) * ord"
  show ?case
  proof (cases "amount = 0")
    case True
    then have "decompose_loop thr amount dust ord handled = (if \<not> handled \<and> dust \<noteq> 0 then [Dust dust] else [])"
      by (subst decompose_loop.simps) simp
    then show ?thesis using 1(5,6) by (auto split: if_splits)
  next
    case False
    note st = decompose_step [OF False 1(3)]
    have ordk: "unat ord = 10 ^ k" using 1(4) False by blast
    have ord': "unat (ord * 10) = 10 ^ Suc k" if "amount div 10 \<noteq> 0" using st(3) [OF that] ordk by simp
    have chunk: "?chunk \<in> set PRETTY_AMOUNTS" if "?chunk \<noteq> 0"
    proof -
      have u: "unat ?chunk = unat amount mod 10 * 10 ^ k" using st(1) ordk by simp
      have "unat ?chunk \<noteq> 0" using that by (simp add: unat_eq_0)
      then have "1 \<le> unat amount mod 10" using u by (cases "unat amount mod 10") auto
      moreover have "unat amount mod 10 \<le> 9" using mod_less_divisor [of 10 "unat amount"] by linarith
      moreover have "unat amount mod 10 * 10 ^ k < (2 :: nat) ^ 64" using u unsigned_less [of ?chunk, where 'a = nat] by simp
      ultimately have "word_of_nat (unat amount mod 10 * 10 ^ k) \<in> set PRETTY_AMOUNTS" by (rule pretty_member)
      then show ?thesis using word_eq_of_natI [OF u] by (simp only:)
    qed
    show ?thesis
    proof (cases "dust + ?chunk \<le> thr")
      case True
      have "e \<in> set (decompose_loop thr (amount div 10) (dust + ?chunk) (ord * 10) handled)"
        using 1(6) False True by (subst (asm) decompose_loop.simps) (simp add: Let_def)
      then show ?thesis
        using 1(1) [OF False refl refl refl True _ ord' True] 1(3) st(2,4) by (simp add: add.assoc)
    next
      case f: False
      let ?handle = "\<not> handled \<and> dust \<noteq> 0"
      have "e \<in> set ((if ?handle then [Dust dust] else []) @ (if ?chunk \<noteq> 0 then [Chunk ?chunk] else []) @
          decompose_loop thr (amount div 10) dust (ord * 10) (handled \<or> ?handle))"
        using 1(6) False f by (subst (asm) decompose_loop.simps) (simp add: Let_def)
      then consider "e = Dust dust" | "?chunk \<noteq> 0" "e = Chunk ?chunk"
        | "e \<in> set (decompose_loop thr (amount div 10) dust (ord * 10) (handled \<or> ?handle))"
        by (auto split: if_splits)
      then show ?thesis
      proof cases
        case 3
        have "unat (amount div 10) * unat (ord * 10) + unat dust < 2 ^ 64" using 1(3) st(4) by linarith
        then show ?thesis using 1(2) [OF False refl refl refl f refl _ ord' 1(5) 3] by blast
      qed (use 1(5) chunk in simp_all)
    qed
  qed
qed


section \<open>Output offsets\<close>

lemma rel_of_abs: "rel_to_abs_loop a (abs_to_rel_loop (a # xs)) = xs"
  by (induction xs arbitrary: a) simp_all

lemma sorted_rel_to_abs:
  "unat a + sum_list (map unat xs) < 2 ^ 32 \<Longrightarrow> sorted (a # rel_to_abs_loop a xs)"
proof (induction xs arbitrary: a)
  case (Cons x xs)
  then have u: "unat (x + a) = unat x + unat a" by (intro unat_add_no_wrap) simp
  then have "sorted ((x + a) # rel_to_abs_loop (x + a) xs)" using Cons by (simp add: add.commute add.left_commute)
  moreover have "a \<le> x + a" using u by (simp add: word_le_nat_alt)
  ultimately show ?case by auto
qed simp

lemma abs_of_rel: "abs_to_rel_loop (a # rel_to_abs_loop a xs) = xs"
  by (induction xs arbitrary: a) simp_all

text \<open>
  C33: turning absolute output offsets into relative ones and back gives the offsets in ascending order, whatever they
  are; turning relative offsets whose sum fits 32 bits into absolute ones and back gives them unchanged.
\<close>

theorem output_offsets_roundtrip:
  "relative_output_offsets_to_absolute (absolute_output_offsets_to_relative off) = sort off \<and>
   (sum_list (map unat rel) < 2 ^ 32 \<longrightarrow>
      absolute_output_offsets_to_relative (relative_output_offsets_to_absolute rel) = rel)"
proof (intro conjI impI)
  show "relative_output_offsets_to_absolute (absolute_output_offsets_to_relative off) = sort off"
    by (simp add: absolute_output_offsets_to_relative_def relative_output_offsets_to_absolute_def rel_of_abs split: list.splits)
next
  assume s: "sum_list (map unat rel) < 2 ^ 32"
  show "absolute_output_offsets_to_relative (relative_output_offsets_to_absolute rel) = rel"
  proof (cases rel)
    case (Cons r rs)
    then have "sort (r # rel_to_abs_loop r rs) = r # rel_to_abs_loop r rs"
      using sorted_rel_to_abs [of r rs] s by (intro sorted_sort_id) simp
    then show ?thesis using Cons
      by (simp only: absolute_output_offsets_to_relative_def relative_output_offsets_to_absolute_def list.case abs_of_rel)
  qed (simp add: absolute_output_offsets_to_relative_def relative_output_offsets_to_absolute_def)
qed

theorem output_offsets_roundtrip_witness:
  "absolute_output_offsets_to_relative (relative_output_offsets_to_absolute [5, 0, 7]) = [5, 0, 7]"
  using output_offsets_roundtrip [of "[]" "[5, 0, 7]"] by simp

section \<open>Addresses\<close>

text \<open>
  The textual form of an address whose two keys are valid points parses back to the same prefix and address; the
  parser returns only addresses with valid keys.
\<close>

theorem account_address_roundtrip:
  assumes "length (spendPublicKey adr) = 32" and "length (viewPublicKey adr) = 32"
    and "checkKey (spendPublicKey adr)" and "checkKey (viewPublicKey adr)"
  shows "\<exists>str. getAccountAddressAsStr prefix adr = Some str \<and> parseAccountAddressString checkKey str = Some (prefix, adr)"
proof -
  obtain str where s: "encode_addr prefix (put_AccountPublicAddress adr) = Some str"
    and d: "decode_addr str = Some (prefix, put_AccountPublicAddress adr)"
    using decode_encode_addr by blast
  have "get_AccountPublicAddress (put_AccountPublicAddress adr @ []) = Inr (adr, [])"
    using assms(1,2) by (intro address_codec.decode_encode) (simp add: valid_AccountPublicAddress_def wf_hash_def)
  then have "fromBinaryArray get_AccountPublicAddress (put_AccountPublicAddress adr) = Some adr"
    by (simp add: fromBinaryArray_def)
  with s d assms(3,4) show ?thesis
    by (intro exI [of _ str]) (simp add: getAccountAddressAsStr_def parseAccountAddressString_def toBinaryArray_def)
qed

theorem account_address_roundtrip_witness:
  "\<exists>str. getAccountAddressAsStr 7 \<lparr>spendPublicKey = replicate 32 1, viewPublicKey = replicate 32 2\<rparr> = Some str \<and>
     parseAccountAddressString (\<lambda>k. k \<noteq> []) str =
       Some (7, \<lparr>spendPublicKey = replicate 32 1, viewPublicKey = replicate 32 2\<rparr>)"
  by (rule account_address_roundtrip) simp_all

section \<open>Outputs\<close>

definition target_keys :: "TransactionOutput \<Rightarrow> bytes list" where
  "target_keys out = (case to_target out of TxKeyOutput k \<Rightarrow> [ko_key k] | TxMultiSignatureOutput m \<Rightarrow> mo_keys m)"

definition sound_target :: "TransactionOutput \<Rightarrow> bool" where
  "sound_target out =
     (case to_target out of
        TxKeyOutput _ \<Rightarrow> to_amount out \<noteq> 0
      | TxMultiSignatureOutput m \<Rightarrow> unat (mo_requiredSignatureCount m) \<le> length (mo_keys m))"

lemma check_multisignature_keys_iff:
  "check_multisignature_keys ck ks seen = Inr seen' \<longleftrightarrow>
     list_all ck ks \<and> distinct ks \<and> set ks \<inter> seen = {} \<and> seen' = seen \<union> set ks"
  by (induction ck ks seen rule: check_multisignature_keys.induct) auto

lemma check_out_iff:
  "check_out ck out seen = Inr seen' \<longleftrightarrow>
     sound_target out \<and> list_all ck (target_keys out) \<and> distinct (target_keys out) \<and>
     set (target_keys out) \<inter> seen = {} \<and> seen' = seen \<union> set (target_keys out)"
  by (cases "to_target out")
    (auto simp: check_out_def sound_target_def target_keys_def check_multisignature_keys_iff not_less)

lemma check_outs_loop_iff:
  "check_outs_loop ck outs seen = None \<longleftrightarrow>
     list_all sound_target outs \<and> list_all ck (concat (map target_keys outs)) \<and>
     distinct (concat (map target_keys outs)) \<and> set (concat (map target_keys outs)) \<inter> seen = {}"
proof (induction outs arbitrary: seen)
  case (Cons out outs)
  show ?case
  proof (cases "check_out ck out seen")
    case (Inl e)
    then have "\<not> (sound_target out \<and> list_all ck (target_keys out) \<and> distinct (target_keys out) \<and> set (target_keys out) \<inter> seen = {})"
      using check_out_iff [of ck out seen "seen \<union> set (target_keys out)"] by simp
    then show ?thesis using Inl by auto
  next
    case (Inr seen')
    then have "sound_target out" "list_all ck (target_keys out)" "distinct (target_keys out)"
      "set (target_keys out) \<inter> seen = {}" "seen' = seen \<union> set (target_keys out)"
      unfolding check_out_iff by simp_all
    then show ?thesis using Inr Cons [of seen'] by auto
  qed
qed simp

text \<open>
  C31: \<^verbatim>\<open>check_outs_valid\<close> accepts exactly the transactions in which every key output has a non-zero amount, every
  multisignature output requires at most as many signatures as it has keys, all keys of all outputs are valid, and no
  key occurs twice anywhere.
\<close>

theorem check_outs_valid_exact:
  "check_outs_valid checkKey tx = None \<longleftrightarrow>
     list_all sound_target (outputs tx) \<and> list_all checkKey (concat (map target_keys (outputs tx))) \<and>
     distinct (concat (map target_keys (outputs tx)))"
  by (simp add: check_outs_valid_def check_outs_loop_iff)

section \<open>Block hashes\<close>

lemma length_hash2 [simp]: "length (hash2 a b) = 32"
  by (simp add: hash2_def)

lemma length_tree_hash_loop: "length (tree_hash_loop cnt ints) = 32"
  by (induction cnt ints rule: tree_hash_loop.induct) (subst tree_hash_loop.simps, simp)

lemma wf_tree_hash: "list_all wf_hash hs \<Longrightarrow> tree_hash hs = Some r \<Longrightarrow> wf_hash r"
  by (cases hs) (auto simp: tree_hash_def wf_hash_def length_tree_hash_loop Let_def split: if_splits)

lemma wf_tx_tree_hash:
  assumes "list_all (\<lambda>h. length h = 32) (transactionHashes b)" and "get_tx_tree_hash_block b = Some r"
  shows "wf_hash r"
  using assms wf_tree_hash [of "snd (getObjectHash getBinaryArrayHash put_Transaction (baseTransaction b)) # transactionHashes b" r]
  by (simp add: get_tx_tree_hash_block_def get_tx_tree_hash_def getObjectHash_def getBinaryArrayHash_def NULL_HASH_def
      wf_hash_def list_all_iff split: option.splits)

lemma hashing_blob_parts:
  assumes "get_block_hashing_blob b = Some ba"
  shows "\<exists>p r. put_BlockHeader (BlockHeader.truncate b) = Inr p \<and> get_tx_tree_hash_block b = Some r \<and>
    ba = p @ r @ get_varint_data (word_of_nat (length (transactionHashes b) + 1))"
  using assms by (simp add: get_block_hashing_blob_def toBinaryArray_def split: option.splits sum.splits)

text \<open>
  C32: what is hashed for a block determines its header, the root of its transaction tree and the number of its
  transactions: two valid blocks with the same hashing blob agree on all three.
\<close>

theorem hashing_blob_binds:
  assumes "valid_Block b1" and "valid_Block b2"
    and "get_block_hashing_blob b1 = Some ba" and "get_block_hashing_blob b2 = Some ba"
  shows "BlockHeader.truncate b1 = BlockHeader.truncate b2 \<and> get_tx_tree_hash_block b1 = get_tx_tree_hash_block b2 \<and>
    length (transactionHashes b1) mod 2 ^ 64 = length (transactionHashes b2) mod 2 ^ 64"
proof -
  obtain p1 p2 r1 r2 where p: "put_BlockHeader (BlockHeader.truncate b1) = Inr p1" "put_BlockHeader (BlockHeader.truncate b2) = Inr p2"
    and e: "ba = p1 @ r1 @ get_varint_data (word_of_nat (length (transactionHashes b1) + 1))"
      "ba = p2 @ r2 @ get_varint_data (word_of_nat (length (transactionHashes b2) + 1))"
    and root: "get_tx_tree_hash_block b1 = Some r1" "get_tx_tree_hash_block b2 = Some r2"
    using hashing_blob_parts [OF assms(3)] hashing_blob_parts [OF assms(4)] by blast
  have wf: "wf_hash r1" "wf_hash r2"
    using wf_tx_tree_hash root assms(1,2) by (auto simp: valid_Block_def valid_vector_def)
  have v: "valid_BlockHeader (BlockHeader.truncate b1)" "valid_BlockHeader (BlockHeader.truncate b2)"
    using assms(1,2) unfolding header_of_Block by (simp_all add: valid_Block_def)
  have "get_BlockHeader ba = Inr (BlockHeader.truncate b1, r1 @ get_varint_data (word_of_nat (length (transactionHashes b1) + 1)))"
    unfolding get_BlockHeader_iff using v(1) p(1) e(1) by blast
  moreover have "get_BlockHeader ba = Inr (BlockHeader.truncate b2, r2 @ get_varint_data (word_of_nat (length (transactionHashes b2) + 1)))"
    unfolding get_BlockHeader_iff using v(2) p(2) e(2) by blast
  ultimately have h: "BlockHeader.truncate b1 = BlockHeader.truncate b2"
    and t: "r1 @ get_varint_data (word_of_nat (length (transactionHashes b1) + 1)) =
      r2 @ get_varint_data (word_of_nat (length (transactionHashes b2) + 1))" by simp_all
  from t have r: "r1 = r2" and n: "get_varint_data (word_of_nat (length (transactionHashes b1) + 1)) =
      get_varint_data (word_of_nat (length (transactionHashes b2) + 1))"
    using wf by (simp_all add: wf_hash_def)
  have "(word_of_nat (length (transactionHashes b1) + 1) :: u64) = word_of_nat (length (transactionHashes b2) + 1)"
    using arg_cong [OF n, of read_varint] read_varint_get_varint_data [of _ "[]"] by simp
  then have "(word_of_nat (length (transactionHashes b1)) :: u64) = word_of_nat (length (transactionHashes b2))" by simp
  then have "length (transactionHashes b1) mod 2 ^ 64 = length (transactionHashes b2) mod 2 ^ 64"
    by (simp add: word_unat_eq_iff unat_of_nat)
  with h r root show ?thesis by simp
qed

definition small_block :: "u32 \<Rightarrow> Block" where
  "small_block n =
     \<lparr>majorVersion = 1, minorVersion = 0, nonce = n, timestamp = 0, previousBlockHash = replicate 32 0,
      baseTransaction = \<lparr>version = 1, unlockTime = 0, inputs = [TxBaseInput \<lparr>bi_blockIndex = 0\<rparr>], outputs = [], extra = [],
        signatures = []\<rparr>, transactionHashes = []\<rparr>"

lemma valid_small_block: "valid_Block (small_block n)"
  by (simp add: small_block_def valid_Block_def valid_BlockHeader_def valid_Transaction_def valid_TransactionPrefix_def
      valid_vector_def signaturesNotExpected_def isBaseInput_def wf_hash_def BLOCK_MAJOR_VERSION_1_def
      BLOCK_MAJOR_VERSION_6_def CURRENT_TRANSACTION_VERSION_def valid_TransactionInput_def getSignaturesCount_def)

theorem hashing_blob_binds_witness:
  "\<exists>ba. get_block_hashing_blob (small_block 1) = Some ba \<and> get_block_hashing_blob (small_block 2) \<noteq> Some ba"
proof -
  obtain ba where ba: "get_block_hashing_blob (small_block 1) = Some ba"
    by (auto simp: get_block_hashing_blob_def get_tx_tree_hash_block_def get_tx_tree_hash_def tree_hash_def toBinaryArray_def
        put_BlockHeader_def small_block_def BlockHeader.defs BLOCK_MAJOR_VERSION_1_def BLOCK_MAJOR_VERSION_6_def)
  moreover have "get_block_hashing_blob (small_block 2) \<noteq> Some ba"
  proof
    assume "get_block_hashing_blob (small_block 2) = Some ba"
    then have "BlockHeader.truncate (small_block 1) = BlockHeader.truncate (small_block 2)"
      using hashing_blob_binds [OF valid_small_block valid_small_block ba] by blast
    then show False by (simp add: small_block_def BlockHeader.defs)
  qed
  ultimately show ?thesis by blast
qed

end
