(* ===== verification/Currency.thy ===== *)
theory Currency
  imports TextNumbers FormatUtils "HOL-Library.Monad_Syntax"
begin

text \<open>
  The currency's parameters and rules: \<^verbatim>\<open>lib/CryptoNoteCore/Currency.cpp\<close> and its header, with the constants of
  \<^verbatim>\<open>lib/Global/CryptoNoteConfig.h\<close> it uses. The functions that compute in floating point are left out, except that \<open>getBlockReward\<close>
  takes the one such multiplication it makes as an argument.
\<close>

unbundle bit_operations_syntax

section \<open>Parameters\<close>

definition DIFFICULTY_TARGET :: u64 where "DIFFICULTY_TARGET = 120"
definition CRYPTONOTE_MAX_BLOCK_NUMBER :: u64 where "CRYPTONOTE_MAX_BLOCK_NUMBER = 500000000"
definition CRYPTONOTE_PUBLIC_ADDRESS_BASE58_PREFIX :: u64 where "CRYPTONOTE_PUBLIC_ADDRESS_BASE58_PREFIX = 0x430c"
definition CRYPTONOTE_TX_SPENDABLE_AGE :: u64 where "CRYPTONOTE_TX_SPENDABLE_AGE = 10"
definition CRYPTONOTE_DISPLAY_DECIMAL_POINT :: nat where "CRYPTONOTE_DISPLAY_DECIMAL_POINT = 8"
definition MONEY_SUPPLY :: u64 where "MONEY_SUPPLY = - 1"
definition TAIL_EMISSION_REWARD :: u64 where "TAIL_EMISSION_REWARD = 10000000000"
definition EMISSION_SPEED_FACTOR :: u32 where "EMISSION_SPEED_FACTOR = 19"
definition CRYPTONOTE_BLOCK_GRANTED_FULL_REWARD_ZONE :: u64 where "CRYPTONOTE_BLOCK_GRANTED_FULL_REWARD_ZONE = 1000000"
definition COIN :: u64 where "COIN = 10 ^ CRYPTONOTE_DISPLAY_DECIMAL_POINT"
definition EXPECTED_NUMBER_OF_BLOCKS_PER_DAY :: u64 where
  "EXPECTED_NUMBER_OF_BLOCKS_PER_DAY = 24 * 60 * 60 div DIFFICULTY_TARGET"
definition DIFFICULTY_WINDOW :: u64 where "DIFFICULTY_WINDOW = EXPECTED_NUMBER_OF_BLOCKS_PER_DAY"
definition DIFFICULTY_WINDOW_V2 :: u64 where "DIFFICULTY_WINDOW_V2 = EXPECTED_NUMBER_OF_BLOCKS_PER_DAY div 24"
definition DIFFICULTY_LAG :: u64 where "DIFFICULTY_LAG = 15"
definition CRYPTONOTE_BLOCK_FUTURE_TIME_LIMIT :: u64 where "CRYPTONOTE_BLOCK_FUTURE_TIME_LIMIT = DIFFICULTY_TARGET * 60"
definition BLOCKCHAIN_TIMESTAMP_CHECK_WINDOW :: u64 where "BLOCKCHAIN_TIMESTAMP_CHECK_WINDOW = DIFFICULTY_TARGET div 2"
definition CRYPTONOTE_REWARD_BLOCKS_WINDOW :: u64 where "CRYPTONOTE_REWARD_BLOCKS_WINDOW = 100"
definition CRYPTONOTE_COINBASE_BLOB_RESERVED_SIZE :: u64 where "CRYPTONOTE_COINBASE_BLOB_RESERVED_SIZE = 600"
definition MINIMUM_FEE :: u64 where "MINIMUM_FEE = 10000"
definition MIN_TX_MIXIN_SIZE :: u64 where "MIN_TX_MIXIN_SIZE = 0"
definition MAX_TX_MIXIN_SIZE :: u64 where "MAX_TX_MIXIN_SIZE = 20"
definition MAX_TRANSACTION_SIZE_LIMIT :: u64 where
  "MAX_TRANSACTION_SIZE_LIMIT = CRYPTONOTE_BLOCK_GRANTED_FULL_REWARD_ZONE div 2 - CRYPTONOTE_COINBASE_BLOB_RESERVED_SIZE"
definition CRYPTONOTE_LOCKED_TX_ALLOWED_DELTA_BLOCKS :: u64 where "CRYPTONOTE_LOCKED_TX_ALLOWED_DELTA_BLOCKS = 1"
definition CRYPTONOTE_LOCKED_TX_ALLOWED_DELTA_SECONDS :: u64 where
  "CRYPTONOTE_LOCKED_TX_ALLOWED_DELTA_SECONDS = DIFFICULTY_TARGET * CRYPTONOTE_LOCKED_TX_ALLOWED_DELTA_BLOCKS"
definition CRYPTONOTE_MEMPOOL_TX_LIVETIME :: u64 where "CRYPTONOTE_MEMPOOL_TX_LIVETIME = 60 * 60 * 14"
definition CRYPTONOTE_MEMPOOL_TX_FROM_ALT_BLOCK_LIVETIME :: u64 where "CRYPTONOTE_MEMPOOL_TX_FROM_ALT_BLOCK_LIVETIME = 60 * 60 * 24"
definition CRYPTONOTE_NUMBER_OF_PERIODS_TO_FORGET_TX_DELETED_FROM_POOL :: u64 where
  "CRYPTONOTE_NUMBER_OF_PERIODS_TO_FORGET_TX_DELETED_FROM_POOL = 7"
definition DEFAULT_DIFFICULTY :: u64 where "DEFAULT_DIFFICULTY = 1"
definition MAX_BLOCK_SIZE_INITIAL :: u64 where "MAX_BLOCK_SIZE_INITIAL = 1000000"
definition MAX_BLOCK_SIZE_GROWTH_SPEED_NUMERATOR :: u64 where "MAX_BLOCK_SIZE_GROWTH_SPEED_NUMERATOR = 100 * 1024"
definition MAX_BLOCK_SIZE_GROWTH_SPEED_DENOMINATOR :: u64 where
  "MAX_BLOCK_SIZE_GROWTH_SPEED_DENOMINATOR = 365 * 24 * 60 * 60 div DIFFICULTY_TARGET"
definition CRYPTONOTE_CLIF_THRESHOLD :: u64 where "CRYPTONOTE_CLIF_THRESHOLD = 60 * 60"
definition FUSION_TX_MAX_SIZE :: u64 where "FUSION_TX_MAX_SIZE = CRYPTONOTE_BLOCK_GRANTED_FULL_REWARD_ZONE * 30 div 100"
definition FUSION_TX_MIN_INPUT_COUNT :: u64 where "FUSION_TX_MIN_INPUT_COUNT = 12"
definition FUSION_TX_MIN_IN_OUT_COUNT_RATIO :: u64 where "FUSION_TX_MIN_IN_OUT_COUNT_RATIO = 4"
definition UPGRADE_HEIGHT_V2 :: u32 where "UPGRADE_HEIGHT_V2 = 30"
definition UPGRADE_HEIGHT_V3 :: u32 where "UPGRADE_HEIGHT_V3 = 40"
definition UPGRADE_HEIGHT_V4 :: u32 where "UPGRADE_HEIGHT_V4 = 50"
definition UPGRADE_HEIGHT_V5 :: u32 where "UPGRADE_HEIGHT_V5 = 60"
definition UPGRADE_HEIGHT_V6 :: u32 where "UPGRADE_HEIGHT_V6 = 100"
definition UPGRADE_VOTING_THRESHOLD :: u32 where "UPGRADE_VOTING_THRESHOLD = 90"
definition UPGRADE_VOTING_WINDOW :: u32 where "UPGRADE_VOTING_WINDOW = ucast EXPECTED_NUMBER_OF_BLOCKS_PER_DAY"
definition UPGRADE_WINDOW :: u32 where "UPGRADE_WINDOW = ucast EXPECTED_NUMBER_OF_BLOCKS_PER_DAY"
definition GOVERNANCE_PERCENT_FEE :: u32 where "GOVERNANCE_PERCENT_FEE = 10"
definition GOVERNANCE_HEIGHT_START :: u32 where "GOVERNANCE_HEIGHT_START = UPGRADE_HEIGHT_V2"
definition GOVERNANCE_HEIGHT_END :: u32 where "GOVERNANCE_HEIGHT_END = 10000000"
definition FIXED_REWARDING :: bool where "FIXED_REWARDING = True"
definition START_BLOCK_REWARD :: u64 where "START_BLOCK_REWARD = 300000 * COIN"
definition MIN_BLOCK_REWARD :: u64 where "MIN_BLOCK_REWARD = 100 * COIN"
definition REWARD_HALVING_INTERVAL :: u64 where "REWARD_HALVING_INTERVAL = 11000"

lemmas currency_parameters = DIFFICULTY_TARGET_def CRYPTONOTE_MAX_BLOCK_NUMBER_def CRYPTONOTE_DISPLAY_DECIMAL_POINT_def
  MONEY_SUPPLY_def TAIL_EMISSION_REWARD_def EMISSION_SPEED_FACTOR_def CRYPTONOTE_BLOCK_GRANTED_FULL_REWARD_ZONE_def
  COIN_def EXPECTED_NUMBER_OF_BLOCKS_PER_DAY_def DIFFICULTY_WINDOW_def DIFFICULTY_WINDOW_V2_def MAX_BLOCK_SIZE_INITIAL_def
  MAX_BLOCK_SIZE_GROWTH_SPEED_NUMERATOR_def MAX_BLOCK_SIZE_GROWTH_SPEED_DENOMINATOR_def UPGRADE_VOTING_THRESHOLD_def
  UPGRADE_VOTING_WINDOW_def UPGRADE_WINDOW_def FIXED_REWARDING_def START_BLOCK_REWARD_def MIN_BLOCK_REWARD_def
  REWARD_HALVING_INTERVAL_def DEFAULT_DIFFICULTY_def CRYPTONOTE_CLIF_THRESHOLD_def

section \<open>The currency object and its builder\<close>

text \<open>The fields of the class that the modelled functions, here and in the components that hold a currency, read.\<close>

record Currency =
  m_maxBlockHeight :: u64
  m_publicAddressBase58Prefix :: u64
  m_minedMoneyUnlockWindow :: u64
  m_timestampCheckWindow :: u64
  m_blockFutureTimeLimit :: u64
  m_moneySupply :: u64
  m_emissionSpeedFactor :: u32
  m_rewardBlocksWindow :: u64
  m_minerTxBlobReservedSize :: u64
  m_maxTransactionSizeLimit :: u64
  m_minMixin :: u64
  m_maxMixin :: u64
  m_minimumFee :: u64
  m_numberOfDecimalPlaces :: nat
  m_coin :: u64
  m_governancePercent :: u32
  m_governanceHeightStart :: u32
  m_governanceHeightEnd :: u32
  m_difficultyTarget :: u64
  m_difficultyWindow :: u64
  m_difficultyLag :: u64
  m_maxBlockSizeInitial :: u64
  m_maxBlockSizeGrowthSpeedNumerator :: u64
  m_maxBlockSizeGrowthSpeedDenominator :: u64
  m_lockedTxAllowedDeltaSeconds :: u64
  m_lockedTxAllowedDeltaBlocks :: u64
  m_mempoolTxLiveTime :: u64
  m_mempoolTxFromAltBlockLiveTime :: u64
  m_numberOfPeriodsToForgetTxDeletedFromPool :: u64
  m_fusionTxMaxSize :: u64
  m_fusionTxMinInputCount :: u64
  m_fusionTxMinInOutCountRatio :: u64
  m_upgradeHeightV2 :: u32
  m_upgradeHeightV3 :: u32
  m_upgradeHeightV4 :: u32
  m_upgradeHeightV5 :: u32
  m_upgradeHeightV6 :: u32
  m_upgradeVotingThreshold :: u32
  m_upgradeVotingWindow :: u32
  m_upgradeWindow :: u32
  m_testnet :: bool

definition emissionSpeedFactor :: "u32 \<Rightarrow> Currency \<Rightarrow> Currency result" where
  "emissionSpeedFactor val c =
     (if val \<le> 0 \<or> 64 < val then Inl InvalidArgument else Inr (c\<lparr>m_emissionSpeedFactor := val\<rparr>))"

definition numberOfDecimalPlaces :: "nat \<Rightarrow> Currency \<Rightarrow> Currency" where
  "numberOfDecimalPlaces val c = c\<lparr>m_numberOfDecimalPlaces := val, m_coin := ((\<lambda>coin. coin * 10) ^^ val) 1\<rparr>"

definition difficultyWindow :: "u64 \<Rightarrow> Currency \<Rightarrow> Currency result" where
  "difficultyWindow val c = (if val < 2 then Inl InvalidArgument else Inr (c\<lparr>m_difficultyWindow := val\<rparr>))"

definition upgradeVotingThreshold :: "u32 \<Rightarrow> Currency \<Rightarrow> Currency result" where
  "upgradeVotingThreshold val c =
     (if val \<le> 0 \<or> 100 < val then Inl InvalidArgument else Inr (c\<lparr>m_upgradeVotingThreshold := val\<rparr>))"

definition upgradeWindow :: "u64 \<Rightarrow> Currency \<Rightarrow> Currency result" where
  "upgradeWindow val c = (if val \<le> 0 then Inl InvalidArgument else Inr (c\<lparr>m_upgradeWindow := ucast val\<rparr>))"

text \<open>The constructor of \<^verbatim>\<open>CurrencyBuilder\<close>: the setters in the code's order; those without a check are record updates.\<close>

definition CurrencyBuilder :: "Currency \<Rightarrow> Currency result" where
  "CurrencyBuilder c =
     (let c = c\<lparr>m_maxBlockHeight := CRYPTONOTE_MAX_BLOCK_NUMBER,
                m_publicAddressBase58Prefix := CRYPTONOTE_PUBLIC_ADDRESS_BASE58_PREFIX,
                m_minedMoneyUnlockWindow := CRYPTONOTE_TX_SPENDABLE_AGE,
                m_timestampCheckWindow := BLOCKCHAIN_TIMESTAMP_CHECK_WINDOW,
                m_blockFutureTimeLimit := CRYPTONOTE_BLOCK_FUTURE_TIME_LIMIT, m_moneySupply := MONEY_SUPPLY\<rparr>
      in andThen (emissionSpeedFactor EMISSION_SPEED_FACTOR c) (\<lambda>c.
         let c = numberOfDecimalPlaces CRYPTONOTE_DISPLAY_DECIMAL_POINT
                   (c\<lparr>m_rewardBlocksWindow := CRYPTONOTE_REWARD_BLOCKS_WINDOW,
                      m_minerTxBlobReservedSize := CRYPTONOTE_COINBASE_BLOB_RESERVED_SIZE,
                      m_maxTransactionSizeLimit := MAX_TRANSACTION_SIZE_LIMIT, m_governancePercent := GOVERNANCE_PERCENT_FEE, m_governanceHeightStart := GOVERNANCE_HEIGHT_START,
                      m_governanceHeightEnd := GOVERNANCE_HEIGHT_END, m_minMixin := MIN_TX_MIXIN_SIZE,
                      m_maxMixin := MAX_TX_MIXIN_SIZE\<rparr>)
         in andThen (difficultyWindow DIFFICULTY_WINDOW (c\<lparr>m_minimumFee := MINIMUM_FEE, m_difficultyTarget := DIFFICULTY_TARGET\<rparr>)) (\<lambda>c.
            let c = c\<lparr>m_difficultyLag := DIFFICULTY_LAG, m_maxBlockSizeInitial := MAX_BLOCK_SIZE_INITIAL,
                      m_maxBlockSizeGrowthSpeedNumerator := MAX_BLOCK_SIZE_GROWTH_SPEED_NUMERATOR,
                      m_maxBlockSizeGrowthSpeedDenominator := MAX_BLOCK_SIZE_GROWTH_SPEED_DENOMINATOR,
                      m_lockedTxAllowedDeltaSeconds := CRYPTONOTE_LOCKED_TX_ALLOWED_DELTA_SECONDS,
                      m_lockedTxAllowedDeltaBlocks := CRYPTONOTE_LOCKED_TX_ALLOWED_DELTA_BLOCKS,
                      m_mempoolTxLiveTime := CRYPTONOTE_MEMPOOL_TX_LIVETIME,
                      m_mempoolTxFromAltBlockLiveTime := CRYPTONOTE_MEMPOOL_TX_FROM_ALT_BLOCK_LIVETIME,
                      m_numberOfPeriodsToForgetTxDeletedFromPool :=
                        CRYPTONOTE_NUMBER_OF_PERIODS_TO_FORGET_TX_DELETED_FROM_POOL,
                      m_fusionTxMaxSize := FUSION_TX_MAX_SIZE, m_fusionTxMinInputCount := FUSION_TX_MIN_INPUT_COUNT,
                      m_fusionTxMinInOutCountRatio := FUSION_TX_MIN_IN_OUT_COUNT_RATIO,
                      m_upgradeHeightV2 := UPGRADE_HEIGHT_V2, m_upgradeHeightV3 := UPGRADE_HEIGHT_V3,
                      m_upgradeHeightV4 := UPGRADE_HEIGHT_V4, m_upgradeHeightV5 := UPGRADE_HEIGHT_V5,
                      m_upgradeHeightV6 := UPGRADE_HEIGHT_V6\<rparr>
            in andThen (upgradeVotingThreshold UPGRADE_VOTING_THRESHOLD c) (\<lambda>c.
               andThen (upgradeWindow (ucast UPGRADE_WINDOW) (c\<lparr>m_upgradeVotingWindow := UPGRADE_VOTING_WINDOW\<rparr>)) (\<lambda>c.
               Inr (c\<lparr>m_testnet := False\<rparr>))))))"

section \<open>Heights and sizes\<close>

definition upgradeHeight :: "Currency \<Rightarrow> u8 \<Rightarrow> u32" where
  "upgradeHeight c major =
     (if major = BLOCK_MAJOR_VERSION_6 then m_upgradeHeightV6 c
      else if major = 5 then m_upgradeHeightV5 c
      else if major = 4 then m_upgradeHeightV4 c
      else if major = 3 then m_upgradeHeightV3 c
      else if major = 2 then m_upgradeHeightV2 c
      else if major = BLOCK_MAJOR_VERSION_1 then ucast BLOCK_MAJOR_VERSION_1
      else - 1)"

definition blockGrantedFullRewardZoneByBlockVersion :: "u8 \<Rightarrow> u64" where
  "blockGrantedFullRewardZoneByBlockVersion blockMajorVersion = CRYPTONOTE_BLOCK_GRANTED_FULL_REWARD_ZONE"

definition difficultyBlocksCountByBlockVersion :: "Currency \<Rightarrow> u8 \<Rightarrow> u64" where
  "difficultyBlocksCountByBlockVersion c blockMajorVersion =
     (if 3 \<le> blockMajorVersion then DIFFICULTY_WINDOW_V2 else m_difficultyWindow c + m_difficultyLag c)"

definition minNumberVotingBlocks :: "Currency \<Rightarrow> u32" where
  "minNumberVotingBlocks c = (m_upgradeVotingWindow c * m_upgradeVotingThreshold c + 99) div 100"

definition maxUpgradeDistance :: "Currency \<Rightarrow> u32" where
  "maxUpgradeDistance c = 7 * m_upgradeWindow c"

definition calculateUpgradeHeight :: "Currency \<Rightarrow> u32 \<Rightarrow> u32" where
  "calculateUpgradeHeight c voteCompleteHeight = voteCompleteHeight + m_upgradeWindow c"

text \<open>\<open>None\<close> when an assertion fails.\<close>

definition maxBlockCumulativeSize :: "Currency \<Rightarrow> u64 \<Rightarrow> u64 option" where
  "maxBlockCumulativeSize c height =
     (if \<not> height \<le> - 1 div m_maxBlockSizeGrowthSpeedNumerator c then None
      else (let maxSize = m_maxBlockSizeInitial c
                  + (height * m_maxBlockSizeGrowthSpeedNumerator c) div m_maxBlockSizeGrowthSpeedDenominator c
            in if maxSize < m_maxBlockSizeInitial c then None else Some maxSize))"

definition isGovernanceEnabled :: "Currency \<Rightarrow> u32 \<Rightarrow> bool" where
  "isGovernanceEnabled c height = (if m_governanceHeightStart c \<le> height \<and> height \<le> m_governanceHeightEnd c then True else False)"

definition getApproximateMaximumInputCount :: "u64 \<Rightarrow> u64 \<Rightarrow> u64 \<Rightarrow> u64" where
  "getApproximateMaximumInputCount transactionSize outputCount mixinCount =
     (let KEY_IMAGE_SIZE = 32; OUTPUT_KEY_SIZE = 32; AMOUNT_SIZE = 8 + 2; GLOBAL_INDEXES_VECTOR_SIZE_SIZE = 1;
          GLOBAL_INDEXES_INITIAL_VALUE_SIZE = 4; GLOBAL_INDEXES_DIFFERENCE_SIZE = 4; SIGNATURE_SIZE = 64;
          EXTRA_TAG_SIZE = 1; INPUT_TAG_SIZE = 1; OUTPUT_TAG_SIZE = 1; PUBLIC_KEY_SIZE = 32;
          TRANSACTION_VERSION_SIZE = 1; TRANSACTION_UNLOCK_TIME_SIZE = 8;
          outputsSize = outputCount * (OUTPUT_TAG_SIZE + OUTPUT_KEY_SIZE + AMOUNT_SIZE);
          headerSize = TRANSACTION_VERSION_SIZE + TRANSACTION_UNLOCK_TIME_SIZE + EXTRA_TAG_SIZE + PUBLIC_KEY_SIZE;
          inputSize = INPUT_TAG_SIZE + AMOUNT_SIZE + KEY_IMAGE_SIZE + SIGNATURE_SIZE + GLOBAL_INDEXES_VECTOR_SIZE_SIZE
            + GLOBAL_INDEXES_INITIAL_VALUE_SIZE + mixinCount * (GLOBAL_INDEXES_DIFFERENCE_SIZE + SIGNATURE_SIZE)
      in (transactionSize - headerSize - outputsSize) div inputSize)"

section \<open>Rewards\<close>

definition getBaseReward :: "Currency \<Rightarrow> u64 \<Rightarrow> u32 \<Rightarrow> u64" where
  "getBaseReward c alreadyGeneratedCoins height =
     (if FIXED_REWARDING then
        (let shift = ucast height div REWARD_HALVING_INTERVAL;
             baseReward = (if 64 \<le> shift then 0 else drop_bit (unat shift) START_BLOCK_REWARD);
             baseReward = max baseReward MIN_BLOCK_REWARD
         in min baseReward (m_moneySupply c - alreadyGeneratedCoins))
      else drop_bit (unat (m_emissionSpeedFactor c)) (m_moneySupply c - alreadyGeneratedCoins))"

text \<open>
  The factor for the block's solving time is a floating-point number; \<open>scale\<close> stands for that multiplication: it takes
  the height, the block's target and the base reward and gives the product converted back to an integer. The result is
  the reward and the emission change, \<open>None\<close> when the block is too big or the penalty computation traps.
\<close>

definition getBlockReward ::
  "(u32 \<Rightarrow> u64 \<Rightarrow> u64 \<Rightarrow> u64) \<Rightarrow> Currency \<Rightarrow> u8 \<Rightarrow> u64 \<Rightarrow> u64 \<Rightarrow> u64 \<Rightarrow> u64 \<Rightarrow> u32 \<Rightarrow> u64 \<Rightarrow> (u64 \<times> u64) option" where
  "getBlockReward scale c blockMajorVersion medianSize currentBlockSize alreadyGeneratedCoins fee height blockTarget =
     (let baseReward = scale height blockTarget (getBaseReward c alreadyGeneratedCoins height);
          baseReward =
            (if m_moneySupply c \<le> alreadyGeneratedCoins + TAIL_EMISSION_REWARD \<or> baseReward < TAIL_EMISSION_REWARD
             then TAIL_EMISSION_REWARD else baseReward);
          medianSize = max medianSize (blockGrantedFullRewardZoneByBlockVersion blockMajorVersion)
      in if medianSize * 2 < currentBlockSize then None
         else do {
           penalizedBaseReward \<leftarrow> getPenalizedAmount baseReward medianSize currentBlockSize;
           penalizedFee \<leftarrow> getPenalizedAmount fee medianSize currentBlockSize;
           Some (penalizedBaseReward + penalizedFee, penalizedBaseReward - (fee - penalizedFee))
         })"

section \<open>Fusion transactions\<close>

definition isFusionTransaction_amounts :: "Currency \<Rightarrow> u64 list \<Rightarrow> u64 list \<Rightarrow> u64 \<Rightarrow> bool" where
  "isFusionTransaction_amounts c inputsAmounts outputsAmounts sz =
     (if m_fusionTxMaxSize c < sz then False
      else if word_of_nat (length inputsAmounts) < m_fusionTxMinInputCount c then False
      else if word_of_nat (length inputsAmounts) < word_of_nat (length outputsAmounts) * m_fusionTxMinInOutCountRatio c then False
      else (let inputAmount = fold (\<lambda>amount s. s + amount) inputsAmounts 0
            in sort (decomposeAmount inputAmount 0 []) = outputsAmounts))"

definition isFusionTransaction_sized :: "Currency \<Rightarrow> Transaction \<Rightarrow> u64 \<Rightarrow> bool" where
  "isFusionTransaction_sized c transaction sz =
     isFusionTransaction_amounts c (getInputsAmounts transaction) (map to_amount (outputs transaction)) sz"

definition isFusionTransaction :: "Currency \<Rightarrow> Transaction \<Rightarrow> bool" where
  "isFusionTransaction c transaction =
     isFusionTransaction_sized c transaction (snd (getObjectBinarySize put_Transaction transaction))"

text \<open>The position in the table, divided by nine, is the power of ten.\<close>

definition isAmountApplicableInFusionTransactionInput :: "u64 \<Rightarrow> u64 \<Rightarrow> u8 option" where
  "isAmountApplicableInFusionTransactionInput amount threshold =
     (if threshold \<le> amount then None
      else (let before = takeWhile (\<lambda>p. p < amount) PRETTY_AMOUNTS; after = dropWhile (\<lambda>p. p < amount) PRETTY_AMOUNTS
            in if after = [] \<or> amount \<noteq> hd after then None else Some (word_of_nat (length before div 9))))"

section \<open>Amounts and addresses as text\<close>

definition formatAmount :: "Currency \<Rightarrow> u64 \<Rightarrow> bytes" where
  "formatAmount c amount =
     (let d = m_numberOfDecimalPlaces c;
          s = to_string amount;
          s = (if length s < d + 1 then replicate (d + 1 - length s) 48 @ s else s)
      in take (length s - d) s @ [46] @ drop (length s - d) s)"

definition formatAmount_signed :: "Currency \<Rightarrow> u64 \<Rightarrow> bytes" where
  "formatAmount_signed c amount =
     (let s = formatAmount c (if sint amount < 0 then - amount else amount) in if sint amount < 0 then 45 # s else s)"

definition trim :: "bytes \<Rightarrow> bytes" where
  "trim s = rev (dropWhile isspace (rev (dropWhile isspace s)))"

fun strip_zeros :: "nat \<Rightarrow> nat \<Rightarrow> bytes \<Rightarrow> nat \<times> bytes" where
  "strip_zeros d 0 s = (0, s)"
| "strip_zeros d (Suc f) s = (if d < Suc f \<and> s \<noteq> [] \<and> last s = 48 then strip_zeros d f (butlast s) else (Suc f, s))"

definition parseAmount :: "Currency \<Rightarrow> bytes \<Rightarrow> u64 option" where
  "parseAmount c str =
     (let d = m_numberOfDecimalPlaces c;
          strAmount = trim str;
          pointIndex = length (takeWhile (\<lambda>b. b \<noteq> 46) strAmount);
          (fractionSize, strAmount) =
            (if 46 \<in> set strAmount then strip_zeros d (length strAmount - pointIndex - 1) strAmount else (0, strAmount))
      in if d < fractionSize then None
         else (let strAmount = (if 46 \<in> set strAmount then take pointIndex strAmount @ drop (pointIndex + 1) strAmount else strAmount)
               in if strAmount = [] then None
                  else if \<not> list_all isdigit strAmount then None
                  else fromString (strAmount @ replicate (d - fractionSize) 48)))"

definition accountAddressAsString :: "Currency \<Rightarrow> AccountPublicAddress \<Rightarrow> bytes option" where
  "accountAddressAsString c accountPublicAddress = getAccountAddressAsStr (m_publicAddressBase58Prefix c) accountPublicAddress"

definition currency_parseAccountAddressString :: "(bytes \<Rightarrow> bool) \<Rightarrow> Currency \<Rightarrow> bytes \<Rightarrow> AccountPublicAddress option" where
  "currency_parseAccountAddressString checkKey c str =
     (case parseAccountAddressString checkKey str of
        None \<Rightarrow> None
      | Some (prefix, addr) \<Rightarrow> if prefix \<noteq> m_publicAddressBase58Prefix c then None else Some addr)"

section \<open>Difficulty\<close>

definition checkProofOfWork :: "(bytes \<Rightarrow> hash) \<Rightarrow> Block \<Rightarrow> u64 \<Rightarrow> bool" where
  "checkProofOfWork cn_pow_hash_v1 block currentDiffic =
     (case getBlockLongHash cn_pow_hash_v1 block of None \<Rightarrow> False | Some proofOfWork \<Rightarrow> check_hash proofOfWork currentDiffic)"

definition clif_mean :: "u64 \<Rightarrow> u64 \<Rightarrow> u64" where
  "clif_mean mean_diff new_diff = (if 0 < mean_diff then min mean_diff new_diff else new_diff)"

text \<open>The halving loop: it runs at most \<open>decrease_counter - round_counter\<close> times.\<close>

fun clif_loop :: "nat \<Rightarrow> u64 \<Rightarrow> u64" where
  "clif_loop 0 new_diff = new_diff"
| "clif_loop (Suc n) new_diff =
     (let new_diff = new_diff div 2 in if new_diff \<le> DEFAULT_DIFFICULTY then new_diff else clif_loop n new_diff)"

text \<open>
  \<open>means\<close> are the averages that the callback gives for the hour, day, week, month, half year and year. The counter is
  computed in signed 32-bit arithmetic, whose division rounds towards zero.
\<close>

definition getClifDifficulty :: "u64 \<Rightarrow> u64 \<Rightarrow> u64 list \<Rightarrow> u64" where
  "getClifDifficulty last_difficulty currentSolveTime means =
     (if DEFAULT_DIFFICULTY < last_difficulty then
        (let correction_interval = currentSolveTime - CRYPTONOTE_CLIF_THRESHOLD;
             i = sint (ucast correction_interval :: u32);
             target = sint (ucast DIFFICULTY_TARGET :: u32);
             decrease_counter = (if i < 0 then - ((- i) div target) else i div target) + 1;
             new_diff = fold clif_mean means (last_difficulty div 2);
             new_diff = (if 1 < decrease_counter then clif_loop (nat (decrease_counter - 1)) new_diff else new_diff)
         in max new_diff DEFAULT_DIFFICULTY)
      else last_difficulty)"

section \<open>The builder\<close>

definition currency_wf :: "Currency \<Rightarrow> bool" where
  "currency_wf c \<longleftrightarrow> 0 < m_emissionSpeedFactor c \<and> m_emissionSpeedFactor c \<le> 64 \<and> 2 \<le> m_difficultyWindow c \<and>
     0 < m_upgradeVotingThreshold c \<and> m_upgradeVotingThreshold c \<le> 100"

lemma funpow_times: "((\<lambda>x :: u64. x * 10) ^^ n) 1 = 10 ^ n"
  by (induction n) simp_all

text \<open>
  The builder's checked setters refuse exactly the values outside their ranges and otherwise keep the ranges of
  the other fields; the constructor's parameters are all in range, so it never throws, and the coin is worth
  10 to the number of decimal places.
\<close>

theorem builder_checks_ranges:
  "(emissionSpeedFactor v c = Inl InvalidArgument \<longleftrightarrow> v = 0 \<or> 64 < v) \<and>
   (upgradeVotingThreshold v c = Inl InvalidArgument \<longleftrightarrow> v = 0 \<or> 100 < v) \<and>
   (currency_wf c \<and> emissionSpeedFactor v c = Inr c' \<or> currency_wf c \<and> upgradeVotingThreshold v c = Inr c' \<or>
    currency_wf c \<and> difficultyWindow w c = Inr c' \<or> currency_wf c \<and> upgradeWindow w c = Inr c' \<longrightarrow> currency_wf c') \<and>
   (\<exists>c'. CurrencyBuilder c = Inr c' \<and> currency_wf c' \<and> m_coin c' = 10 ^ m_numberOfDecimalPlaces c' \<and>
      m_upgradeVotingWindow c' = 720 \<and> m_upgradeWindow c' = 720)"
proof (intro conjI)
  show "\<exists>c'. CurrencyBuilder c = Inr c' \<and> currency_wf c' \<and> m_coin c' = 10 ^ m_numberOfDecimalPlaces c' \<and>
      m_upgradeVotingWindow c' = 720 \<and> m_upgradeWindow c' = 720"
    by (simp add: CurrencyBuilder_def emissionSpeedFactor_def numberOfDecimalPlaces_def difficultyWindow_def
        upgradeVotingThreshold_def upgradeWindow_def currency_parameters currency_wf_def funpow_times Let_def)
qed (auto simp: emissionSpeedFactor_def upgradeVotingThreshold_def difficultyWindow_def upgradeWindow_def currency_wf_def
    word_gt_0 not_less split: if_splits)

theorem builder_checks_ranges_witness:
  "currency_wf (undefined\<lparr>m_emissionSpeedFactor := 3, m_difficultyWindow := 2, m_upgradeVotingThreshold := 50\<rparr>) \<and>
   emissionSpeedFactor 65 undefined = Inl InvalidArgument"
  using builder_checks_ranges [of 3 "undefined\<lparr>m_emissionSpeedFactor := 1, m_difficultyWindow := 2, m_upgradeVotingThreshold := 50\<rparr>"
      "undefined\<lparr>m_emissionSpeedFactor := 3, m_difficultyWindow := 2, m_upgradeVotingThreshold := 50\<rparr>" 2]
    builder_checks_ranges [of 65 undefined undefined 2]
  by (simp add: currency_wf_def emissionSpeedFactor_def)

section \<open>Rewards\<close>

lemma base_reward_schedule:
  "getBaseReward c coins height =
   min (max (if 64 \<le> (ucast height :: u64) div 11000 then 0 else drop_bit (unat ((ucast height :: u64) div 11000)) START_BLOCK_REWARD)
     MIN_BLOCK_REWARD) (m_moneySupply c - coins)"
  by (simp add: getBaseReward_def FIXED_REWARDING_def REWARD_HALVING_INTERVAL_def Let_def)

lemma drop_bit_antimono: "m \<le> n \<Longrightarrow> drop_bit n (x :: u64) \<le> drop_bit m x"
  by (simp add: word_le_nat_alt unat_drop_bit_div div_le_mono2 power_increasing)

text \<open>
  The base reward never exceeds what is left of the money supply, lies between the minimal and the initial reward
  while enough is left, and does not grow with the height.
\<close>

theorem base_reward_bounds:
  "getBaseReward c coins height \<le> m_moneySupply c - coins \<and>
   getBaseReward c coins height \<le> START_BLOCK_REWARD \<and>
   (MIN_BLOCK_REWARD \<le> m_moneySupply c - coins \<longrightarrow> MIN_BLOCK_REWARD \<le> getBaseReward c coins height) \<and>
   (h1 \<le> h2 \<longrightarrow> getBaseReward c coins h2 \<le> getBaseReward c coins h1)"
proof -
  let ?r = "\<lambda>h :: u32. if 64 \<le> (ucast h :: u64) div 11000 then 0 else drop_bit (unat ((ucast h :: u64) div 11000)) START_BLOCK_REWARD"
  have s: "?r h \<le> START_BLOCK_REWARD" for h
    using drop_bit_antimono [of 0 "unat ((ucast h :: u64) div 11000)" START_BLOCK_REWARD] by simp
  have m: "MIN_BLOCK_REWARD \<le> START_BLOCK_REWARD" by (simp add: currency_parameters)
  have "?r h2 \<le> ?r h1" if "h1 \<le> h2"
  proof -
    have "(ucast h1 :: u64) div 11000 \<le> ucast h2 div 11000"
      using that by (simp add: word_le_nat_alt unat_div unat_ucast_up div_le_mono)
    then show ?thesis using drop_bit_antimono by (auto simp: word_le_nat_alt)
  qed
  then show ?thesis unfolding base_reward_schedule using s [of height] m
    by (auto simp: min_le_iff_disj max_def intro: min.mono max.mono order.trans)
qed

theorem base_reward_bounds_witness:
  "getBaseReward (undefined\<lparr>m_moneySupply := - 1\<rparr>) 0 22000 \<le> getBaseReward (undefined\<lparr>m_moneySupply := - 1\<rparr>) 0 11000 \<and>
   MIN_BLOCK_REWARD \<le> getBaseReward (undefined\<lparr>m_moneySupply := - 1\<rparr>) 0 22000"
  using base_reward_bounds [of "undefined\<lparr>m_moneySupply := - 1\<rparr>" 0 22000 11000 22000] by simp

section \<open>Difficulty after a long block\<close>

lemma fold_clif_mean_le: "fold clif_mean ms d \<le> d"
proof (induction ms arbitrary: d)
  case (Cons m ms)
  have "clif_mean m d \<le> d" by (simp add: clif_mean_def)
  then show ?case using Cons [of "clif_mean m d"] by (auto intro: order.trans)
qed simp

lemma div2_le: "(x :: u64) div 2 \<le> x"
  by (simp add: word_le_nat_alt unat_div)

lemma clif_loop_le: "clif_loop n d \<le> d"
proof (induction n d rule: clif_loop.induct)
  case (2 n d)
  then show ?case using div2_le [of d] by (auto simp: Let_def intro: order.trans)
qed simp

lemma clif_loop_bottom: "unat d < 2 ^ n \<Longrightarrow> 0 < n \<Longrightarrow> clif_loop n d \<le> DEFAULT_DIFFICULTY"
proof (induction n d rule: clif_loop.induct)
  case (2 n d)
  have "unat (d div 2) < 2 ^ n" using 2(2) by (simp add: unat_div)
  then show ?case using 2(1) [OF refl]
    by (cases n) (auto simp: Let_def DEFAULT_DIFFICULTY_def word_le_nat_alt)
qed simp

text \<open>
  C35: the difficulty after a block that took long never falls below the default difficulty and never exceeds half of
  the last difficulty (or the default); and when the block is late by 64 targets or more (within the range of a
  signed 32-bit number of seconds) it is back at the default difficulty, whatever it was: mining cannot get stuck.
\<close>

theorem clif_recovers:
  "(DEFAULT_DIFFICULTY < d \<longrightarrow>
      DEFAULT_DIFFICULTY \<le> getClifDifficulty d t ms \<and> getClifDifficulty d t ms \<le> max (d div 2) DEFAULT_DIFFICULTY) \<and>
   (DEFAULT_DIFFICULTY < d \<and> 3600 + 64 * 120 \<le> unat t \<and> unat t < 3600 + 2 ^ 31 \<longrightarrow>
      getClifDifficulty d t ms = DEFAULT_DIFFICULTY)"
proof (intro conjI impI; (elim conjE)?)
  assume d: "DEFAULT_DIFFICULTY < d"
  let ?m = "fold clif_mean ms (d div 2)"
  have le: "clif_loop n ?m \<le> d div 2" for n using clif_loop_le [of n ?m] fold_clif_mean_le [of ms "d div 2"] by simp
  show "DEFAULT_DIFFICULTY \<le> getClifDifficulty d t ms"
    using d by (simp add: getClifDifficulty_def Let_def)
  show "getClifDifficulty d t ms \<le> max (d div 2) DEFAULT_DIFFICULTY"
    using d le fold_clif_mean_le [of ms "d div 2"] by (simp add: getClifDifficulty_def Let_def max.coboundedI1)
next
  assume d: "DEFAULT_DIFFICULTY < d" and t: "3600 + 64 * 120 \<le> unat t" "unat t < 3600 + 2 ^ 31"
  let ?i = "ucast (t - CRYPTONOTE_CLIF_THRESHOLD) :: u32" and ?m = "fold clif_mean ms (d div 2)"
  have u: "unat (t - CRYPTONOTE_CLIF_THRESHOLD) = unat t - 3600"
    using t(1) by (simp add: CRYPTONOTE_CLIF_THRESHOLD_def unat_sub word_le_nat_alt)
  have "unat ?i = unat t - 3600" using u t(2) by (simp add: unat_ucast_mod)
  then have "uint ?i = int (unat t - 3600)" by (metis uint_nat)
  moreover have "sint ?i = uint ?i" using \<open>uint ?i = _\<close> t(2) by (simp add: sint_uint signed_take_bit_int_eq_self)
  ultimately have i: "sint ?i = int (unat t - 3600)" by simp
  have tg: "sint (ucast DIFFICULTY_TARGET :: u32) = 120" by (simp add: DIFFICULTY_TARGET_def)
  have "sint ?i div 120 = int ((unat t - 3600) div 120)" unfolding i by (simp only: zdiv_int of_nat_numeral)
  then have nd: "nat (sint ?i div 120) = (unat t - 3600) div 120" by (simp only: nat_int)
  have n: "64 \<le> nat (sint ?i div 120)" unfolding nd using div_le_mono [of 7680 "unat t - 3600" 120] t(1) by simp
  then have "(2 :: nat) ^ 64 \<le> 2 ^ nat (sint ?i div 120)" by (intro power_increasing) simp_all
  then have "unat ?m < 2 ^ nat (sint ?i div 120)" using unsigned_less [of ?m, where 'a = nat] by simp
  then have bot: "clif_loop (nat (sint ?i div 120)) ?m \<le> DEFAULT_DIFFICULTY" using clif_loop_bottom n by simp
  have "getClifDifficulty d t ms = max (clif_loop (nat (sint ?i div 120)) ?m) DEFAULT_DIFFICULTY"
    using d n i unfolding getClifDifficulty_def Let_def tg by simp
  then show "getClifDifficulty d t ms = DEFAULT_DIFFICULTY" using bot by simp
qed

theorem clif_recovers_witness: "getClifDifficulty 1000000 20000 [5000, 0] = DEFAULT_DIFFICULTY"
  using clif_recovers [of 1000000 20000 "[5000, 0]"] by (simp add: DEFAULT_DIFFICULTY_def)

section \<open>Amounts as text\<close>

lemma strip_zeros_exact: "f \<le> d \<Longrightarrow> strip_zeros d f s = (f, s)"
  by (cases f) simp_all

lemma trim_id: "s \<noteq> [] \<Longrightarrow> \<not> isspace (hd s) \<Longrightarrow> \<not> isspace (last s) \<Longrightarrow> trim s = s"
proof -
  assume s: "s \<noteq> []" "\<not> isspace (hd s)" "\<not> isspace (last s)"
  then have "dropWhile isspace s = s" "dropWhile isspace (rev s) = rev s"
    by (simp_all add: dropWhile_eq_self_iff hd_rev)
  then show ?thesis by (simp add: trim_def)
qed

lemma isspace_point [simp]: "\<not> isspace 46"
  by (simp add: isspace_def)

lemma takeWhile_point: "list_all isdigit ds \<Longrightarrow> takeWhile (\<lambda>b. b \<noteq> 46) (ds @ 46 # r) = ds"
  using isdigit_props by (induction ds) auto

lemma parse_pointed:
  assumes "list_all isdigit a" and "list_all isdigit b" and "a \<noteq> []" and "length b = m_numberOfDecimalPlaces c"
    and "decimal (a @ b) < 2 ^ 64"
  shows "parseAmount c (a @ 46 # b) = Some (word_of_nat (decimal (a @ b)))"
proof -
  have "\<not> isspace (hd (a @ 46 # b))"
    using assms(1,3) isdigit_props by (cases a) auto
  moreover have "\<not> isspace (last (a @ 46 # b))"
    using assms(2) isdigit_props by (cases b rule: rev_cases) auto
  ultimately have t: "trim (a @ 46 # b) = a @ 46 # b" by (intro trim_id) simp_all
  have fs: "fromString (a @ b) = Some (word_of_nat (decimal (a @ b)))"
    using assms by (intro fromString_digits) simp_all
  have "a @ b \<noteq> []" "list_all isdigit (a @ b)" using assms by simp_all
  then show ?thesis
    unfolding parseAmount_def t Let_def takeWhile_point [OF assms(1)] using assms(4)
    by (simp add: strip_zeros_exact fs)
qed

text \<open>
  C34: what \<^verbatim>\<open>formatAmount\<close> prints, \<^verbatim>\<open>parseAmount\<close> reads back, for every amount and every number of decimal places.
\<close>

theorem amount_text_roundtrip: "parseAmount c (formatAmount c amount) = Some amount"
proof -
  let ?d = "m_numberOfDecimalPlaces c"
  define s where "s = (if length (to_string amount) < ?d + 1
    then replicate (?d + 1 - length (to_string amount)) 48 @ to_string amount else to_string amount)"
  have z: "isdigit 48" by (simp add: isdigit_def)
  have dig: "list_all isdigit s" and len: "?d < length s" and val: "decimal s = unat amount"
    using to_decimal_digits [of "unat amount"] z
    by (auto simp: s_def to_string_def decimal_leading_zeros decimal_to_decimal list_all_iff)
  let ?n = "length s - ?d"
  have f: "formatAmount c amount = take ?n s @ 46 # drop ?n s"
    by (simp add: formatAmount_def s_def Let_def)
  have "list_all isdigit (take ?n s)" "list_all isdigit (drop ?n s)"
    using dig by (auto simp: list_all_iff dest: in_set_takeD in_set_dropD)
  moreover have "take ?n s \<noteq> []" "length (drop ?n s) = ?d" using len by auto
  moreover have "decimal (take ?n s @ drop ?n s) < 2 ^ 64"
    using unsigned_less [of amount, where 'a = nat] val by simp
  ultimately have "parseAmount c (take ?n s @ 46 # drop ?n s) = Some (word_of_nat (decimal (take ?n s @ drop ?n s)))"
    by (rule parse_pointed)
  then show ?thesis unfolding f by (simp add: val)
qed

section \<open>Block rewards\<close>

text \<open>
  A block within its full-reward zone keeps the whole reward: for sizes up to the larger of the median and the
  granted zone, the reward is the base reward (at least the tail emission) plus the fee, and the emission changes by
  the reward without the fee. A block of more than twice that size is refused.
\<close>

theorem block_reward_unpenalised:
  "(currentBlockSize \<le> max medianSize CRYPTONOTE_BLOCK_GRANTED_FULL_REWARD_ZONE \<and> unat medianSize < 2 ^ 63 \<longrightarrow>
     (\<exists>base. TAIL_EMISSION_REWARD \<le> base \<and>
       getBlockReward scale c v medianSize currentBlockSize coins fee height target = Some (base + fee, base))) \<and>
   (2 * max (unat medianSize) 1000000 < unat currentBlockSize \<and> unat medianSize < 2 ^ 63 \<longrightarrow>
     getBlockReward scale c v medianSize currentBlockSize coins fee height target = None)"
proof -
  let ?b = "scale height target (getBaseReward c coins height)"
  let ?base = "if m_moneySupply c \<le> coins + TAIL_EMISSION_REWARD \<or> ?b < TAIL_EMISSION_REWARD then TAIL_EMISSION_REWARD else ?b"
  let ?m = "max medianSize CRYPTONOTE_BLOCK_GRANTED_FULL_REWARD_ZONE"
  have um: "unat ?m = max (unat medianSize) 1000000"
    by (simp add: max_def word_le_nat_alt CRYPTONOTE_BLOCK_GRANTED_FULL_REWARD_ZONE_def)
  have dbl: "unat (?m * 2) = 2 * max (unat medianSize) 1000000" if "unat medianSize < 2 ^ 63"
    using that um by (subst unat_mult_no_wrap) simp_all
  have small: "getPenalizedAmount a ?m currentBlockSize = Some a" if "currentBlockSize \<le> ?m" for a
    using that by (simp add: getPenalizedAmount_def)
  show ?thesis
  proof (intro conjI impI; elim conjE)
    assume le: "currentBlockSize \<le> ?m" and med: "unat medianSize < 2 ^ 63"
    have "\<not> ?m * 2 < currentBlockSize"
      using le dbl [OF med] um by (simp add: word_less_nat_alt word_le_nat_alt)
    then have "getBlockReward scale c v medianSize currentBlockSize coins fee height target = Some (?base + fee, ?base)"
      unfolding getBlockReward_def blockGrantedFullRewardZoneByBlockVersion_def Let_def
      by (simp only: small [OF le] if_False bind.bind_lunit diff_self diff_zero)
    moreover have "TAIL_EMISSION_REWARD \<le> ?base" by (simp add: not_less)
    ultimately show "\<exists>base. TAIL_EMISSION_REWARD \<le> base \<and>
       getBlockReward scale c v medianSize currentBlockSize coins fee height target = Some (base + fee, base)" by blast
  next
    assume big: "2 * max (unat medianSize) 1000000 < unat currentBlockSize" and med: "unat medianSize < 2 ^ 63"
    have "?m * 2 < currentBlockSize" using big dbl [OF med] by (simp add: word_less_nat_alt)
    then show "getBlockReward scale c v medianSize currentBlockSize coins fee height target = None"
      unfolding getBlockReward_def blockGrantedFullRewardZoneByBlockVersion_def Let_def by (simp only: if_True)
  qed
qed

theorem block_reward_unpenalised_witness:
  "getBlockReward (\<lambda>h t b. b) (undefined\<lparr>m_moneySupply := - 1\<rparr>) 1 0 3000000 0 5 7 120 = None"
  using block_reward_unpenalised [of 3000000 0 "\<lambda>h t b. b" "undefined\<lparr>m_moneySupply := - 1\<rparr>" 1 0 5 7 120] by simp

end
