(* ===== verification/UpgradeDetector.thy ===== *)
theory UpgradeDetector
  imports Currency "HOL-Library.Monad_Syntax"
begin

text \<open>
  Voting on protocol upgrades: \<^verbatim>\<open>lib/CryptoNoteCore/UpgradeDetector.h\<close>. The state is the height at which the voting was
  complete; the step relation \<open>ud_reachable\<close> pushes and pops blocks.
\<close>

unbundle bit_operations_syntax

section \<open>Operations\<close>

text \<open>
  The chain is the list of its block headers, the detector's state the word \<^verbatim>\<open>m_votingCompleteHeight\<close>. A failing assertion
  is \<open>None\<close>.
\<close>

definition UNDEF_HEIGHT :: u32 where
  "UNDEF_HEIGHT = - 1"

definition BLOCK_MINOR_VERSION_1 :: u8 where
  "BLOCK_MINOR_VERSION_1 = 1"

definition ud_assert :: "bool \<Rightarrow> unit option" where
  "ud_assert b = (if b then Some () else None)"

definition ud_upgradeHeight :: "Currency \<Rightarrow> u8 \<Rightarrow> u32 \<Rightarrow> u32" where
  "ud_upgradeHeight cur targetVersion votingCompleteHeight =
     (if upgradeHeight cur targetVersion = UNDEF_HEIGHT
      then (if votingCompleteHeight = UNDEF_HEIGHT then UNDEF_HEIGHT else calculateUpgradeHeight cur votingCompleteHeight)
      else upgradeHeight cur targetVersion)"

definition getNumberOfVotes :: "Currency \<Rightarrow> u8 \<Rightarrow> BlockHeader list \<Rightarrow> u32 \<Rightarrow> nat" where
  "getNumberOfVotes cur targetVersion bc height =
     (if height < m_upgradeVotingWindow cur - 1 then 0
      else length (filter (\<lambda>i. int (unat (majorVersion (bc ! i))) = int (unat targetVersion) - 1 \<and>
                                minorVersion (bc ! i) = BLOCK_MINOR_VERSION_1)
             [unat (height + 1 - m_upgradeVotingWindow cur)..<Suc (unat height)]))"

definition isVotingComplete :: "Currency \<Rightarrow> u8 \<Rightarrow> BlockHeader list \<Rightarrow> u32 \<Rightarrow> bool option" where
  "isVotingComplete cur targetVersion bc height =
     do {
       ud_assert (upgradeHeight cur targetVersion = UNDEF_HEIGHT);
       ud_assert (1 < m_upgradeVotingWindow cur);
       ud_assert (0 < m_upgradeVotingThreshold cur \<and> m_upgradeVotingThreshold cur \<le> 100);
       Some (unat (m_upgradeVotingThreshold cur * m_upgradeVotingWindow cur) \<le> getNumberOfVotes cur targetVersion bc height * 100)
     }"

fun find_complete :: "Currency \<Rightarrow> u8 \<Rightarrow> BlockHeader list \<Rightarrow> nat list \<Rightarrow> u32 option" where
  "find_complete cur targetVersion bc [] = Some UNDEF_HEIGHT"
| "find_complete cur targetVersion bc (i # is) =
     do {
       complete \<leftarrow> isVotingComplete cur targetVersion bc (word_of_nat i);
       if complete then Some (word_of_nat i) else find_complete cur targetVersion bc is
     }"

definition findVotingCompleteHeight :: "Currency \<Rightarrow> u8 \<Rightarrow> BlockHeader list \<Rightarrow> u32 \<Rightarrow> u32 option" where
  "findVotingCompleteHeight cur targetVersion bc probableUpgradeHeight =
     do {
       ud_assert (upgradeHeight cur targetVersion = UNDEF_HEIGHT);
       let probableVotingCompleteHeight =
         (if maxUpgradeDistance cur < probableUpgradeHeight then probableUpgradeHeight - maxUpgradeDistance cur else 0);
       find_complete cur targetVersion bc [unat probableVotingCompleteHeight..<Suc (unat probableUpgradeHeight)]
     }"

text \<open>
  \<^verbatim>\<open>init\<close>: the new state and the verdict. \<^verbatim>\<open>std::lower_bound\<close> on a chain with non-decreasing versions is the first block that
  is not below the version.
\<close>

definition ud_init :: "Currency \<Rightarrow> u8 \<Rightarrow> BlockHeader list \<Rightarrow> u32 \<Rightarrow> (u32 \<times> bool) option" where
  "ud_init cur targetVersion bc votingCompleteHeight =
     (let uh = upgradeHeight cur targetVersion; t = int (unat targetVersion); back = int (unat (majorVersion (last bc)))
      in if uh = UNDEF_HEIGHT then
           (if bc = [] then Some (UNDEF_HEIGHT, True)
            else if t - 1 = back then
              do { h \<leftarrow> findVotingCompleteHeight cur targetVersion bc (word_of_nat (length bc - 1)); Some (h, True) }
            else if t \<le> back then
              (let it = length (takeWhile (\<lambda>b. majorVersion b < targetVersion) bc)
               in if it = length bc \<or> majorVersion (bc ! it) \<noteq> targetVersion then Some (votingCompleteHeight, False)
                  else do {
                    h \<leftarrow> findVotingCompleteHeight cur targetVersion bc (word_of_nat it);
                    Some (h, h \<noteq> UNDEF_HEIGHT)
                  })
            else Some (UNDEF_HEIGHT, True))
         else if bc \<noteq> [] then
           (if length bc \<le> unat (uh + 1) then Some (votingCompleteHeight, \<not> t \<le> back)
            else if int (unat (majorVersion (bc ! unat uh))) \<noteq> t - 1 then Some (votingCompleteHeight, False)
            else if int (unat (majorVersion (bc ! unat (uh + 1)))) \<noteq> t then Some (votingCompleteHeight, False)
            else Some (votingCompleteHeight, True))
         else Some (votingCompleteHeight, True))"

definition blockPushed :: "Currency \<Rightarrow> u8 \<Rightarrow> BlockHeader list \<Rightarrow> u32 \<Rightarrow> u32 option" where
  "blockPushed cur targetVersion bc votingCompleteHeight =
     (let t = int (unat targetVersion); back = int (unat (majorVersion (last bc)))
      in do {
        ud_assert (bc \<noteq> []);
        if upgradeHeight cur targetVersion \<noteq> UNDEF_HEIGHT then
          do {
            ud_assert (if length bc \<le> unat (upgradeHeight cur targetVersion + 1) then back \<le> t - 1 else t \<le> back);
            Some votingCompleteHeight
          }
        else if votingCompleteHeight \<noteq> UNDEF_HEIGHT then
          do {
            ud_assert (unat votingCompleteHeight < length bc);
            let uh = ud_upgradeHeight cur targetVersion votingCompleteHeight;
            ud_assert (if length bc \<le> unat uh \<or> length bc = unat (uh + 1) then back = t - 1 else back = t);
            Some votingCompleteHeight
          }
        else
          do {
            let lastBlockHeight = word_of_nat (length bc - 1);
            complete \<leftarrow> isVotingComplete cur targetVersion bc lastBlockHeight;
            Some (if complete then lastBlockHeight else votingCompleteHeight)
          }
      })"

definition blockPopped :: "Currency \<Rightarrow> u8 \<Rightarrow> BlockHeader list \<Rightarrow> u32 \<Rightarrow> u32 option" where
  "blockPopped cur targetVersion bc votingCompleteHeight =
     (if votingCompleteHeight \<noteq> UNDEF_HEIGHT then
        do {
          ud_assert (upgradeHeight cur targetVersion = UNDEF_HEIGHT);
          if length bc = unat votingCompleteHeight then Some UNDEF_HEIGHT
          else do {
            ud_assert (unat votingCompleteHeight < length bc);
            Some votingCompleteHeight
          }
        }
      else Some votingCompleteHeight)"

section \<open>The detector knows the first complete voting\<close>

text \<open>
  The states a detector can be in after a sequence of pushed and popped blocks. A chain stays below the largest
  representable height.
\<close>

inductive ud_reachable :: "Currency \<Rightarrow> u8 \<Rightarrow> BlockHeader list \<Rightarrow> u32 \<Rightarrow> bool" for cur targetVersion where
  start: "ud_reachable cur targetVersion [] UNDEF_HEIGHT"
| push: "ud_reachable cur targetVersion bc v \<Longrightarrow> length bc < 2 ^ 32 - 1 \<Longrightarrow>
    blockPushed cur targetVersion (bc @ [b]) v = Some v' \<Longrightarrow> ud_reachable cur targetVersion (bc @ [b]) v'"
| pop: "ud_reachable cur targetVersion (bc @ [b]) v \<Longrightarrow>
    blockPopped cur targetVersion bc v = Some v' \<Longrightarrow> ud_reachable cur targetVersion bc v'"

text \<open>The specification: the first height of the chain at which the voting is complete.\<close>

definition complete_at :: "Currency \<Rightarrow> u8 \<Rightarrow> BlockHeader list \<Rightarrow> nat \<Rightarrow> bool" where
  "complete_at cur targetVersion bc h \<longleftrightarrow>
     unat (m_upgradeVotingThreshold cur * m_upgradeVotingWindow cur) \<le> getNumberOfVotes cur targetVersion bc (word_of_nat h) * 100"

definition is_first_complete :: "Currency \<Rightarrow> u8 \<Rightarrow> BlockHeader list \<Rightarrow> u32 \<Rightarrow> bool" where
  "is_first_complete cur targetVersion bc v \<longleftrightarrow>
     (if v = UNDEF_HEIGHT then \<forall>h < length bc. \<not> complete_at cur targetVersion bc h
      else unat v < length bc \<and> complete_at cur targetVersion bc (unat v) \<and> (\<forall>h < unat v. \<not> complete_at cur targetVersion bc h))"

lemma votes_append:
  assumes "h < length bc" and "length bc \<le> 2 ^ 32 - 1"
  shows "complete_at cur tv (bc @ bs) h \<longleftrightarrow> complete_at cur tv bc h"
proof -
  have "unat (word_of_nat h :: u32) = h" using assms by (simp add: unat_of_nat)
  then have "getNumberOfVotes cur tv (bc @ bs) (word_of_nat h) = getNumberOfVotes cur tv bc (word_of_nat h)"
    using assms(1) unfolding getNumberOfVotes_def
    by (intro if_cong refl arg_cong [where f = length] filter_cong) (auto simp: nth_append)
  then show ?thesis by (simp add: complete_at_def)
qed

lemma isVotingComplete_Some:
  "isVotingComplete cur tv bc (word_of_nat h) = Some r \<Longrightarrow> r = complete_at cur tv bc h"
  by (auto simp: isVotingComplete_def complete_at_def ud_assert_def split: if_splits)

lemma not_undef: "h < 2 ^ 32 - 1 \<Longrightarrow> word_of_nat h \<noteq> UNDEF_HEIGHT \<and> unat (word_of_nat h :: u32) = h"
proof -
  assume "h < 2 ^ 32 - 1"
  then have u: "unat (word_of_nat h :: u32) = h" by (simp add: unat_of_nat)
  moreover have "unat UNDEF_HEIGHT = 2 ^ 32 - 1" by (simp add: UNDEF_HEIGHT_def unsigned_minus_1_eq_mask mask_eq_exp_minus_1)
  ultimately show ?thesis using \<open>h < 2 ^ 32 - 1\<close> by (metis less_irrefl)
qed

lemma reachable_invariant:
  "ud_reachable cur tv bc v \<Longrightarrow> length bc \<le> 2 ^ 32 - 1 \<and>
   (if upgradeHeight cur tv = UNDEF_HEIGHT then is_first_complete cur tv bc v else v = UNDEF_HEIGHT)"
proof (induction rule: ud_reachable.induct)
  case start
  then show ?case by (simp add: is_first_complete_def)
next
  case (push bc v b v')
  note app = votes_append [where bs = "[b]"]
  show ?case
  proof (cases "upgradeHeight cur tv = UNDEF_HEIGHT")
    case False
    then show ?thesis using push by (auto simp: blockPushed_def ud_assert_def Let_def split: if_splits)
  next
    case u: True
    show ?thesis
    proof (cases "v = UNDEF_HEIGHT")
      case False
      then have "v' = v" using push(3) u by (auto simp: blockPushed_def ud_assert_def Let_def split: if_splits)
      then show ?thesis using push(2,4) u False app [of _ bc] by (auto simp: is_first_complete_def)
    next
      case True
      then obtain r where r: "isVotingComplete cur tv (bc @ [b]) (word_of_nat (length bc)) = Some r"
        and v': "v' = (if r then word_of_nat (length bc) else UNDEF_HEIGHT)"
        using push(3) u by (auto simp: blockPushed_def ud_assert_def Let_def bind_eq_Some_conv)
      have none: "\<not> complete_at cur tv (bc @ [b]) h" if "h < length bc" for h
        using that push(2,4) u True app [of h bc] by (auto simp: is_first_complete_def)
      show ?thesis using u v' none isVotingComplete_Some [OF r] not_undef [OF push(2)] push(2)
        by (auto simp: is_first_complete_def less_Suc_eq)
    qed
  qed
next
  case (pop bc b v v')
  note app = votes_append [where bs = "[b]"]
  show ?case
  proof (cases "upgradeHeight cur tv = UNDEF_HEIGHT")
    case False
    then show ?thesis using pop by (auto simp: blockPopped_def ud_assert_def split: if_splits)
  next
    case u: True
    then have inv: "is_first_complete cur tv (bc @ [b]) v" and len: "length bc < 2 ^ 32 - 1" using pop(3) by auto
    show ?thesis
    proof (cases "v = UNDEF_HEIGHT")
      case True
      then have "v' = UNDEF_HEIGHT" using pop(2) by (simp add: blockPopped_def)
      moreover have "\<not> complete_at cur tv bc h" if "h < length bc" for h
      proof -
        have "\<not> complete_at cur tv (bc @ [b]) h" using inv True that by (simp add: is_first_complete_def)
        then show ?thesis using app [of h bc cur tv] that len by simp
      qed
      ultimately show ?thesis using u len by (simp add: is_first_complete_def)
    next
      case False
      then have f: "unat v < Suc (length bc)" "complete_at cur tv (bc @ [b]) (unat v)"
        "\<forall>h < unat v. \<not> complete_at cur tv (bc @ [b]) h" using inv by (auto simp: is_first_complete_def)
      show ?thesis
      proof (cases "unat v = length bc")
        case True
        then have "v' = UNDEF_HEIGHT" using pop(2) False u by (auto simp: blockPopped_def ud_assert_def)
        then show ?thesis using f(3) True u len app [of _ bc] by (auto simp: is_first_complete_def)
      next
        case n: False
        then have "v' = v" using pop(2) False u by (auto simp: blockPopped_def ud_assert_def split: if_splits)
        then show ?thesis using f n False u len app [of _ bc] by (auto simp: is_first_complete_def)
      qed
    qed
  qed
qed

text \<open>
  C17: after any sequence of pushed and popped blocks the upgrade detector's incrementally kept height is the first
  height of the current chain at which the voting is complete (or undefined if there is none, or if the upgrade height
  is fixed), and popping a block never fails an assertion.
\<close>

theorem upgrade_detector_tracks_voting:
  assumes "ud_reachable cur targetVersion bc v"
  shows "(if upgradeHeight cur targetVersion = UNDEF_HEIGHT then is_first_complete cur targetVersion bc v
          else v = UNDEF_HEIGHT) \<and>
    (bc \<noteq> [] \<longrightarrow> blockPopped cur targetVersion (butlast bc) v \<noteq> None)"
proof -
  note inv = reachable_invariant [OF assms]
  have "blockPopped cur targetVersion (butlast bc) v \<noteq> None" if "bc \<noteq> []"
    using inv that by (auto simp: blockPopped_def ud_assert_def is_first_complete_def split: if_splits)
  with inv show ?thesis by blast
qed

definition voting_currency :: Currency where
  "voting_currency = undefined\<lparr>m_upgradeHeightV6 := - 1, m_upgradeVotingWindow := 2, m_upgradeVotingThreshold := 50\<rparr>"

definition voting_block :: BlockHeader where
  "voting_block = \<lparr>majorVersion = 5, minorVersion = 1, nonce = 0, timestamp = 0, previousBlockHash = []\<rparr>"

lemma two_votes: "ud_reachable voting_currency 6 [voting_block, voting_block] 1"
proof -
  note defs = blockPushed_def isVotingComplete_def ud_assert_def getNumberOfVotes_def voting_currency_def voting_block_def
    upgradeHeight_def BLOCK_MAJOR_VERSION_6_def UNDEF_HEIGHT_def BLOCK_MINOR_VERSION_1_def Let_def upt_rec
  have "blockPushed voting_currency 6 ([] @ [voting_block]) UNDEF_HEIGHT = Some UNDEF_HEIGHT" by (simp add: defs)
  then have "ud_reachable voting_currency 6 ([] @ [voting_block]) UNDEF_HEIGHT"
    by (intro ud_reachable.push [OF ud_reachable.start]) simp_all
  moreover have "blockPushed voting_currency 6 ([voting_block] @ [voting_block]) UNDEF_HEIGHT = Some 1" by (simp add: defs)
  ultimately have "ud_reachable voting_currency 6 ([voting_block] @ [voting_block]) 1"
    using ud_reachable.push [of voting_currency 6 "[voting_block]" UNDEF_HEIGHT voting_block 1] by simp
  then show ?thesis by simp
qed

theorem upgrade_detector_tracks_voting_witness:
  "is_first_complete voting_currency 6 [voting_block, voting_block] 1"
  using upgrade_detector_tracks_voting [OF two_votes]
  by (simp add: upgradeHeight_def BLOCK_MAJOR_VERSION_6_def UNDEF_HEIGHT_def voting_currency_def)

end
