(* ===== verification/BlockchainIndices.thy ===== *)
theory BlockchainIndices
  imports OrderedMap FormatUtils "HOL-Library.Multiset"
begin

text \<open>
  The optional indices of the chain: \<^verbatim>\<open>lib/CryptoNoteCore/BlockchainIndices.cpp\<close>. Payment ids, timestamps of blocks and transactions,
  orphaned blocks and numbers of generated transactions. The locale \<open>entry_index\<close> is the contract of the multimaps. Serialisation of the indices is
  left out.
\<close>

unbundle bit_operations_syntax

section \<open>Multimaps\<close>

text \<open>
  \<^verbatim>\<open>std::multimap\<close> keeps equal keys in the order of insertion; the order in which an \<^verbatim>\<open>std::unordered_multimap\<close> lists equal
  keys is unspecified, here it is the order of insertion and the theorems speak of multisets.
\<close>

definition mmap_emplace :: "'k :: linorder \<Rightarrow> 'v \<Rightarrow> ('k \<times> 'v) list \<Rightarrow> ('k \<times> 'v) list" where
  "mmap_emplace k v m = takeWhile (\<lambda>(k', _). k' \<le> k) m @ (k, v) # dropWhile (\<lambda>(k', _). k' \<le> k) m"

definition ummap_insert :: "'k \<Rightarrow> 'v \<Rightarrow> ('k \<times> 'v) list \<Rightarrow> ('k \<times> 'v) list" where
  "ummap_insert k v m = m @ [(k, v)]"

text \<open>The search of an entry in the equal range of a key, and its erasure.\<close>

fun erase_entry :: "'k \<Rightarrow> 'v \<Rightarrow> ('k \<times> 'v) list \<Rightarrow> ('k \<times> 'v) list \<times> bool" where
  "erase_entry k v [] = ([], False)"
| "erase_entry k v (e # m) =
     (if e = (k, v) then (m, True) else (let (m', found) = erase_entry k v m in (e # m', found)))"

definition equal_range :: "'k \<Rightarrow> ('k \<times> 'v) list \<Rightarrow> 'v list" where
  "equal_range k m = map snd (filter (\<lambda>e. fst e = k) m)"

section \<open>The indices\<close>

record 'k hash_index =
  hi_enabled :: bool
  hi_index :: "('k \<times> hash) list"

definition getPaymentId :: "Transaction \<Rightarrow> hash option" where
  "getPaymentId tx =
     (case findTransactionExtraFieldByType asNonce (fst (parseTransactionExtra (extra tx))) of
        None \<Rightarrow> None
      | Some extra_nonce \<Rightarrow> getPaymentIdFromTransactionExtraNonce extra_nonce)"

definition transaction_hash :: "Transaction \<Rightarrow> hash" where
  "transaction_hash tx = snd (getObjectHash getBinaryArrayHash put_Transaction tx)"

definition PaymentIdIndex_add :: "Transaction \<Rightarrow> hash hash_index \<Rightarrow> hash hash_index \<times> bool" where
  "PaymentIdIndex_add tx i =
     (if \<not> hi_enabled i then (i, False)
      else (case getPaymentId tx of
              None \<Rightarrow> (i, False)
            | Some paymentId \<Rightarrow> (i\<lparr>hi_index := ummap_insert paymentId (transaction_hash tx) (hi_index i)\<rparr>, True)))"

definition PaymentIdIndex_remove :: "Transaction \<Rightarrow> hash hash_index \<Rightarrow> hash hash_index \<times> bool" where
  "PaymentIdIndex_remove tx i =
     (if \<not> hi_enabled i then (i, False)
      else (case getPaymentId tx of
              None \<Rightarrow> (i, False)
            | Some paymentId \<Rightarrow>
                (let (m, found) = erase_entry paymentId (transaction_hash tx) (hi_index i)
                 in (i\<lparr>hi_index := m\<rparr>, found))))"

definition index_find :: "'k \<Rightarrow> 'k hash_index \<Rightarrow> hash list result" where
  "index_find k i = (if \<not> hi_enabled i then Inl IndexDisabled else Inr (equal_range k (hi_index i)))"

definition PaymentIdIndex_find :: "hash \<Rightarrow> hash hash_index \<Rightarrow> hash list result" where
  "PaymentIdIndex_find paymentId i = index_find paymentId i"

definition index_clear :: "'k hash_index \<Rightarrow> 'k hash_index" where
  "index_clear i = (if hi_enabled i then i\<lparr>hi_index := []\<rparr> else i)"

definition TimestampBlocksIndex_add :: "u64 \<Rightarrow> hash \<Rightarrow> u64 hash_index \<Rightarrow> u64 hash_index \<times> bool" where
  "TimestampBlocksIndex_add ts h i =
     (if \<not> hi_enabled i then (i, False) else (i\<lparr>hi_index := mmap_emplace ts h (hi_index i)\<rparr>, True))"

definition TimestampBlocksIndex_remove :: "u64 \<Rightarrow> hash \<Rightarrow> u64 hash_index \<Rightarrow> u64 hash_index \<times> bool" where
  "TimestampBlocksIndex_remove ts h i =
     (if \<not> hi_enabled i then (i, False)
      else (let (m, found) = erase_entry ts h (hi_index i) in (i\<lparr>hi_index := m\<rparr>, found)))"

text \<open>The hashes appended to the result, the number of entries in the range, and whether any was appended; a reversed range gives \<open>None\<close>.\<close>

definition TimestampBlocksIndex_find ::
  "u64 \<Rightarrow> u64 \<Rightarrow> u32 \<Rightarrow> u64 hash_index \<Rightarrow> (hash list \<times> u32) option result" where
  "TimestampBlocksIndex_find timestampBegin timestampEnd hashesNumberLimit i =
     (if \<not> hi_enabled i then Inl IndexDisabled
      else if timestampEnd < timestampBegin then Inr None
      else (let range = takeWhile (\<lambda>(k, _). k \<le> timestampEnd) (dropWhile (\<lambda>(k, _). k < timestampBegin) (hi_index i))
            in Inr (Some (map snd (take (unat hashesNumberLimit) range), word_of_nat (length range)))))"

definition TimestampTransactionsIndex_add :: "u64 \<Rightarrow> hash \<Rightarrow> u64 hash_index \<Rightarrow> u64 hash_index \<times> bool" where
  "TimestampTransactionsIndex_add ts h i =
     (if \<not> hi_enabled i then (i, False) else (i\<lparr>hi_index := mmap_emplace ts h (hi_index i)\<rparr>, True))"

definition TimestampTransactionsIndex_remove :: "u64 \<Rightarrow> hash \<Rightarrow> u64 hash_index \<Rightarrow> u64 hash_index \<times> bool" where
  "TimestampTransactionsIndex_remove ts h i =
     (if \<not> hi_enabled i then (i, False)
      else (let (m, found) = erase_entry ts h (hi_index i) in (i\<lparr>hi_index := m\<rparr>, found)))"

text \<open>
  Here the limit and the reported number are 64 bits wide, but the number is cast to 32 bits before it is stored. The
  32-bit counter of the loop does not wrap for an index of fewer than 2 to the 32 entries.
\<close>

definition TimestampTransactionsIndex_find ::
  "u64 \<Rightarrow> u64 \<Rightarrow> u64 \<Rightarrow> u64 hash_index \<Rightarrow> (hash list \<times> u64) option result" where
  "TimestampTransactionsIndex_find timestampBegin timestampEnd hashesNumberLimit i =
     (if \<not> hi_enabled i then Inl IndexDisabled
      else if timestampEnd < timestampBegin then Inr None
      else (let range = takeWhile (\<lambda>(k, _). k \<le> timestampEnd) (dropWhile (\<lambda>(k, _). k < timestampBegin) (hi_index i))
            in Inr (Some (map snd (take (unat hashesNumberLimit) range), ucast (word_of_nat (length range) :: u32)))))"

definition OrphanBlocksIndex_height :: "Block \<Rightarrow> u32 option" where
  "OrphanBlocksIndex_height block =
     (case inputs (baseTransaction block) of TxBaseInput b # _ \<Rightarrow> Some (bi_blockIndex b) | _ \<Rightarrow> None)"

text \<open>A first input that is not a base input makes \<^verbatim>\<open>boost::get\<close> throw: \<open>None\<close>.\<close>

definition OrphanBlocksIndex_add :: "Block \<Rightarrow> u32 hash_index \<Rightarrow> (u32 hash_index \<times> bool) option" where
  "OrphanBlocksIndex_add block i =
     (if \<not> hi_enabled i then Some (i, False)
      else (case OrphanBlocksIndex_height block of
              None \<Rightarrow> None
            | Some blockHeight \<Rightarrow>
                Some (i\<lparr>hi_index := ummap_insert blockHeight (snd (getBlockHash block)) (hi_index i)\<rparr>, True)))"

definition OrphanBlocksIndex_remove :: "Block \<Rightarrow> u32 hash_index \<Rightarrow> (u32 hash_index \<times> bool) option" where
  "OrphanBlocksIndex_remove block i =
     (if \<not> hi_enabled i then Some (i, False)
      else (case OrphanBlocksIndex_height block of
              None \<Rightarrow> None
            | Some blockHeight \<Rightarrow>
                (let (m, found) = erase_entry blockHeight (snd (getBlockHash block)) (hi_index i)
                 in Some (i\<lparr>hi_index := m\<rparr>, found))))"

definition OrphanBlocksIndex_find :: "u32 \<Rightarrow> u32 hash_index \<Rightarrow> hash list result" where
  "OrphanBlocksIndex_find height i = index_find height i"

record GeneratedTransactionsIndex =
  gi_enabled :: bool
  gi_index :: "(u32, u64) omap"
  lastGeneratedTxNumber :: u64

definition GeneratedTransactionsIndex_add ::
  "Block \<Rightarrow> GeneratedTransactionsIndex \<Rightarrow> (GeneratedTransactionsIndex \<times> bool) option" where
  "GeneratedTransactionsIndex_add block i =
     (if \<not> gi_enabled i then Some (i, False)
      else (case OrphanBlocksIndex_height block of
              None \<Rightarrow> None
            | Some blockHeight \<Rightarrow>
                if length (gi_index i) \<noteq> unat blockHeight then Some (i, False)
                else (let n = lastGeneratedTxNumber i + word_of_nat (length (transactionHashes block)) + 1;
                          (m, status) = omap_insert blockHeight n (gi_index i)
                      in Some (if status then i\<lparr>gi_index := m, lastGeneratedTxNumber := n\<rparr> else i\<lparr>gi_index := m\<rparr>, status))))"

text \<open>\<open>None\<close> also when an assertion fails.\<close>

definition GeneratedTransactionsIndex_remove ::
  "Block \<Rightarrow> GeneratedTransactionsIndex \<Rightarrow> (GeneratedTransactionsIndex \<times> bool) option" where
  "GeneratedTransactionsIndex_remove block i =
     (if \<not> gi_enabled i then Some (i, False)
      else (case OrphanBlocksIndex_height block of
              None \<Rightarrow> None
            | Some blockHeight \<Rightarrow>
                if gi_index i = [] \<or> unat blockHeight \<noteq> length (gi_index i) - 1 then Some (i, False)
                else (case map_of (gi_index i) blockHeight of
                        None \<Rightarrow> None
                      | Some _ \<Rightarrow>
                          (let m = omap_erase blockHeight (gi_index i)
                           in if blockHeight \<noteq> 0
                              then (case map_of m (blockHeight - 1) of
                                      None \<Rightarrow> None
                                    | Some n \<Rightarrow> Some (i\<lparr>gi_index := m, lastGeneratedTxNumber := n\<rparr>, True))
                              else Some (i\<lparr>gi_index := m, lastGeneratedTxNumber := 0\<rparr>, True)))))"

definition GeneratedTransactionsIndex_find :: "u32 \<Rightarrow> GeneratedTransactionsIndex \<Rightarrow> u64 option result" where
  "GeneratedTransactionsIndex_find height i = (if \<not> gi_enabled i then Inl IndexDisabled else Inr (map_of (gi_index i) height))"

definition GeneratedTransactionsIndex_clear :: "GeneratedTransactionsIndex \<Rightarrow> GeneratedTransactionsIndex" where
  "GeneratedTransactionsIndex_clear i = (if gi_enabled i then i\<lparr>gi_index := []\<rparr> else i)"

section \<open>Entries are a multiset\<close>

lemma mset_mmap_emplace: "mset (mmap_emplace k v m) = add_mset (k, v) (mset m)"
proof -
  have "mset (takeWhile P m) + mset (dropWhile P m) = mset m" for P
    by (metis mset_append takeWhile_dropWhile_id)
  then show ?thesis by (simp add: mmap_emplace_def)
qed

lemma erase_entry_mset: "mset (fst (erase_entry k v m)) = mset m - {#(k, v)#}"
  by (induction k v m rule: erase_entry.induct) (auto simp: split_beta)

lemma erase_entry_found: "snd (erase_entry k v m) \<longleftrightarrow> (k, v) \<in> set m"
  by (induction k v m rule: erase_entry.induct) (auto simp: split_beta)

text \<open>
  The contract of an index of hashes: adding an entry adds it to the multiset of entries, removing takes one copy
  away and reports whether there was one.
\<close>

locale entry_index =
  fixes ins :: "'k \<Rightarrow> 'v \<Rightarrow> ('k \<times> 'v) list \<Rightarrow> ('k \<times> 'v) list"
    and rem :: "'k \<Rightarrow> 'v \<Rightarrow> ('k \<times> 'v) list \<Rightarrow> ('k \<times> 'v) list \<times> bool"
  assumes ins_mset: "mset (ins k v m) = add_mset (k, v) (mset m)"
    and rem_mset: "mset (fst (rem k v m)) = mset m - {#(k, v)#}"
    and rem_found: "snd (rem k v m) \<longleftrightarrow> (k, v) \<in> set m"
begin

lemma rem_ins: "mset (fst (rem k v (ins k v m))) = mset m \<and> snd (rem k v (ins k v m))"
proof -
  have "(k, v) \<in> set (ins k v m)" using ins_mset by (metis set_mset_mset union_single_eq_member)
  then show ?thesis by (simp add: rem_mset ins_mset rem_found)
qed

lemma range_ins: "mset (equal_range k' (ins k v m)) = (if k' = k then add_mset v (mset (equal_range k' m)) else mset (equal_range k' m))"
  by (simp add: equal_range_def ins_mset)

end

interpretation mmap: entry_index mmap_emplace erase_entry
  by unfold_locales (simp_all add: mset_mmap_emplace erase_entry_mset erase_entry_found)

interpretation ummap: entry_index ummap_insert erase_entry
  by unfold_locales (simp_all add: ummap_insert_def erase_entry_mset erase_entry_found)

text \<open>
  In an enabled payment id index a transaction with a payment id is found under that id and under no other after
  it is added, and removing it again restores the entries exactly; a disabled index stays as it is and a lookup in it
  throws.
\<close>

theorem payment_index_correct:
  "(hi_enabled i \<and> getPaymentId tx = Some p \<longrightarrow>
     (let i' = fst (PaymentIdIndex_add tx i) in
       map_sum id mset (PaymentIdIndex_find p i') = Inr (add_mset (transaction_hash tx) (mset (equal_range p (hi_index i)))) \<and>
       (q \<noteq> p \<longrightarrow> map_sum id mset (PaymentIdIndex_find q i') = map_sum id mset (PaymentIdIndex_find q i)) \<and>
       mset (hi_index (fst (PaymentIdIndex_remove tx i'))) = mset (hi_index i) \<and> snd (PaymentIdIndex_remove tx i'))) \<and>
   (\<not> hi_enabled i \<longrightarrow>
     PaymentIdIndex_add tx i = (i, False) \<and> PaymentIdIndex_remove tx i = (i, False) \<and> PaymentIdIndex_find q i = Inl IndexDisabled)"
  using ummap.rem_ins [of p "transaction_hash tx" "hi_index i"] ummap.range_ins [of _ p "transaction_hash tx" "hi_index i"]
  by (auto simp: PaymentIdIndex_add_def PaymentIdIndex_remove_def PaymentIdIndex_find_def index_find_def Let_def split_beta)

definition payment_tx :: Transaction where
  "payment_tx = \<lparr>version = 1, unlockTime = 0, inputs = [], outputs = [], extra = 2 # 33 # 0 # replicate 32 5, signatures = []\<rparr>"

lemma payment_tx_id: "getPaymentId payment_tx = Some (replicate 32 5)"
proof -
  have "parseTransactionExtra (2 # 33 # 0 # replicate 32 5) = ([TransactionExtraNonce (0 # replicate 32 5)], True)"
    by (rule parse_written_field)
      (simp_all add: ExtraSerializerVisitor_def extra_writers tx_extra_tags TX_EXTRA_NONCE_MAX_COUNT_def valid_field_def isPadding_def)
  then show ?thesis
    by (simp add: getPaymentId_def payment_tx_def asNonce_def getPaymentIdFromTransactionExtraNonce_def TX_EXTRA_NONCE_PAYMENT_ID_def)
qed

theorem payment_index_correct_witness:
  "mset (hi_index (fst (PaymentIdIndex_remove payment_tx (fst (PaymentIdIndex_add payment_tx \<lparr>hi_enabled = True, hi_index = []\<rparr>))))) = {#}"
  using payment_index_correct [of "\<lparr>hi_enabled = True, hi_index = []\<rparr>" payment_tx "replicate 32 5" "[]"]
  by (simp add: payment_tx_id Let_def)

section \<open>Timestamps stay ordered\<close>

definition by_time :: "(u64 \<times> hash) list \<Rightarrow> bool" where
  "by_time m \<longleftrightarrow> sorted (map fst m)"

lemma by_time_Cons: "by_time (e # m) \<longleftrightarrow> (\<forall>e' \<in> set m. fst e \<le> fst e') \<and> by_time m"
  by (auto simp: by_time_def)

lemma by_time_emplace: "by_time m \<Longrightarrow> by_time (mmap_emplace k v m)"
proof (induction m)
  case Nil
  then show ?case by (simp add: mmap_emplace_def by_time_def)
next
  case (Cons e m)
  obtain a b where e: "e = (a, b)" by force
  have "set (mmap_emplace k v m) = insert (k, v) (set m)"
    using arg_cong [OF mset_mmap_emplace [of k v m], of set_mset] by simp
  with Cons e show ?case
    by (cases "a \<le> k") (fastforce simp: mmap_emplace_def by_time_Cons)+
qed

lemma by_time_erase: "by_time m \<Longrightarrow> by_time (fst (erase_entry k v m))"
proof (induction k v m rule: erase_entry.induct)
  case (2 k v e m)
  have "set (fst (erase_entry k v m)) \<subseteq> set m"
    using erase_entry_mset [of k v m] by (metis in_diffD set_mset_mset subsetI)
  with 2 show ?case by (auto simp: by_time_Cons split_beta)
qed simp

lemma range_filter:
  assumes "by_time m"
  shows "takeWhile (\<lambda>(k, _). k \<le> t2) (dropWhile (\<lambda>(k, _). k < t1) m) = filter (\<lambda>(k, _). t1 \<le> k \<and> k \<le> t2) m"
  using assms
proof (induction m)
  case (Cons e m)
  obtain a b where e: "e = (a, b)" by force
  have all: "a \<le> k" if "(k, h) \<in> set m" for k h using Cons.prems e that by (auto simp: by_time_Cons)
  have tw: "takeWhile (\<lambda>(k, _). k \<le> t2) m = filter (\<lambda>(k, _). t1 \<le> k \<and> k \<le> t2) m" if "t1 \<le> a"
  proof -
    have "dropWhile (\<lambda>(k, _). k < t1) m = m"
    proof (cases m)
      case (Cons e' m')
      then have "a \<le> fst e'" using all [of "fst e'" "snd e'"] by simp
      then show ?thesis using Cons that by (auto simp: split_beta)
    qed simp
    then show ?thesis using Cons by (simp add: by_time_Cons)
  qed
  show ?case
  proof (cases "a < t1")
    case True
    then show ?thesis using Cons e by (auto simp: by_time_Cons)
  next
    case False
    show ?thesis
    proof (cases "a \<le> t2")
      case True
      then show ?thesis using False tw e by simp
    next
      case f: False
      then have "filter (\<lambda>(k, _). t1 \<le> k \<and> k \<le> t2) m = []" using all by (force simp: filter_empty_conv)
      then show ?thesis using False f e by simp
    qed
  qed
qed simp

text \<open>
  C36: adding and removing blocks keeps the timestamp index ordered by time, and a search in an ordered index gives, in
  that order, the first hashes up to the limit whose timestamps lie in the closed interval, with their exact number
  when it fits 32 bits.
\<close>

theorem timestamp_index_search:
  assumes "hi_enabled i" and "by_time (hi_index i)"
  shows "by_time (hi_index (fst (TimestampBlocksIndex_add t h i))) \<and>
    by_time (hi_index (fst (TimestampBlocksIndex_remove t h i))) \<and>
    (t1 \<le> t2 \<and> length (hi_index i) < 2 ^ 32 \<longrightarrow>
      (\<exists>n. TimestampBlocksIndex_find t1 t2 limit i =
        Inr (Some (map snd (take (unat limit) (filter (\<lambda>(k, _). t1 \<le> k \<and> k \<le> t2) (hi_index i))), n)) \<and>
        unat n = length (filter (\<lambda>(k, _). t1 \<le> k \<and> k \<le> t2) (hi_index i))))"
proof (intro conjI impI)
  show "by_time (hi_index (fst (TimestampBlocksIndex_add t h i)))"
    using assms by (simp add: TimestampBlocksIndex_add_def by_time_emplace)
  show "by_time (hi_index (fst (TimestampBlocksIndex_remove t h i)))"
    using assms by (simp add: TimestampBlocksIndex_remove_def by_time_erase split_beta)
  assume a: "t1 \<le> t2 \<and> length (hi_index i) < 2 ^ 32"
  let ?r = "filter (\<lambda>(k, _). t1 \<le> k \<and> k \<le> t2) (hi_index i)"
  have "length ?r < 2 ^ 32" using a length_filter_le [of _ "hi_index i"] le_less_trans by blast
  then have "unat (word_of_nat (length ?r) :: u32) = length ?r" by (simp add: unat_of_nat)
  moreover have "TimestampBlocksIndex_find t1 t2 limit i = Inr (Some (map snd (take (unat limit) ?r), word_of_nat (length ?r)))"
    using a assms by (simp add: TimestampBlocksIndex_find_def range_filter not_less Let_def)
  ultimately show "\<exists>n. TimestampBlocksIndex_find t1 t2 limit i = Inr (Some (map snd (take (unat limit) ?r), n)) \<and> unat n = length ?r"
    by blast
qed

theorem timestamp_index_search_witness:
  "\<exists>n. TimestampBlocksIndex_find 12 13 5 \<lparr>hi_enabled = True, hi_index = [(11, [7]), (12, [8]), (14, [9])]\<rparr> = Inr (Some ([[8]], n)) \<and> unat n = 1"
  using timestamp_index_search [of "\<lparr>hi_enabled = True, hi_index = [(11, [7]), (12, [8]), (14, [9])]\<rparr>" 0 "[]" 12 13 5]
  by (simp add: by_time_def)

section \<open>Generated transactions\<close>

definition generated :: "Block list \<Rightarrow> u64" where
  "generated bs = sum_list (map (\<lambda>b. word_of_nat (length (transactionHashes b)) + 1) bs)"

text \<open>The index holds the running total at every height of the chain.\<close>

definition generated_inv :: "Block list \<Rightarrow> GeneratedTransactionsIndex \<Rightarrow> bool" where
  "generated_inv bs i \<longleftrightarrow> gi_enabled i \<and> length bs \<le> 2 ^ 32 \<and>
     gi_index i = map (\<lambda>h. (word_of_nat h, generated (take (Suc h) bs))) [0..<length bs] \<and>
     lastGeneratedTxNumber i = generated bs"

lemma unat_height: "h < 2 ^ 32 \<Longrightarrow> unat (word_of_nat h :: u32) = h"
  by (simp add: unat_of_nat)

lemma heights_lookup:
  assumes "length bs \<le> 2 ^ 32" and "h < length bs"
  shows "map_of (map (\<lambda>h. (word_of_nat h :: u32, f h)) [0..<length bs]) (word_of_nat h) = Some (f h)"
proof -
  have "inj_on (\<lambda>h. word_of_nat h :: u32) {0..<length bs}"
    using assms(1) unat_height by (intro inj_onI) (metis atLeastLessThan_iff less_le_trans)
  then have "distinct (map fst (map (\<lambda>h. (word_of_nat h :: u32, f h)) [0..<length bs]))"
    by (simp add: distinct_map comp_def)
  then show ?thesis using assms(2) by (intro map_of_is_SomeI) auto
qed

lemma omap_set_last: "(\<forall>e \<in> set m. fst e < k) \<Longrightarrow> omap_set k v m = m @ [(k, v)]"
  by (induction k v m rule: omap_set.induct) auto

text \<open>
  Adding the next block of a chain to the index of generated transactions succeeds and keeps the running totals,
  and removing the last block restores the totals of the chain before it; no assertion fails.
\<close>

theorem generated_transactions_totals:
  assumes "length bs < 2 ^ 32" and "OrphanBlocksIndex_height b = Some (word_of_nat (length bs))"
  shows "(generated_inv bs i \<longrightarrow> (\<exists>i'. GeneratedTransactionsIndex_add b i = Some (i', True) \<and> generated_inv (bs @ [b]) i')) \<and>
    (generated_inv (bs @ [b]) i \<longrightarrow> (\<exists>i'. GeneratedTransactionsIndex_remove b i = Some (i', True) \<and> generated_inv bs i'))"
proof (intro conjI impI)
  let ?n = "length bs" and ?w = "word_of_nat (length bs) :: u32"
  let ?m = "map (\<lambda>h. (word_of_nat h :: u32, generated (take (Suc h) bs))) [0..<?n]"
  have w: "unat ?w = ?n" using unat_height assms(1) by blast
  have below: "\<forall>e \<in> set ?m. fst e < ?w" using assms(1) w by (auto simp: word_less_nat_alt unat_height)
  have full: "map (\<lambda>h. (word_of_nat h :: u32, generated (take (Suc h) (bs @ [b])))) [0..<length (bs @ [b])] =
      ?m @ [(?w, generated (bs @ [b]))]" by simp
  have gen: "generated bs + word_of_nat (length (transactionHashes b)) + 1 = generated (bs @ [b])"
    by (simp add: generated_def)
  {
    assume i: "generated_inv bs i"
    have "map_of ?m ?w = None" using below by (auto simp: map_of_eq_None_iff)
    then have "omap_insert ?w (generated (bs @ [b])) ?m = (?m @ [(?w, generated (bs @ [b]))], True)"
      using omap_set_last [OF below] by (simp add: omap_insert_def)
    then have "GeneratedTransactionsIndex_add b i =
        Some (i\<lparr>gi_index := ?m @ [(?w, generated (bs @ [b]))], lastGeneratedTxNumber := generated (bs @ [b])\<rparr>, True)"
      using i assms(2) w gen by (simp add: GeneratedTransactionsIndex_add_def generated_inv_def Let_def)
    then show "\<exists>i'. GeneratedTransactionsIndex_add b i = Some (i', True) \<and> generated_inv (bs @ [b]) i'"
      using i assms(1) full by (auto simp: generated_inv_def)
  next
    assume i: "generated_inv (bs @ [b]) i"
    then have idx: "gi_index i = ?m @ [(?w, generated (bs @ [b]))]" unfolding generated_inv_def full by blast
    have er: "omap_erase ?w (gi_index i) = ?m"
      using below unfolding idx omap_erase_def by (auto simp: filter_id_conv)
    have look: "map_of (gi_index i) ?w \<noteq> None" by (simp add: idx map_of_eq_None_iff)
    have prev: "map_of ?m (?w - 1) = Some (generated bs)" if "?w \<noteq> 0"
    proof -
      have n: "0 < ?n" using that w by (cases bs) auto
      then obtain k where k: "?n = Suc k" by (cases ?n) auto
      have "?w - 1 = word_of_nat (?n - 1)" unfolding k by simp
      then show ?thesis using heights_lookup [of bs "?n - 1" "\<lambda>h. generated (take (Suc h) bs)"] assms(1) n by simp
    qed
    have zero: "bs = []" if "?w = 0" using that w by simp
    have "GeneratedTransactionsIndex_remove b i = Some (i\<lparr>gi_index := ?m, lastGeneratedTxNumber := generated bs\<rparr>, True)"
      using i assms(2) w look er prev zero idx
      by (auto simp: GeneratedTransactionsIndex_remove_def generated_inv_def generated_def Let_def split: option.splits)
    then show "\<exists>i'. GeneratedTransactionsIndex_remove b i = Some (i', True) \<and> generated_inv bs i'"
      using i by (auto simp: generated_inv_def)
  }
qed

definition first_block :: Block where
  "first_block =
     \<lparr>majorVersion = 1, minorVersion = 0, nonce = 0, timestamp = 0, previousBlockHash = replicate 32 0,
      baseTransaction = \<lparr>version = 1, unlockTime = 0, inputs = [TxBaseInput \<lparr>bi_blockIndex = 0\<rparr>], outputs = [], extra = [],
        signatures = []\<rparr>, transactionHashes = []\<rparr>"

theorem generated_transactions_totals_witness:
  "\<exists>i'. GeneratedTransactionsIndex_add first_block \<lparr>gi_enabled = True, gi_index = [], lastGeneratedTxNumber = 0\<rparr> = Some (i', True) \<and>
     generated_inv ([] @ [first_block]) i'"
  using generated_transactions_totals [of "[]" first_block "\<lparr>gi_enabled = True, gi_index = [], lastGeneratedTxNumber = 0\<rparr>"]
  by (simp add: OrphanBlocksIndex_height_def first_block_def generated_inv_def generated_def)

text \<open>
  Clearing the index of generated transactions forgets its entries but not its counter: when the chain is added
  again from its first block, the totals start from the old counter and are too high by it.
\<close>

theorem generated_clear_keeps_counter:
  assumes "generated_inv bs i" and "OrphanBlocksIndex_height b = Some 0"
  shows "\<exists>i'. GeneratedTransactionsIndex_add b (GeneratedTransactionsIndex_clear i) = Some (i', True) \<and>
    GeneratedTransactionsIndex_find 0 i' = Inr (Some (generated bs + generated [b]))"
  using assms
  by (simp add: GeneratedTransactionsIndex_clear_def GeneratedTransactionsIndex_add_def GeneratedTransactionsIndex_find_def
      generated_inv_def generated_def omap_insert_def Let_def add.assoc)

theorem generated_clear_keeps_counter_witness:
  "\<exists>i'. GeneratedTransactionsIndex_add first_block
      (GeneratedTransactionsIndex_clear \<lparr>gi_enabled = True, gi_index = [(0, 1)], lastGeneratedTxNumber = 1\<rparr>) = Some (i', True) \<and>
     GeneratedTransactionsIndex_find 0 i' = Inr (Some (generated [first_block] + generated [first_block]))"
  by (rule generated_clear_keeps_counter) (simp_all add: generated_inv_def generated_def first_block_def OrphanBlocksIndex_height_def)

end
