(* ===== verification/TransactionPool.thy ===== *)
theory TransactionPool
  imports Complex_Main Currency BlockchainIndices
begin

text \<open>
  The memory pool: \<^verbatim>\<open>lib/CryptoNoteCore/TransactionPool.cpp\<close> and \<^verbatim>\<open>TransactionPool.h\<close>. The state is the record \<open>tx_memory_pool\<close>, the
  validator and the clocks that a call consults are the record \<open>pool_env\<close>, each operation is a function of the pool. \<open>pool_step\<close> is one call of
  an operation and \<open>pool_reachable\<close> the states after any sequence of calls; \<open>pool_inv\<close> is their invariant. The locale \<open>ordered_index\<close> is what the
  fee index asks of its comparator. Loading and storing the pool, its text dump and the observers are left out; a lock guards each call, so calls
  do not interleave.
\<close>

unbundle bit_operations_syntax

section \<open>State\<close>

record BlockInfo =
  inf_height :: u32
  inf_id :: hash

definition BlockInfo_clear :: BlockInfo where
  "BlockInfo_clear = \<lparr>inf_height = 0, inf_id = NULL_HASH\<rparr>"

record TransactionCheckInfo =
  maxUsedBlock :: BlockInfo
  lastFailedBlock :: BlockInfo

text \<open>The code derives the details from the check info; here the check info is a field.\<close>

record TransactionDetails =
  td_checkInfo :: TransactionCheckInfo
  td_id :: hash
  td_tx :: Transaction
  td_blobSize :: u64
  td_fee :: u64
  td_keptByBlock :: bool
  td_receiveTime :: u64

text \<open>
  The pool. The container of transactions is the list of its fee index, in the order of priority, with distinct ids. The
  cache of validated transactions is a global variable of the file.
\<close>

record tx_memory_pool =
  m_lastWorkedTime :: u64
  m_spent_key_images :: "bytes \<Rightarrow> hash set option"
  m_spentOutputs :: "(u64 \<times> u64) set"
  m_transactions :: "TransactionDetails list"
  m_recentlyDeletedTransactions :: "hash \<Rightarrow> u64 option"
  m_paymentIdIndex :: "hash hash_index"
  m_timestampIndex :: "u64 hash_index"
  m_ttlIndex :: "hash \<Rightarrow> u64 option"
  m_validated_transactions :: "hash set"

record tx_verification_context =
  m_should_be_relayed :: bool
  m_verification_failed :: bool
  m_verifivation_impossible :: bool
  m_added_to_pool :: bool
  m_tx_fee_too_small :: bool

text \<open>
  What the pool asks at a call: the validator (the two overloads of \<^verbatim>\<open>checkTransactionInputs\<close> give the blocks they
  store through their references), the clock of the node and the system's.
\<close>

record pool_env =
  checkTransactionInputs :: "Transaction \<Rightarrow> bool \<times> BlockInfo"
  checkTransactionInputs_failed :: "Transaction \<Rightarrow> TransactionCheckInfo \<Rightarrow> bool \<times> TransactionCheckInfo"
  haveSpentKeyImages :: "Transaction \<Rightarrow> bool"
  checkTransactionSize :: "u64 \<Rightarrow> bool"
  now :: u64
  system_time :: u64

definition empty_pool :: "bool \<Rightarrow> tx_memory_pool" where
  "empty_pool blockchainIndexesEnabled =
     \<lparr>m_lastWorkedTime = 0, m_spent_key_images = Map.empty, m_spentOutputs = {}, m_transactions = [],
      m_recentlyDeletedTransactions = Map.empty, m_paymentIdIndex = \<lparr>hi_enabled = blockchainIndexesEnabled, hi_index = []\<rparr>,
      m_timestampIndex = \<lparr>hi_enabled = blockchainIndexesEnabled, hi_index = []\<rparr>, m_ttlIndex = Map.empty,
      m_validated_transactions = {}\<rparr>"

section \<open>Priority\<close>

definition TransactionPriorityComparator :: "TransactionDetails \<Rightarrow> TransactionDetails \<Rightarrow> bool" where
  "TransactionPriorityComparator lhs rhs =
     (let (lhs_lo, lhs_hi) = mul128 (td_fee lhs) (td_blobSize rhs); (rhs_lo, rhs_hi) = mul128 (td_fee rhs) (td_blobSize lhs)
      in rhs_hi < lhs_hi \<or> lhs_hi = rhs_hi \<and> rhs_lo < lhs_lo \<or>
         lhs_hi = rhs_hi \<and> lhs_lo = rhs_lo \<and> td_blobSize lhs < td_blobSize rhs \<or>
         lhs_hi = rhs_hi \<and> lhs_lo = rhs_lo \<and> td_blobSize lhs = td_blobSize rhs \<and> sint (td_receiveTime lhs) < sint (td_receiveTime rhs))"

text \<open>The insertion into the container: refused when the id is present, otherwise after the last transaction of no lower priority.\<close>

definition insert_details :: "TransactionDetails \<Rightarrow> TransactionDetails list \<Rightarrow> TransactionDetails list \<times> bool" where
  "insert_details td ts =
     (if td_id td \<in> td_id ` set ts then (ts, False)
      else (takeWhile (\<lambda>x. \<not> TransactionPriorityComparator td x) ts @ td #
            dropWhile (\<lambda>x. \<not> TransactionPriorityComparator td x) ts, True))"

section \<open>Spent inputs\<close>

text \<open>The inputs of a transaction are entered one by one; a failure leaves those entered before it, and the empty set that \<^verbatim>\<open>operator[]\<close> made.\<close>

fun addTransactionInputs :: "hash \<Rightarrow> TransactionInput list \<Rightarrow> bool \<Rightarrow> tx_memory_pool \<Rightarrow> tx_memory_pool \<times> bool" where
  "addTransactionInputs txid [] keptByBlock pool = (pool, True)"
| "addTransactionInputs txid (TxKeyInput txin # ins) keptByBlock pool =
     (let s = (case m_spent_key_images pool (ki_keyImage txin) of None \<Rightarrow> {} | Some s \<Rightarrow> s);
          put = (\<lambda>s. pool\<lparr>m_spent_key_images := (m_spent_key_images pool)(ki_keyImage txin \<mapsto> s)\<rparr>)
      in if \<not> (keptByBlock \<or> s = {}) then (put s, False)
         else if txid \<in> s then (put s, False)
         else addTransactionInputs txid ins keptByBlock (put (insert txid s)))"
| "addTransactionInputs txid (TxMultiSignatureInput msig # ins) keptByBlock pool =
     addTransactionInputs txid ins keptByBlock
       (if keptByBlock then pool
        else pool\<lparr>m_spentOutputs := insert (mi_amount msig, ucast (mi_outputIndex msig)) (m_spentOutputs pool)\<rparr>)"
| "addTransactionInputs txid (TxBaseInput b # ins) keptByBlock pool = addTransactionInputs txid ins keptByBlock pool"

fun removeTransactionInputs :: "hash \<Rightarrow> TransactionInput list \<Rightarrow> bool \<Rightarrow> tx_memory_pool \<Rightarrow> tx_memory_pool \<times> bool" where
  "removeTransactionInputs txid [] keptByBlock pool = (pool, True)"
| "removeTransactionInputs txid (TxKeyInput txin # ins) keptByBlock pool =
     (case m_spent_key_images pool (ki_keyImage txin) of
        None \<Rightarrow> (pool, False)
      | Some s \<Rightarrow>
          if s = {} then (pool, False)
          else if txid \<notin> s then (pool, False)
          else removeTransactionInputs txid ins keptByBlock
            (pool\<lparr>m_spent_key_images := (m_spent_key_images pool)
               (ki_keyImage txin := (if s - {txid} = {} then None else Some (s - {txid})))\<rparr>))"
| "removeTransactionInputs txid (TxMultiSignatureInput msig # ins) keptByBlock pool =
     removeTransactionInputs txid ins keptByBlock
       (if keptByBlock then pool
        else pool\<lparr>m_spentOutputs := m_spentOutputs pool - {(mi_amount msig, ucast (mi_outputIndex msig))}\<rparr>)"
| "removeTransactionInputs txid (TxBaseInput b # ins) keptByBlock pool = removeTransactionInputs txid ins keptByBlock pool"

definition haveSpentInputs :: "Transaction \<Rightarrow> tx_memory_pool \<Rightarrow> bool" where
  "haveSpentInputs tx pool \<longleftrightarrow>
     list_ex (\<lambda>i. case i of
         TxKeyInput k \<Rightarrow> m_spent_key_images pool (ki_keyImage k) \<noteq> None
       | TxMultiSignatureInput m \<Rightarrow> (mi_amount m, ucast (mi_outputIndex m)) \<in> m_spentOutputs pool
       | TxBaseInput _ \<Rightarrow> False) (inputs tx)"

section \<open>Adding and removing transactions\<close>

definition asTTL :: "TransactionExtraField \<Rightarrow> u64 option" where
  "asTTL f = (case f of TransactionExtraTTL t \<Rightarrow> Some t | _ \<Rightarrow> None)"

definition transaction_ttl :: "Transaction \<Rightarrow> u64" where
  "transaction_ttl tx =
     (case findTransactionExtraFieldByType asTTL (fst (parseTransactionExtra (extra tx))) of None \<Rightarrow> 0 | Some ttl \<Rightarrow> ttl)"

text \<open>The last part of \<^verbatim>\<open>add_tx\<close>, after the checks: the details, the indices and the inputs.\<close>

definition add_to_pool ::
  "TransactionDetails \<Rightarrow> u64 \<Rightarrow> bool \<Rightarrow> tx_verification_context \<Rightarrow> tx_memory_pool \<Rightarrow> tx_memory_pool \<times> tx_verification_context \<times> bool" where
  "add_to_pool txd ttl relay tvc pool =
     (case insert_details txd (m_transactions pool) of
        (ts, False) \<Rightarrow> (pool, tvc, False)
      | (ts, True) \<Rightarrow>
          (let pool = pool\<lparr>m_transactions := ts,
                 m_paymentIdIndex := fst (PaymentIdIndex_add (td_tx txd) (m_paymentIdIndex pool)),
                 m_timestampIndex := fst (TimestampTransactionsIndex_add (td_receiveTime txd) (td_id txd) (m_timestampIndex pool)),
                 m_ttlIndex := (if ttl \<noteq> 0 \<and> m_ttlIndex pool (td_id txd) = None then (m_ttlIndex pool)(td_id txd \<mapsto> ttl)
                                else m_ttlIndex pool)\<rparr>;
               tvc = tvc\<lparr>m_added_to_pool := True, m_should_be_relayed := relay, m_verification_failed := True\<rparr>;
               (pool, ok) = addTransactionInputs (td_id txd) (inputs (td_tx txd)) (td_keptByBlock txd) pool
           in if ok then (pool, tvc\<lparr>m_verification_failed := False\<rparr>, True) else (pool, tvc, False)))"

text \<open>The new pool, the verification context and the result.\<close>

definition add_tx_id ::
  "pool_env \<Rightarrow> Currency \<Rightarrow> Transaction \<Rightarrow> hash \<Rightarrow> u64 \<Rightarrow> tx_verification_context \<Rightarrow> bool \<Rightarrow> tx_memory_pool \<Rightarrow>
   tx_memory_pool \<times> tx_verification_context \<times> bool" where
  "add_tx_id env cur tx txid blobSize tvc keptByBlock pool =
     (let failed = (pool, tvc\<lparr>m_verification_failed := True\<rparr>, False);
          inputs_amount = getInputsMoneyAmount tx;
          outputs_amount = getOutsMoneyAmount tx;
          ttl = transaction_ttl tx;
          fee = inputs_amount - outputs_amount;
          is_fusion = (fee = 0 \<and> isFusionTransaction_sized cur tx blobSize);
          (inputsValid, maxUsed) = checkTransactionInputs env tx
      in if \<not> check_inputs_types_supported tx then failed
         else if inputs_amount < outputs_amount then failed
         else if ttl \<noteq> 0 \<and> \<not> keptByBlock \<and> ttl \<le> system_time env then failed
         else if ttl \<noteq> 0 \<and> \<not> keptByBlock \<and>
             m_mempoolTxLiveTime cur + m_blockFutureTimeLimit cur < ttl - system_time env then failed
         else if ttl \<noteq> 0 \<and> \<not> keptByBlock \<and> fee \<noteq> 0 then failed
         else if \<not> keptByBlock \<and> haveSpentInputs tx pool then failed
         else if \<not> inputsValid \<and> \<not> keptByBlock then failed
         else
           (let maxUsed = (if inputsValid then maxUsed else BlockInfo_clear);
                tvc = (if inputsValid then tvc else tvc\<lparr>m_verifivation_impossible := True\<rparr>)
            in if \<not> keptByBlock \<and> \<not> checkTransactionSize env blobSize then (pool, tvc\<lparr>m_verification_failed := True\<rparr>, False)
               else if \<not> keptByBlock \<and> m_recentlyDeletedTransactions pool txid \<noteq> None then
                 (pool, tvc\<lparr>m_verification_failed := False, m_should_be_relayed := False, m_added_to_pool := False\<rparr>, True)
               else add_to_pool
                 \<lparr>td_checkInfo = \<lparr>maxUsedBlock = maxUsed, lastFailedBlock = BlockInfo_clear\<rparr>, td_id = txid, td_tx = tx,
                  td_blobSize = blobSize, td_fee = fee, td_keptByBlock = keptByBlock, td_receiveTime = now env\<rparr>
                 ttl (inputsValid \<and> (0 < fee \<or> is_fusion \<or> ttl \<noteq> 0)) tvc pool))"

definition getObjectHash_sized :: "Transaction \<Rightarrow> hash \<times> u64" where
  "getObjectHash_sized tx =
     (case toBinaryArray put_Transaction tx of
        None \<Rightarrow> (NULL_HASH, - 1)
      | Some ba \<Rightarrow> (getBinaryArrayHash ba, word_of_nat (length ba)))"

definition add_tx ::
  "pool_env \<Rightarrow> Currency \<Rightarrow> Transaction \<Rightarrow> tx_verification_context \<Rightarrow> bool \<Rightarrow> tx_memory_pool \<Rightarrow>
   tx_memory_pool \<times> tx_verification_context \<times> bool" where
  "add_tx env cur tx tvc keptByBlock pool =
     (let (h, blobSize) = getObjectHash_sized tx in add_tx_id env cur tx h blobSize tvc keptByBlock pool)"

definition removeTransaction :: "TransactionDetails \<Rightarrow> tx_memory_pool \<Rightarrow> tx_memory_pool" where
  "removeTransaction d pool =
     (let pool = fst (removeTransactionInputs (td_id d) (inputs (td_tx d)) (td_keptByBlock d) pool)
      in pool\<lparr>m_paymentIdIndex := fst (PaymentIdIndex_remove (td_tx d) (m_paymentIdIndex pool)),
              m_timestampIndex := fst (TimestampTransactionsIndex_remove (td_receiveTime d) (td_id d) (m_timestampIndex pool)),
              m_ttlIndex := (m_ttlIndex pool)(td_id d := None),
              m_validated_transactions := m_validated_transactions pool - {td_id d},
              m_transactions := filter (\<lambda>x. td_id x \<noteq> td_id d) (m_transactions pool)\<rparr>)"

definition find_tx :: "hash \<Rightarrow> tx_memory_pool \<Rightarrow> TransactionDetails option" where
  "find_tx txid pool = find (\<lambda>x. td_id x = txid) (m_transactions pool)"

definition take_tx :: "hash \<Rightarrow> tx_memory_pool \<Rightarrow> tx_memory_pool \<times> (Transaction \<times> u64 \<times> u64) option" where
  "take_tx txid pool =
     (case find_tx txid pool of
        None \<Rightarrow> (pool, None)
      | Some txd \<Rightarrow> (removeTransaction txd pool, Some (td_tx txd, td_blobSize txd, td_fee txd)))"

definition have_tx :: "hash \<Rightarrow> tx_memory_pool \<Rightarrow> bool" where
  "have_tx txid pool = (find_tx txid pool \<noteq> None)"

definition get_transactions_count :: "tx_memory_pool \<Rightarrow> nat" where
  "get_transactions_count pool = length (m_transactions pool)"

definition get_transactions :: "tx_memory_pool \<Rightarrow> Transaction list" where
  "get_transactions pool = map td_tx (m_transactions pool)"

definition getMemoryPool :: "tx_memory_pool \<Rightarrow> TransactionDetails list" where
  "getMemoryPool pool = m_transactions pool"

definition getTransactions_known :: "hash list \<Rightarrow> tx_memory_pool \<Rightarrow> Transaction list \<times> hash list" where
  "getTransactions_known txsIds pool =
     fold (\<lambda>txid (txs, missedTxs).
       case find_tx txid pool of None \<Rightarrow> (txs, missedTxs @ [txid]) | Some d \<Rightarrow> (txs @ [td_tx d], missedTxs)) txsIds ([], [])"

section \<open>Expiry\<close>

definition is_expired :: "Currency \<Rightarrow> u64 \<Rightarrow> tx_memory_pool \<Rightarrow> TransactionDetails \<Rightarrow> bool" where
  "is_expired cur t pool d \<longleftrightarrow>
     (if td_keptByBlock d then m_mempoolTxFromAltBlockLiveTime cur else m_mempoolTxLiveTime cur) < t - td_receiveTime d \<or>
     (case m_ttlIndex pool (td_id d) of None \<Rightarrow> False | Some ttl \<Rightarrow> ttl \<le> t)"

fun expire_loop :: "Currency \<Rightarrow> u64 \<Rightarrow> TransactionDetails list \<Rightarrow> tx_memory_pool \<times> bool \<Rightarrow> tx_memory_pool \<times> bool" where
  "expire_loop cur t [] (pool, somethingRemoved) = (pool, somethingRemoved)"
| "expire_loop cur t (d # ts) (pool, somethingRemoved) =
     (if is_expired cur t pool d then
        expire_loop cur t ts
          (removeTransaction d (pool\<lparr>m_recentlyDeletedTransactions :=
             (if m_recentlyDeletedTransactions pool (td_id d) = None
              then (m_recentlyDeletedTransactions pool)(td_id d \<mapsto> t) else m_recentlyDeletedTransactions pool)\<rparr>), True)
      else expire_loop cur t ts (pool, somethingRemoved))"

text \<open>The boolean says whether the observers are told that transactions were deleted.\<close>

definition removeExpiredTransactions :: "Currency \<Rightarrow> u64 \<Rightarrow> tx_memory_pool \<Rightarrow> tx_memory_pool \<times> bool" where
  "removeExpiredTransactions cur t pool =
     (let dtime = m_numberOfPeriodsToForgetTxDeletedFromPool cur * m_mempoolTxLiveTime cur;
          pool = pool\<lparr>m_recentlyDeletedTransactions :=
            (\<lambda>h. case m_recentlyDeletedTransactions pool h of
                   None \<Rightarrow> None | Some deleted \<Rightarrow> if dtime < t - deleted then None else Some deleted)\<rparr>
      in expire_loop cur t (m_transactions pool) (pool, False))"

text \<open>\<^verbatim>\<open>OnceInTimeInterval\<close>: \<^verbatim>\<open>time_t\<close> is signed, and the second time is read after the work. The new state and the time of the last call.\<close>

definition OnceInTimeInterval_call :: "u32 \<Rightarrow> u64 \<Rightarrow> u64 \<Rightarrow> u64 \<Rightarrow> ('s \<Rightarrow> 's) \<Rightarrow> 's \<Rightarrow> 's \<times> u64" where
  "OnceInTimeInterval_call interval lastWorkedTime t t' functr s =
     (if uint interval < sint (t - lastWorkedTime) then (functr s, t') else (s, lastWorkedTime))"

definition on_idle :: "Currency \<Rightarrow> u64 \<Rightarrow> u64 \<Rightarrow> tx_memory_pool \<Rightarrow> tx_memory_pool" where
  "on_idle cur t t' pool =
     (let (pool', lastWorkedTime) =
        OnceInTimeInterval_call 60 (m_lastWorkedTime pool) t t' (\<lambda>pool. fst (removeExpiredTransactions cur t pool)) pool
      in pool'\<lparr>m_lastWorkedTime := lastWorkedTime\<rparr>)"

definition on_blockchain_inc :: "tx_memory_pool \<Rightarrow> tx_memory_pool" where
  "on_blockchain_inc pool = pool\<lparr>m_validated_transactions := {}\<rparr>"

definition on_blockchain_dec :: "tx_memory_pool \<Rightarrow> tx_memory_pool" where
  "on_blockchain_dec pool = pool\<lparr>m_validated_transactions := {}\<rparr>"

fun buildIndices_loop :: "TransactionDetails list \<Rightarrow> tx_memory_pool \<Rightarrow> tx_memory_pool" where
  "buildIndices_loop [] pool = pool"
| "buildIndices_loop (d # ts) pool =
     (let ttl = transaction_ttl (td_tx d)
      in buildIndices_loop ts
           (pool\<lparr>m_paymentIdIndex := fst (PaymentIdIndex_add (td_tx d) (m_paymentIdIndex pool)),
                 m_timestampIndex := fst (TimestampTransactionsIndex_add (td_receiveTime d) (td_id d) (m_timestampIndex pool)),
                 m_ttlIndex := (if ttl \<noteq> 0 \<and> m_ttlIndex pool (td_id d) = None then (m_ttlIndex pool)(td_id d \<mapsto> ttl)
                                else m_ttlIndex pool)\<rparr>))"

definition buildIndices :: "tx_memory_pool \<Rightarrow> tx_memory_pool" where
  "buildIndices pool = buildIndices_loop (m_transactions pool) pool"

definition getTransactionIdsByPaymentId :: "hash \<Rightarrow> tx_memory_pool \<Rightarrow> hash list result" where
  "getTransactionIdsByPaymentId paymentId pool = PaymentIdIndex_find paymentId (m_paymentIdIndex pool)"

definition getTransactionIdsByTimestamp ::
  "u64 \<Rightarrow> u64 \<Rightarrow> u32 \<Rightarrow> tx_memory_pool \<Rightarrow> (hash list \<times> u64) option result" where
  "getTransactionIdsByTimestamp timestampBegin timestampEnd transactionsNumberLimit pool =
     TimestampTransactionsIndex_find timestampBegin timestampEnd (ucast transactionsNumberLimit) (m_timestampIndex pool)"

section \<open>Block templates\<close>

record BlockTemplate =
  bt_keyImages :: "bytes set"
  bt_usedOutputs :: "(u64 \<times> u64) set"
  bt_txHashes :: "hash list"

definition key_images :: "TransactionInput list \<Rightarrow> bytes list" where
  "key_images ins = concat (map (\<lambda>i. case i of TxKeyInput k \<Rightarrow> [ki_keyImage k] | _ \<Rightarrow> []) ins)"

definition used_outputs :: "TransactionInput list \<Rightarrow> (u64 \<times> u64) list" where
  "used_outputs ins =
     concat (map (\<lambda>i. case i of TxMultiSignatureInput m \<Rightarrow> [(mi_amount m, ucast (mi_outputIndex m))] | _ \<Rightarrow> []) ins)"

definition canAdd :: "Transaction \<Rightarrow> BlockTemplate \<Rightarrow> bool" where
  "canAdd tx bt \<longleftrightarrow>
     list_all (\<lambda>i. case i of
         TxKeyInput k \<Rightarrow> ki_keyImage k \<notin> bt_keyImages bt
       | TxMultiSignatureInput m \<Rightarrow> (mi_amount m, ucast (mi_outputIndex m)) \<notin> bt_usedOutputs bt
       | TxBaseInput _ \<Rightarrow> True) (inputs tx)"

text \<open>The inputs are inserted one by one, as in a release build, where the assertions that each is new are compiled out.\<close>

definition addTransaction :: "hash \<Rightarrow> Transaction \<Rightarrow> BlockTemplate \<Rightarrow> BlockTemplate \<times> bool" where
  "addTransaction txid tx bt =
     (if \<not> canAdd tx bt then (bt, False)
      else (bt\<lparr>bt_keyImages := bt_keyImages bt \<union> set (key_images (inputs tx)),
               bt_usedOutputs := bt_usedOutputs bt \<union> set (used_outputs (inputs tx)),
               bt_txHashes := bt_txHashes bt @ [txid]\<rparr>, True))"

definition is_transaction_ready_to_go :: "pool_env \<Rightarrow> Transaction \<Rightarrow> TransactionCheckInfo \<Rightarrow> bool \<times> TransactionCheckInfo" where
  "is_transaction_ready_to_go env tx txd =
     (case checkTransactionInputs_failed env tx txd of
        (False, txd) \<Rightarrow> (False, txd)
      | (True, txd) \<Rightarrow> if haveSpentKeyImages env tx then (False, txd) else (True, txd))"

text \<open>The ids of the ready transactions the caller does not know, and the known ids that are not ready, each in some order; the cache grows.\<close>

definition get_difference :: "pool_env \<Rightarrow> hash list \<Rightarrow> tx_memory_pool \<Rightarrow> tx_memory_pool \<times> hash set \<times> hash set" where
  "get_difference env known_tx_ids pool =
     (let (ready_tx_ids, cache) = fold (\<lambda>d (ready, cache).
            if td_id d \<in> cache then (insert (td_id d) ready, cache)
            else if fst (is_transaction_ready_to_go env (td_tx d) (td_checkInfo d)) then (insert (td_id d) ready, insert (td_id d) cache)
            else (ready, cache)) (m_transactions pool) ({}, m_validated_transactions pool);
          known_set = set known_tx_ids
      in (pool\<lparr>m_validated_transactions := cache\<rparr>, ready_tx_ids - known_set, known_set - ready_tx_ids))"

text \<open>The first loop: transactions without fee, from the lowest priority upwards.\<close>

fun fusion_loop ::
  "pool_env \<Rightarrow> Currency \<Rightarrow> tx_memory_pool \<Rightarrow> TransactionDetails list \<Rightarrow> BlockTemplate \<times> u64 \<Rightarrow> BlockTemplate \<times> u64" where
  "fusion_loop env cur pool [] st = st"
| "fusion_loop env cur pool (txd # ts) (bt, total_size) =
     (if td_fee txd \<noteq> 0 then (bt, total_size)
      else if m_ttlIndex pool (td_id txd) \<noteq> None then fusion_loop env cur pool ts (bt, total_size)
      else if m_fusionTxMaxSize cur < total_size + td_blobSize txd then fusion_loop env cur pool ts (bt, total_size)
      else if fst (is_transaction_ready_to_go env (td_tx txd) (td_checkInfo txd)) then
        (case addTransaction (td_id txd) (td_tx txd) bt of
           (bt', True) \<Rightarrow> fusion_loop env cur pool ts (bt', total_size + td_blobSize txd)
         | (bt', False) \<Rightarrow> fusion_loop env cur pool ts (bt', total_size))
      else fusion_loop env cur pool ts (bt, total_size))"

text \<open>The second loop, which also updates the check info of the transactions and the cache. Its result has the updated details.\<close>

fun fill_loop ::
  "pool_env \<Rightarrow> (hash \<Rightarrow> u64 option) \<Rightarrow> u64 \<Rightarrow> u64 \<Rightarrow> TransactionDetails list \<Rightarrow>
   hash set \<times> BlockTemplate \<times> u64 \<times> u64 \<Rightarrow> TransactionDetails list \<times> hash set \<times> BlockTemplate \<times> u64 \<times> u64" where
  "fill_loop env ttl median_size max_total_size [] (cache, bt, total_size, fee) = ([], cache, bt, total_size, fee)"
| "fill_loop env ttl median_size max_total_size (txd # ts) (cache, bt, total_size, fee) =
     (let blockSizeLimit = (if td_fee txd = 0 then median_size else max_total_size)
      in if ttl (td_id txd) \<noteq> None \<or> blockSizeLimit < total_size + td_blobSize txd
         then (let (ts', r) = fill_loop env ttl median_size max_total_size ts (cache, bt, total_size, fee) in (txd # ts', r))
         else
           (let (ready, info, cache) =
                  (if td_id txd \<in> cache then (True, td_checkInfo txd, cache)
                   else (case is_transaction_ready_to_go env (td_tx txd) (td_checkInfo txd) of
                           (ok, info) \<Rightarrow> (ok, info, if ok then insert (td_id txd) cache else cache)));
                (bt, added) = (if ready then addTransaction (td_id txd) (td_tx txd) bt else (bt, False));
                (ts', r) = fill_loop env ttl median_size max_total_size ts
                   (cache, bt, if added then total_size + td_blobSize txd else total_size, if added then fee + td_fee txd else fee)
            in (txd\<lparr>td_checkInfo := info\<rparr> # ts', r)))"

text \<open>The transaction hashes of the block, the total size and the fee; and the pool.\<close>

definition fill_block_template ::
  "pool_env \<Rightarrow> Currency \<Rightarrow> u64 \<Rightarrow> u64 \<Rightarrow> tx_memory_pool \<Rightarrow> tx_memory_pool \<times> hash list \<times> u64 \<times> u64" where
  "fill_block_template env cur median_size maxCumulativeSize pool =
     (let max_total_size = min ((125 * median_size) div 100) maxCumulativeSize - m_minerTxBlobReservedSize cur;
          (bt, total_size) = fusion_loop env cur pool (rev (m_transactions pool))
             (\<lparr>bt_keyImages = {}, bt_usedOutputs = {}, bt_txHashes = []\<rparr>, 0);
          (ts, cache, bt, total_size, fee) = fill_loop env (m_ttlIndex pool) median_size max_total_size (m_transactions pool)
             (m_validated_transactions pool, bt, total_size, 0)
      in (pool\<lparr>m_transactions := ts, m_validated_transactions := cache\<rparr>, bt_txHashes bt, total_size, fee))"

section \<open>The order of the fee index\<close>

definition price :: "TransactionDetails \<Rightarrow> real" where
  "price d = real (unat (td_fee d)) / real (unat (td_blobSize d))"

lemma mul128_less_iff:
  assumes "mul128 a b = (lo, hi)" and "mul128 c d = (lo', hi')"
  shows "(hi < hi' \<or> hi = hi' \<and> lo < lo') \<longleftrightarrow> unat a * unat b < unat c * unat d"
    and "(hi = hi' \<and> lo = lo') \<longleftrightarrow> unat a * unat b = unat c * unat d"
proof -
  have eq: "unat hi * 2 ^ 64 + unat lo = unat a * unat b" "unat hi' * 2 ^ 64 + unat lo' = unat c * unat d"
    using assms by (simp_all add: mul128_correct del: power_numeral)
  have b: "unat lo < 2 ^ 64" "unat lo' < 2 ^ 64" using unsigned_less [of lo, where 'a = nat] unsigned_less [of lo', where 'a = nat] by simp_all
  have "(unat hi < unat hi' \<or> unat hi = unat hi' \<and> unat lo < unat lo') \<longleftrightarrow> unat hi * 2 ^ 64 + unat lo < unat hi' * 2 ^ 64 + unat lo'"
    using b by auto
  then show "(hi < hi' \<or> hi = hi' \<and> lo < lo') \<longleftrightarrow> unat a * unat b < unat c * unat d"
    by (simp add: eq word_less_nat_alt word_unat_eq_iff del: power_numeral)
  have "(unat hi = unat hi' \<and> unat lo = unat lo') \<longleftrightarrow> unat hi * 2 ^ 64 + unat lo = unat hi' * 2 ^ 64 + unat lo'"
    using two_word_unique [of hi lo hi' lo'] by (metis word_unat_eq_iff)
  then show "(hi = hi' \<and> lo = lo') \<longleftrightarrow> unat a * unat b = unat c * unat d"
    by (simp add: eq word_unat_eq_iff del: power_numeral)
qed

lemma price_cross:
  assumes "0 < td_blobSize l" and "0 < td_blobSize r"
  shows "price r < price l \<longleftrightarrow> unat (td_fee r) * unat (td_blobSize l) < unat (td_fee l) * unat (td_blobSize r)"
    and "price l = price r \<longleftrightarrow> unat (td_fee l) * unat (td_blobSize r) = unat (td_fee r) * unat (td_blobSize l)"
proof -
  have "0 < unat (td_blobSize l)" "0 < unat (td_blobSize r)" using assms by (simp_all add: word_less_nat_alt)
  then have p: "0 < real (unat (td_blobSize l))" "0 < real (unat (td_blobSize r))" by (simp_all only: of_nat_0_less_iff)
  have "price r < price l \<longleftrightarrow> real (unat (td_fee r)) * real (unat (td_blobSize l)) < real (unat (td_fee l)) * real (unat (td_blobSize r))"
    unfolding price_def using p by (simp add: field_simps)
  then show "price r < price l \<longleftrightarrow> unat (td_fee r) * unat (td_blobSize l) < unat (td_fee l) * unat (td_blobSize r)"
    by (simp only: of_nat_mult [symmetric] of_nat_less_iff)
  have "price l = price r \<longleftrightarrow> real (unat (td_fee l)) * real (unat (td_blobSize r)) = real (unat (td_fee r)) * real (unat (td_blobSize l))"
    unfolding price_def using p by (simp add: field_simps)
  then show "price l = price r \<longleftrightarrow> unat (td_fee l) * unat (td_blobSize r) = unat (td_fee r) * unat (td_blobSize l)"
    by (simp only: of_nat_mult [symmetric] of_nat_eq_iff)
qed

lemma comparator_by_price:
  assumes "0 < td_blobSize l" and "0 < td_blobSize r"
  shows "TransactionPriorityComparator l r \<longleftrightarrow> price r < price l \<or> price l = price r \<and>
    (td_blobSize l < td_blobSize r \<or> td_blobSize l = td_blobSize r \<and> sint (td_receiveTime l) < sint (td_receiveTime r))"
proof -
  obtain lo hi lo' hi' where m: "mul128 (td_fee l) (td_blobSize r) = (lo, hi)" "mul128 (td_fee r) (td_blobSize l) = (lo', hi')" by fastforce
  show ?thesis unfolding TransactionPriorityComparator_def m Let_def prod.case price_cross [OF assms]
    using mul128_less_iff [OF m(2) m(1)] mul128_less_iff(2) [OF m] by auto
qed


lemma price_size_unique: "0 < td_blobSize l \<Longrightarrow> td_blobSize l = td_blobSize r \<Longrightarrow> price l = price r \<longleftrightarrow> td_fee l = td_fee r"
  using price_cross(2) [of l r] by (auto simp: word_less_nat_alt word_unat_eq_iff)

lemma comparator_trans:
  assumes "0 < td_blobSize a" "0 < td_blobSize b" "0 < td_blobSize c"
    and "TransactionPriorityComparator a b" "TransactionPriorityComparator b c"
  shows "TransactionPriorityComparator a c"
  using assms(4,5) unfolding comparator_by_price [OF assms(1,2)] comparator_by_price [OF assms(2,3)] comparator_by_price [OF assms(1,3)]
  by auto

text \<open>An index that is ordered by a strict order on the elements that meet \<open>ok\<close>, and the insertion at the upper bound.\<close>

locale ordered_index =
  fixes ok :: "'a \<Rightarrow> bool" and before :: "'a \<Rightarrow> 'a \<Rightarrow> bool"
  assumes before_irrefl: "ok a \<Longrightarrow> \<not> before a a"
    and before_trans: "ok a \<Longrightarrow> ok b \<Longrightarrow> ok c \<Longrightarrow> before a b \<Longrightarrow> before b c \<Longrightarrow> before a c"
begin

lemma before_asym: "ok a \<Longrightarrow> ok b \<Longrightarrow> before a b \<Longrightarrow> \<not> before b a"
  using before_irrefl before_trans by blast

lemma dropWhile_after:
  "sorted_wrt (\<lambda>a b. \<not> before b a) xs \<Longrightarrow> \<forall>y\<in>set xs. ok y \<Longrightarrow> ok x \<Longrightarrow> z \<in> set (dropWhile (\<lambda>y. \<not> before x y) xs) \<Longrightarrow> \<not> before z x"
proof (induction xs)
  case (Cons y ys)
  show ?case
  proof (cases "before x y")
    case True
    then have "z = y \<or> z \<in> set ys" using Cons.prems(4) by simp
    then show ?thesis
    proof
      assume "z = y" then show ?thesis using before_asym [of x y] True Cons.prems(2,3) by simp
    next
      assume z: "z \<in> set ys"
      then have "\<not> before z y" "ok z" "ok y" using Cons.prems by auto
      then show ?thesis using before_trans [of z x y] True Cons.prems(3) by blast
    qed
  next
    case False then show ?thesis using Cons by simp
  qed
qed simp

lemma insert_sorted:
  assumes "sorted_wrt (\<lambda>a b. \<not> before b a) xs" and "\<forall>y\<in>set xs. ok y" and "ok x"
  shows "sorted_wrt (\<lambda>a b. \<not> before b a) (takeWhile (\<lambda>y. \<not> before x y) xs @ x # dropWhile (\<lambda>y. \<not> before x y) xs)"
proof -
  define t d where "t = takeWhile (\<lambda>y. \<not> before x y) xs" and "d = dropWhile (\<lambda>y. \<not> before x y) xs"
  have split: "sorted_wrt (\<lambda>a b. \<not> before b a) (t @ d)" using assms(1) by (simp add: t_def d_def)
  have "\<forall>z\<in>set d. \<not> before z x" using dropWhile_after [OF assms] by (simp add: d_def)
  moreover have "\<forall>y\<in>set t. \<not> before x y" by (auto simp: t_def dest: set_takeWhileD)
  ultimately have "sorted_wrt (\<lambda>a b. \<not> before b a) (t @ x # d)" using split by (simp add: sorted_wrt_append)
  then show ?thesis by (simp only: t_def d_def)
qed

end

interpretation fee_index: ordered_index "\<lambda>d. 0 < td_blobSize d" TransactionPriorityComparator
proof
  show "\<not> TransactionPriorityComparator a a" if "0 < td_blobSize a" for a using that by (simp add: comparator_by_price)
qed (rule comparator_trans)

lemma insert_details_set:
  "insert_details d ts = (ts', True) \<Longrightarrow> set ts' = insert d (set ts) \<and> td_id d \<notin> td_id ` set ts"
proof -
  assume "insert_details d ts = (ts', True)"
  then have "ts' = takeWhile (\<lambda>x. \<not> TransactionPriorityComparator d x) ts @ d # dropWhile (\<lambda>x. \<not> TransactionPriorityComparator d x) ts"
    and "td_id d \<notin> td_id ` set ts" by (auto simp: insert_details_def split: if_splits)
  moreover have "set (takeWhile P ts) \<union> set (dropWhile P ts) = set ts" for P by (metis set_append takeWhile_dropWhile_id)
  ultimately show ?thesis by (metis Un_insert_right list.set(2) set_append)
qed

lemma insert_details_distinct:
  assumes "insert_details d ts = (ts', True)" and "distinct (map td_id ts)"
  shows "distinct (map td_id ts')"
proof -
  let ?P = "\<lambda>x. \<not> TransactionPriorityComparator d x"
  have "ts' = takeWhile ?P ts @ d # dropWhile ?P ts" and "td_id d \<notin> td_id ` set ts"
    using assms(1) by (auto simp: insert_details_def split: if_splits)
  moreover have "distinct (map td_id (takeWhile ?P ts @ dropWhile ?P ts))" using assms(2) by simp
  moreover have "set (takeWhile ?P ts) \<subseteq> set ts" "set (dropWhile ?P ts) \<subseteq> set ts"
    by (auto dest: set_takeWhileD set_dropWhileD)
  ultimately show ?thesis unfolding map_append distinct_append by auto
qed

lemma insert_details_sorted:
  assumes "insert_details d ts = (ts', True)" and "sorted_wrt (\<lambda>a b. \<not> TransactionPriorityComparator b a) ts"
    and "\<forall>x\<in>set ts. 0 < td_blobSize x" and "0 < td_blobSize d"
  shows "sorted_wrt (\<lambda>a b. \<not> TransactionPriorityComparator b a) ts'"
proof -
  have "ts' = takeWhile (\<lambda>y. \<not> TransactionPriorityComparator d y) ts @ d # dropWhile (\<lambda>y. \<not> TransactionPriorityComparator d y) ts"
    using assms(1) by (auto simp: insert_details_def split: if_splits)
  then show ?thesis using fee_index.insert_sorted [OF assms(2-4)] by simp
qed

section \<open>Entering and removing the inputs of a transaction\<close>

definition spends :: "Transaction \<Rightarrow> (bytes + u64 \<times> u64) set" where
  "spends tx = Inl ` set (key_images (inputs tx)) \<union> Inr ` set (used_outputs (inputs tx))"

definition spenders :: "tx_memory_pool \<Rightarrow> bytes \<Rightarrow> hash set" where
  "spenders pool k = (case m_spent_key_images pool k of None \<Rightarrow> {} | Some s \<Rightarrow> s)"

lemma key_images_simps [simp]:
  "key_images [] = []" "key_images (TxKeyInput k # ins) = ki_keyImage k # key_images ins"
  "key_images (TxMultiSignatureInput m # ins) = key_images ins" "key_images (TxBaseInput b # ins) = key_images ins"
  "used_outputs [] = []" "used_outputs (TxKeyInput k # ins) = used_outputs ins"
  "used_outputs (TxMultiSignatureInput m # ins) = (mi_amount m, ucast (mi_outputIndex m)) # used_outputs ins"
  "used_outputs (TxBaseInput b # ins) = used_outputs ins"
  by (simp_all add: key_images_def used_outputs_def)

lemma haveSpentInputs_iff:
  "haveSpentInputs tx pool \<longleftrightarrow> (\<exists>k\<in>set (key_images (inputs tx)). m_spent_key_images pool k \<noteq> None) \<or>
     set (used_outputs (inputs tx)) \<inter> m_spentOutputs pool \<noteq> {}"
proof -
  have "list_ex (\<lambda>i. case i of TxKeyInput k \<Rightarrow> m_spent_key_images pool (ki_keyImage k) \<noteq> None
       | TxMultiSignatureInput m \<Rightarrow> (mi_amount m, ucast (mi_outputIndex m)) \<in> m_spentOutputs pool | TxBaseInput _ \<Rightarrow> False) ins \<longleftrightarrow>
     (\<exists>k\<in>set (key_images ins). m_spent_key_images pool k \<noteq> None) \<or> set (used_outputs ins) \<inter> m_spentOutputs pool \<noteq> {}" for ins
    by (induction ins) (auto simp del: not_None_eq split: TransactionInput.splits)
  then show ?thesis by (simp add: haveSpentInputs_def)
qed

lemma spenders_simps [simp]:
  "spenders (pool\<lparr>m_spent_key_images := f\<rparr>) k = (case f k of None \<Rightarrow> {} | Some s \<Rightarrow> s)"
  "spenders (pool\<lparr>m_spentOutputs := x\<rparr>) = spenders pool"
  by (simp_all add: spenders_def fun_eq_iff)

lemma addTransactionInputs_key:
  "txid \<notin> spenders pool (ki_keyImage k) \<Longrightarrow> kept \<or> spenders pool (ki_keyImage k) = {} \<Longrightarrow>
   addTransactionInputs txid (TxKeyInput k # ins) kept pool = addTransactionInputs txid ins kept
     (pool\<lparr>m_spent_key_images := (m_spent_key_images pool)(ki_keyImage k \<mapsto> insert txid (spenders pool (ki_keyImage k)))\<rparr>)"
  unfolding addTransactionInputs.simps Let_def spenders_def [symmetric] by simp

definition without :: "hash \<Rightarrow> hash set \<Rightarrow> hash set option" where
  "without txid s = (if s - {txid} = {} then None else Some (s - {txid}))"

lemma removeTransactionInputs_key:
  "txid \<in> spenders pool (ki_keyImage k) \<Longrightarrow>
   removeTransactionInputs txid (TxKeyInput k # ins) kept pool = removeTransactionInputs txid ins kept
     (pool\<lparr>m_spent_key_images := (m_spent_key_images pool)(ki_keyImage k := without txid (spenders pool (ki_keyImage k)))\<rparr>)"
  by (auto simp: spenders_def without_def split: option.splits)

definition pool_rest :: "tx_memory_pool \<Rightarrow> tx_memory_pool" where
  "pool_rest pool = pool\<lparr>m_spent_key_images := Map.empty, m_spentOutputs := {}\<rparr>"

lemma pool_rest_simps [simp]:
  "pool_rest (pool\<lparr>m_spent_key_images := f\<rparr>) = pool_rest pool" "pool_rest (pool\<lparr>m_spentOutputs := x\<rparr>) = pool_rest pool"
  by (simp_all add: pool_rest_def)

lemma pool_eqI:
  assumes "m_spent_key_images p = m_spent_key_images q" and "m_spentOutputs p = m_spentOutputs q" and "pool_rest p = pool_rest q"
  shows "p = q"
proof -
  have "p = (pool_rest p)\<lparr>m_spent_key_images := m_spent_key_images p, m_spentOutputs := m_spentOutputs p\<rparr>" by (simp add: pool_rest_def)
  also have "\<dots> = q" unfolding assms by (simp add: pool_rest_def)
  finally show ?thesis .
qed

lemma addTransactionInputs_closed:
  assumes "distinct (key_images ins)"
    and "\<forall>k\<in>set (key_images ins). txid \<notin> spenders pool k \<and> (kept \<or> spenders pool k = {})"
    and "addTransactionInputs txid ins kept pool = (pool', ok)"
  shows "ok \<and> pool_rest pool' = pool_rest pool \<and>
    (\<forall>k. m_spent_key_images pool' k =
       (if k \<in> set (key_images ins) then Some (insert txid (spenders pool k)) else m_spent_key_images pool k)) \<and>
    m_spentOutputs pool' = m_spentOutputs pool \<union> (if kept then {} else set (used_outputs ins))"
  using assms
proof (induction ins arbitrary: pool)
  case (Cons i ins)
  show ?case
  proof (cases i)
    case (TxKeyInput k)
    let ?p = "pool\<lparr>m_spent_key_images := (m_spent_key_images pool)(ki_keyImage k \<mapsto> insert txid (spenders pool (ki_keyImage k)))\<rparr>"
    have sp: "spenders ?p j = spenders pool j" if "j \<in> set (key_images ins)" for j
      using that Cons.prems(1) TxKeyInput by (auto simp: spenders_def)
    have run: "addTransactionInputs txid ins kept ?p = (pool', ok)"
      using Cons.prems(2,3) TxKeyInput addTransactionInputs_key [of txid pool k kept ins] by simp
    have pre: "\<forall>j\<in>set (key_images ins). txid \<notin> spenders ?p j \<and> (kept \<or> spenders ?p j = {})"
      using Cons.prems(2) TxKeyInput by (simp add: sp del: spenders_simps)
    show ?thesis using Cons.IH [OF _ pre run] Cons.prems(1) by (simp add: TxKeyInput sp del: spenders_simps)
  next
    case (TxMultiSignatureInput m)
    then show ?thesis using Cons.IH [of "if kept then pool else pool\<lparr>m_spentOutputs :=
        insert (mi_amount m, ucast (mi_outputIndex m)) (m_spentOutputs pool)\<rparr>"] Cons.prems by (cases kept) auto
  next
    case (TxBaseInput b)
    then show ?thesis using Cons.IH [of pool] Cons.prems by simp
  qed
qed simp

lemma removeTransactionInputs_closed:
  assumes "distinct (key_images ins)" and "\<forall>k\<in>set (key_images ins). txid \<in> spenders pool k"
    and "removeTransactionInputs txid ins kept pool = (pool', ok)"
  shows "ok \<and> pool_rest pool' = pool_rest pool \<and>
    (\<forall>k. m_spent_key_images pool' k =
       (if k \<in> set (key_images ins) then without txid (spenders pool k) else m_spent_key_images pool k)) \<and>
    m_spentOutputs pool' = m_spentOutputs pool - (if kept then {} else set (used_outputs ins))"
  using assms
proof (induction ins arbitrary: pool)
  case (Cons i ins)
  show ?case
  proof (cases i)
    case (TxKeyInput k)
    let ?p = "pool\<lparr>m_spent_key_images := (m_spent_key_images pool)(ki_keyImage k := without txid (spenders pool (ki_keyImage k)))\<rparr>"
    have sp: "spenders ?p j = spenders pool j" if "j \<in> set (key_images ins)" for j
      using that Cons.prems(1) TxKeyInput by (auto simp: spenders_def)
    have run: "removeTransactionInputs txid ins kept ?p = (pool', ok)"
      using Cons.prems(2,3) TxKeyInput removeTransactionInputs_key [of txid pool k ins kept] by simp
    have pre: "\<forall>j\<in>set (key_images ins). txid \<in> spenders ?p j"
      using Cons.prems(2) TxKeyInput by (simp add: sp del: spenders_simps)
    show ?thesis using Cons.IH [OF _ pre run] Cons.prems(1) by (simp add: TxKeyInput sp del: spenders_simps)
  next
    case (TxMultiSignatureInput m)
    then show ?thesis using Cons.IH [of "if kept then pool else pool\<lparr>m_spentOutputs :=
        m_spentOutputs pool - {(mi_amount m, ucast (mi_outputIndex m))}\<rparr>"] Cons.prems by (cases kept) auto
  next
    case (TxBaseInput b)
    then show ?thesis using Cons.IH [of pool] Cons.prems by simp
  qed
qed simp

text \<open>Entering the inputs of a transaction and removing them again gives back the pool; in between exactly its inputs are spent in addition.\<close>

lemma spent_inputs_roundtrip:
  assumes "\<not> haveSpentInputs tx pool" and "distinct (key_images (inputs tx))"
  shows "\<exists>pool'. addTransactionInputs txid (inputs tx) False pool = (pool', True) \<and>
      (\<forall>tx'. spends tx' \<inter> spends tx \<noteq> {} \<longrightarrow> haveSpentInputs tx' pool') \<and>
      (\<forall>tx'. spends tx' \<inter> spends tx = {} \<longrightarrow> haveSpentInputs tx' pool' = haveSpentInputs tx' pool) \<and>
      removeTransactionInputs txid (inputs tx) False pool' = (pool, True)"
proof -
  obtain p ok where add: "addTransactionInputs txid (inputs tx) False pool = (p, ok)" by fastforce
  obtain q ok' where rem: "removeTransactionInputs txid (inputs tx) False p = (q, ok')" by fastforce
  have free: "m_spent_key_images pool k = None" if "k \<in> set (key_images (inputs tx))" for k
    using that assms(1) unfolding haveSpentInputs_iff by blast
  have fresh: "set (used_outputs (inputs tx)) \<inter> m_spentOutputs pool = {}"
    using assms(1) unfolding haveSpentInputs_iff by blast
  have none: "spenders pool k = {}" if "k \<in> set (key_images (inputs tx))" for k using free [OF that] by (simp add: spenders_def)
  have a: "ok \<and> pool_rest p = pool_rest pool \<and> (\<forall>k. m_spent_key_images p k =
       (if k \<in> set (key_images (inputs tx)) then Some (insert txid (spenders pool k)) else m_spent_key_images pool k)) \<and>
    m_spentOutputs p = m_spentOutputs pool \<union> (if False then {} else set (used_outputs (inputs tx)))"
    by (rule addTransactionInputs_closed [OF assms(2) _ add]) (simp add: none)
  then have pk: "m_spent_key_images p k = (if k \<in> set (key_images (inputs tx)) then Some {txid} else m_spent_key_images pool k)"
    and po: "m_spentOutputs p = m_spentOutputs pool \<union> set (used_outputs (inputs tx))" for k by (simp_all add: none)
  have psp: "spenders p k = {txid}" if "k \<in> set (key_images (inputs tx))" for k using that by (simp add: spenders_def pk)
  have r: "ok' \<and> pool_rest q = pool_rest p \<and> (\<forall>k. m_spent_key_images q k =
       (if k \<in> set (key_images (inputs tx)) then without txid (spenders p k) else m_spent_key_images p k)) \<and>
    m_spentOutputs q = m_spentOutputs p - (if False then {} else set (used_outputs (inputs tx)))"
    by (rule removeTransactionInputs_closed [OF assms(2) _ rem]) (simp add: psp)
  have "q = pool"
  proof (rule pool_eqI)
    show "m_spent_key_images q = m_spent_key_images pool" using r by (intro ext) (simp add: psp pk free without_def)
    show "m_spentOutputs q = m_spentOutputs pool" using r po fresh by auto
    show "pool_rest q = pool_rest pool" using r a by simp
  qed
  moreover have "haveSpentInputs tx' p" if "spends tx' \<inter> spends tx \<noteq> {}" for tx'
  proof -
    from that consider k where "k \<in> set (key_images (inputs tx'))" "k \<in> set (key_images (inputs tx))"
      | out where "out \<in> set (used_outputs (inputs tx'))" "out \<in> set (used_outputs (inputs tx))"
      unfolding spends_def by blast
    then show ?thesis
    proof cases
      case 1
      then have "m_spent_key_images p k \<noteq> None" by (simp add: pk)
      with 1 show ?thesis unfolding haveSpentInputs_iff by blast
    next
      case 2
      then show ?thesis unfolding haveSpentInputs_iff po by blast
    qed
  qed
  moreover have "haveSpentInputs tx' p = haveSpentInputs tx' pool" if "spends tx' \<inter> spends tx = {}" for tx'
  proof -
    have nk: "k \<notin> set (key_images (inputs tx))" if "k \<in> set (key_images (inputs tx'))" for k
      using that \<open>spends tx' \<inter> spends tx = {}\<close> unfolding spends_def by blast
    have "set (used_outputs (inputs tx')) \<inter> set (used_outputs (inputs tx)) = {}" using that unfolding spends_def by blast
    then have "set (used_outputs (inputs tx')) \<inter> m_spentOutputs p = set (used_outputs (inputs tx')) \<inter> m_spentOutputs pool"
      unfolding po by blast
    moreover have "(\<exists>k\<in>set (key_images (inputs tx')). m_spent_key_images p k \<noteq> None) =
        (\<exists>k\<in>set (key_images (inputs tx')). m_spent_key_images pool k \<noteq> None)"
      by (rule bex_cong [OF refl]) (simp only: pk nk if_False)
    ultimately show ?thesis unfolding haveSpentInputs_iff by (simp only:)
  qed
  moreover have "addTransactionInputs txid (inputs tx) False pool = (p, True)" using add a by simp
  moreover have "removeTransactionInputs txid (inputs tx) False p = (q, True)" using rem r by simp
  ultimately show ?thesis by blast
qed

section \<open>The invariant of the pool\<close>

abbreviation td_inputs :: "TransactionDetails \<Rightarrow> TransactionInput list" where
  "td_inputs d \<equiv> inputs (td_tx d)"

definition spenders_of :: "TransactionDetails list \<Rightarrow> bytes \<Rightarrow> hash set" where
  "spenders_of ts k = td_id ` {d \<in> set ts. k \<in> set (key_images (td_inputs d))}"

definition spent_ok :: "tx_memory_pool \<Rightarrow> bool" where
  "spent_ok pool \<longleftrightarrow>
     (\<forall>k. m_spent_key_images pool k =
        (if spenders_of (m_transactions pool) k = {} then None else Some (spenders_of (m_transactions pool) k))) \<and>
     m_spentOutputs pool = (\<Union>d\<in>{d \<in> set (m_transactions pool). \<not> td_keptByBlock d}. set (used_outputs (td_inputs d)))"

definition exclusive :: "TransactionDetails list \<Rightarrow> bool" where
  "exclusive ts \<longleftrightarrow> (\<forall>a\<in>set ts. \<forall>b\<in>set ts. \<not> td_keptByBlock a \<and> \<not> td_keptByBlock b \<and> td_id a \<noteq> td_id b \<longrightarrow>
     spends (td_tx a) \<inter> spends (td_tx b) = {})"

definition by_priority :: "TransactionDetails list \<Rightarrow> bool" where
  "by_priority ts \<longleftrightarrow> sorted_wrt (\<lambda>a b. \<not> TransactionPriorityComparator b a) ts \<and> (\<forall>d\<in>set ts. 0 < td_blobSize d)"

definition pool_inv :: "tx_memory_pool \<Rightarrow> bool" where
  "pool_inv pool \<longleftrightarrow> distinct (map td_id (m_transactions pool)) \<and>
     (\<forall>d\<in>set (m_transactions pool). distinct (key_images (td_inputs d))) \<and>
     spent_ok pool \<and> exclusive (m_transactions pool) \<and> by_priority (m_transactions pool) \<and>
     dom (m_ttlIndex pool) \<subseteq> td_id ` set (m_transactions pool) \<and>
     m_validated_transactions pool \<subseteq> td_id ` set (m_transactions pool)"

lemma empty_pool_inv: "pool_inv (empty_pool e)"
  by (simp add: pool_inv_def empty_pool_def spent_ok_def exclusive_def by_priority_def spenders_of_def)

lemma pool_rest_eqD:
  assumes "pool_rest p = pool_rest q"
  shows "m_transactions p = m_transactions q" "m_ttlIndex p = m_ttlIndex q"
    "m_validated_transactions p = m_validated_transactions q" "m_recentlyDeletedTransactions p = m_recentlyDeletedTransactions q"
    "m_paymentIdIndex p = m_paymentIdIndex q" "m_timestampIndex p = m_timestampIndex q" "m_lastWorkedTime p = m_lastWorkedTime q"
  using arg_cong [OF assms, of m_transactions] arg_cong [OF assms, of m_ttlIndex] arg_cong [OF assms, of m_validated_transactions]
    arg_cong [OF assms, of m_recentlyDeletedTransactions] arg_cong [OF assms, of m_paymentIdIndex]
    arg_cong [OF assms, of m_timestampIndex] arg_cong [OF assms, of m_lastWorkedTime]
  by (simp_all add: pool_rest_def)

lemma spent_ok_spenders: "spent_ok pool \<Longrightarrow> spenders pool k = spenders_of (m_transactions pool) k"
  by (simp add: spent_ok_def spenders_def)

lemma spenders_of_insert:
  "set ts' = insert d (set ts) \<Longrightarrow>
   spenders_of ts' k = (if k \<in> set (key_images (td_inputs d)) then insert (td_id d) (spenders_of ts k) else spenders_of ts k)"
  by (auto simp: spenders_of_def)

lemma spenders_of_ids: "spenders_of ts k \<subseteq> td_id ` set ts"
  by (auto simp: spenders_of_def)

lemma spends_Int_empty_iff:
  "spends a \<inter> spends b = {} \<longleftrightarrow> set (key_images (inputs a)) \<inter> set (key_images (inputs b)) = {} \<and>
     set (used_outputs (inputs a)) \<inter> set (used_outputs (inputs b)) = {}"
  unfolding spends_def by auto

lemma free_inputs_disjoint:
  assumes "spent_ok pool" and "\<not> haveSpentInputs tx pool" and "d \<in> set (m_transactions pool)" and "\<not> td_keptByBlock d"
  shows "spends tx \<inter> spends (td_tx d) = {}"
proof -
  have "k \<notin> set (key_images (td_inputs d))" if "k \<in> set (key_images (inputs tx))" for k
  proof -
    have "m_spent_key_images pool k = None" using assms(2) that unfolding haveSpentInputs_iff by blast
    then have "spenders_of (m_transactions pool) k = {}" using assms(1) by (simp add: spent_ok_def split: if_splits)
    then show ?thesis using assms(3) by (auto simp: spenders_of_def)
  qed
  moreover have "set (used_outputs (td_inputs d)) \<subseteq> m_spentOutputs pool" using assms(1,3,4) by (auto simp: spent_ok_def)
  moreover have "set (used_outputs (inputs tx)) \<inter> m_spentOutputs pool = {}" using assms(2) unfolding haveSpentInputs_iff by blast
  ultimately show ?thesis unfolding spends_Int_empty_iff by blast
qed

lemma enter_spent_ok:
  assumes "spent_ok pool" and "set ts = insert d (set (m_transactions pool))" and "td_id d \<notin> td_id ` set (m_transactions pool)"
    and "distinct (key_images (td_inputs d))" and "\<not> td_keptByBlock d \<Longrightarrow> \<not> haveSpentInputs (td_tx d) pool"
    and "m_transactions pool1 = ts" "m_spent_key_images pool1 = m_spent_key_images pool" "m_spentOutputs pool1 = m_spentOutputs pool"
    and "addTransactionInputs (td_id d) (td_inputs d) (td_keptByBlock d) pool1 = (pool2, ok)"
  shows "ok \<and> spent_ok pool2 \<and> pool_rest pool2 = pool_rest pool1"
proof -
  have sp: "spenders pool1 k = spenders_of (m_transactions pool) k" for k
    using spent_ok_spenders [OF assms(1), of k] assms(7) by (simp add: spenders_def)
  have "td_keptByBlock d \<or> spenders pool1 k = {}" if "k \<in> set (key_images (td_inputs d))" for k
  proof (cases "td_keptByBlock d")
    case False
    then have "m_spent_key_images pool k = None" using assms(5) that unfolding haveSpentInputs_iff by blast
    then show ?thesis using assms(7) by (simp add: spenders_def)
  qed simp
  moreover have "td_id d \<notin> spenders pool1 k" for k using assms(3) spenders_of_ids sp by blast
  ultimately have r: "ok \<and> pool_rest pool2 = pool_rest pool1 \<and> (\<forall>k. m_spent_key_images pool2 k =
       (if k \<in> set (key_images (td_inputs d)) then Some (insert (td_id d) (spenders pool1 k)) else m_spent_key_images pool1 k)) \<and>
    m_spentOutputs pool2 = m_spentOutputs pool1 \<union> (if td_keptByBlock d then {} else set (used_outputs (td_inputs d)))"
    using addTransactionInputs_closed [OF assms(4) _ assms(9)] by blast
  then have ts2: "m_transactions pool2 = ts" using pool_rest_eqD(1) assms(6) by metis
  have "m_spent_key_images pool2 k = (if spenders_of ts k = {} then None else Some (spenders_of ts k))" for k
    using r assms(1,7) unfolding spenders_of_insert [OF assms(2)] sp spent_ok_def by simp
  moreover have "m_spentOutputs pool2 = (\<Union>d\<in>{d \<in> set ts. \<not> td_keptByBlock d}. set (used_outputs (td_inputs d)))"
    using r assms(1,8) unfolding assms(2) spent_ok_def by (auto split: if_splits)
  ultimately show ?thesis using r ts2 by (simp add: spent_ok_def)
qed

lemma enter_pool_inv:
  assumes "pool_inv pool" and "insert_details d (m_transactions pool) = (ts, True)" and "distinct (key_images (td_inputs d))"
    and "0 < td_blobSize d" and "\<not> td_keptByBlock d \<Longrightarrow> \<not> haveSpentInputs (td_tx d) pool"
    and "m_transactions pool1 = ts" "m_spent_key_images pool1 = m_spent_key_images pool" "m_spentOutputs pool1 = m_spentOutputs pool"
    and "dom (m_ttlIndex pool1) \<subseteq> insert (td_id d) (dom (m_ttlIndex pool))"
    and "m_validated_transactions pool1 = m_validated_transactions pool"
    and "addTransactionInputs (td_id d) (td_inputs d) (td_keptByBlock d) pool1 = (pool2, ok)"
  shows "ok \<and> pool_inv pool2"
proof -
  have inv: "distinct (map td_id (m_transactions pool))" "spent_ok pool" "exclusive (m_transactions pool)"
    "by_priority (m_transactions pool)" "\<forall>d\<in>set (m_transactions pool). distinct (key_images (td_inputs d))"
    "dom (m_ttlIndex pool) \<subseteq> td_id ` set (m_transactions pool)" "m_validated_transactions pool \<subseteq> td_id ` set (m_transactions pool)"
    using assms(1) by (auto simp: pool_inv_def)
  have ts: "set ts = insert d (set (m_transactions pool))" "td_id d \<notin> td_id ` set (m_transactions pool)"
    using insert_details_set [OF assms(2)] by auto
  have r: "ok \<and> spent_ok pool2 \<and> pool_rest pool2 = pool_rest pool1"
    by (rule enter_spent_ok [OF inv(2) ts assms(3) assms(5) assms(6,7,8,11)])
  note rest = pool_rest_eqD [of pool2 pool1]
  have t2: "m_transactions pool2 = ts" using r rest(1) assms(6) by simp
  have "distinct (map td_id ts)" by (rule insert_details_distinct [OF assms(2) inv(1)])
  moreover have "by_priority ts"
    using insert_details_sorted [OF assms(2) _ _ assms(4)] inv(4) assms(4) ts(1) by (auto simp: by_priority_def)
  moreover have "exclusive ts"
  proof -
    have "spends (td_tx d) \<inter> spends (td_tx a) = {}" if "a \<in> set (m_transactions pool)" "\<not> td_keptByBlock a" "\<not> td_keptByBlock d" for a
      using free_inputs_disjoint [OF inv(2) assms(5) that(1,2)] that(3) by simp
    then show ?thesis using inv(3) unfolding exclusive_def ts(1) by blast
  qed
  moreover have "\<forall>d\<in>set ts. distinct (key_images (td_inputs d))" using inv(5) assms(3) ts(1) by simp
  moreover have "dom (m_ttlIndex pool2) \<subseteq> td_id ` set ts" using assms(9) r rest(2) inv(6) ts(1) by auto
  moreover have "m_validated_transactions pool2 \<subseteq> td_id ` set ts" using assms(10) r rest(3) inv(7) ts(1) by auto
  ultimately show ?thesis using r t2 by (simp add: pool_inv_def)
qed

lemma spenders_of_filter:
  assumes "distinct (map td_id ts)" and "d \<in> set ts"
  shows "spenders_of (filter (\<lambda>x. td_id x \<noteq> td_id d) ts) k = spenders_of ts k - {td_id d}"
  by (auto simp: spenders_of_def)

lemma distinct_ids_eq: "distinct (map td_id ts) \<Longrightarrow> a \<in> set ts \<Longrightarrow> b \<in> set ts \<Longrightarrow> td_id a = td_id b \<Longrightarrow> a = b"
  by (auto simp: distinct_map inj_on_def)

lemma leave_spent_ok:
  assumes "pool_inv pool" and "d \<in> set (m_transactions pool)"
    and "removeTransactionInputs (td_id d) (td_inputs d) (td_keptByBlock d) pool = (pool1, ok)"
  shows "ok \<and> pool_rest pool1 = pool_rest pool \<and>
    spent_ok (pool1\<lparr>m_transactions := filter (\<lambda>x. td_id x \<noteq> td_id d) (m_transactions pool)\<rparr>)"
proof -
  let ?T = "m_transactions pool" and ?K = "set (key_images (td_inputs d))" and ?h = "td_id d"
  let ?T' = "filter (\<lambda>x. td_id x \<noteq> ?h) ?T"
  have inv: "distinct (map td_id ?T)" "spent_ok pool" "exclusive ?T" "distinct (key_images (td_inputs d))"
    using assms(1,2) by (auto simp: pool_inv_def)
  have sp: "spenders pool k = spenders_of ?T k" for k by (rule spent_ok_spenders [OF inv(2)])
  have "\<forall>k\<in>?K. ?h \<in> spenders pool k" unfolding sp using assms(2) by (auto simp: spenders_of_def)
  from removeTransactionInputs_closed [OF inv(4) this assms(3)]
  have r: "ok \<and> pool_rest pool1 = pool_rest pool \<and>
    (\<forall>k. m_spent_key_images pool1 k = (if k \<in> ?K then without ?h (spenders_of ?T k) else m_spent_key_images pool k)) \<and>
    m_spentOutputs pool1 = m_spentOutputs pool - (if td_keptByBlock d then {} else set (used_outputs (td_inputs d)))"
    unfolding sp .
  have "m_spent_key_images pool1 k = (if spenders_of ?T' k = {} then None else Some (spenders_of ?T' k))" for k
  proof (cases "k \<in> ?K")
    case True
    then show ?thesis using r by (simp add: without_def spenders_of_filter [OF inv(1) assms(2)])
  next
    case False
    then have "?h \<notin> spenders_of ?T k"
      using distinct_ids_eq [OF inv(1) _ assms(2)] by (auto simp: spenders_of_def)
    then have "spenders_of ?T' k = spenders_of ?T k" by (simp add: spenders_of_filter [OF inv(1) assms(2)])
    then show ?thesis using r False inv(2) by (simp add: spent_ok_def)
  qed
  moreover have "m_spentOutputs pool1 = (\<Union>a\<in>{a \<in> set ?T'. \<not> td_keptByBlock a}. set (used_outputs (td_inputs a)))"
  proof -
    have so: "m_spentOutputs pool = (\<Union>a\<in>{a \<in> set ?T. \<not> td_keptByBlock a}. set (used_outputs (td_inputs a)))"
      using inv(2) by (simp add: spent_ok_def)
    have dis: "set (used_outputs (td_inputs a)) \<inter> set (used_outputs (td_inputs d)) = {}"
      if "a \<in> set ?T" "\<not> td_keptByBlock a" "\<not> td_keptByBlock d" "td_id a \<noteq> ?h" for a
      using inv(3) that assms(2) unfolding exclusive_def spends_Int_empty_iff by blast
    have own: "a = d" if "a \<in> set ?T" "td_id a = ?h" for a using distinct_ids_eq [OF inv(1) that(1) assms(2) that(2)] .
    let ?X = "\<Union>a\<in>{a \<in> set ?T'. \<not> td_keptByBlock a}. set (used_outputs (td_inputs a))"
    show ?thesis
    proof (cases "td_keptByBlock d")
      case True
      then have "{a \<in> set ?T. \<not> td_keptByBlock a} = {a \<in> set ?T'. \<not> td_keptByBlock a}" using own by auto
      then show ?thesis using r so True by simp
    next
      case False
      then have "m_spentOutputs pool1 = m_spentOutputs pool - set (used_outputs (td_inputs d))" using r by simp
      moreover have "{a \<in> set ?T. \<not> td_keptByBlock a} = insert d {a \<in> set ?T'. \<not> td_keptByBlock a}"
        using own False assms(2) by auto
      then have "m_spentOutputs pool = set (used_outputs (td_inputs d)) \<union> ?X" unfolding so by simp
      moreover have "?X \<inter> set (used_outputs (td_inputs d)) = {}"
      proof -
        have "set (used_outputs (td_inputs a)) \<inter> set (used_outputs (td_inputs d)) = {}" if "a \<in> {a \<in> set ?T'. \<not> td_keptByBlock a}" for a
          using dis [of a] that False by simp
        then show ?thesis by blast
      qed
      ultimately show ?thesis by blast
    qed
  qed
  ultimately show ?thesis using r by (simp add: spent_ok_def)
qed

lemma exclusive_subset: "exclusive ts \<Longrightarrow> set ts' \<subseteq> set ts \<Longrightarrow> exclusive ts'"
  unfolding exclusive_def by blast

lemma by_priority_filter: "by_priority ts \<Longrightarrow> by_priority (filter P ts)"
  by (simp add: by_priority_def sorted_wrt_filter)

lemma removeTransaction_inv:
  assumes "pool_inv pool" and "d \<in> set (m_transactions pool)"
  shows "pool_inv (removeTransaction d pool)"
    and "m_transactions (removeTransaction d pool) = filter (\<lambda>x. td_id x \<noteq> td_id d) (m_transactions pool)"
    and "m_ttlIndex (removeTransaction d pool) = (m_ttlIndex pool)(td_id d := None)"
    and "m_recentlyDeletedTransactions (removeTransaction d pool) = m_recentlyDeletedTransactions pool"
proof -
  obtain p ok where rem: "removeTransactionInputs (td_id d) (td_inputs d) (td_keptByBlock d) pool = (p, ok)" by fastforce
  let ?T' = "filter (\<lambda>x. td_id x \<noteq> td_id d) (m_transactions pool)"
  have l: "ok \<and> pool_rest p = pool_rest pool \<and> spent_ok (p\<lparr>m_transactions := ?T'\<rparr>)"
    by (rule leave_spent_ok [OF assms rem])
  then have rest: "m_transactions p = m_transactions pool" "m_ttlIndex p = m_ttlIndex pool"
    "m_validated_transactions p = m_validated_transactions pool"
    "m_recentlyDeletedTransactions p = m_recentlyDeletedTransactions pool" using pool_rest_eqD [of p pool] by auto
  show t: "m_transactions (removeTransaction d pool) = ?T'" "m_ttlIndex (removeTransaction d pool) = (m_ttlIndex pool)(td_id d := None)"
    "m_recentlyDeletedTransactions (removeTransaction d pool) = m_recentlyDeletedTransactions pool"
    by (simp_all add: removeTransaction_def rem rest Let_def)
  have v: "m_validated_transactions (removeTransaction d pool) = m_validated_transactions pool - {td_id d}"
    "m_spent_key_images (removeTransaction d pool) = m_spent_key_images p" "m_spentOutputs (removeTransaction d pool) = m_spentOutputs p"
    by (simp_all add: removeTransaction_def rem rest Let_def)
  have "spent_ok (removeTransaction d pool)" using l unfolding spent_ok_def t v by simp
  moreover have "exclusive ?T'" using assms(1) exclusive_subset [of "m_transactions pool" ?T'] by (auto simp: pool_inv_def)
  moreover have "distinct (map td_id ?T')" using assms(1) by (simp add: pool_inv_def distinct_map_filter)
  moreover have "td_id ` set ?T' = td_id ` set (m_transactions pool) - {td_id d}" by auto
  moreover have "dom (m_ttlIndex pool) \<subseteq> td_id ` set (m_transactions pool)" "m_validated_transactions pool \<subseteq> td_id ` set (m_transactions pool)"
    using assms(1) by (simp_all add: pool_inv_def)
  ultimately show "pool_inv (removeTransaction d pool)"
    using assms(1) unfolding pool_inv_def t v by (auto simp: by_priority_filter)
qed

lemma take_tx_inv: "pool_inv pool \<Longrightarrow> pool_inv (fst (take_tx txid pool))"
  by (auto simp: take_tx_def find_tx_def find_Some_iff removeTransaction_inv(1) split: option.splits)

lemma pool_inv_deleted [simp]: "pool_inv (pool\<lparr>m_recentlyDeletedTransactions := x\<rparr>) = pool_inv pool"
  and pool_inv_worked [simp]: "pool_inv (pool\<lparr>m_lastWorkedTime := y\<rparr>) = pool_inv pool"
  by (simp_all add: pool_inv_def spent_ok_def)

lemma pool_inv_cache: "pool_inv pool \<Longrightarrow> c \<subseteq> td_id ` set (m_transactions pool) \<Longrightarrow> pool_inv (pool\<lparr>m_validated_transactions := c\<rparr>)"
  by (simp add: pool_inv_def spent_ok_def)

text \<open>Which transactions the loop removes.\<close>

lemma expire_loop_inv:
  assumes "pool_inv pool" and "set ts \<subseteq> set (m_transactions pool)" and "distinct (map td_id ts)"
    and "expire_loop cur t ts (pool, b) = (pool', b')"
  shows "pool_inv pool' \<and>
    m_transactions pool' = filter (\<lambda>d. \<not> (d \<in> set ts \<and> is_expired cur t pool d)) (m_transactions pool) \<and>
    b' = (b \<or> (\<exists>d\<in>set ts. is_expired cur t pool d))"
  using assms
proof (induction ts arbitrary: pool b)
  case (Cons d ts)
  let ?q = "pool\<lparr>m_recentlyDeletedTransactions := (if m_recentlyDeletedTransactions pool (td_id d) = None
      then (m_recentlyDeletedTransactions pool)(td_id d \<mapsto> t) else m_recentlyDeletedTransactions pool)\<rparr>"
  have dT: "d \<in> set (m_transactions pool)" "set ts \<subseteq> set (m_transactions pool)" "distinct (map td_id ts)"
    using Cons.prems(2,3) by auto
  have new: "\<forall>x\<in>set ts. td_id x \<noteq> td_id d" using Cons.prems(3) by (force simp: image_iff)
  show ?case
  proof (cases "is_expired cur t pool d")
    case True
    let ?r = "removeTransaction d ?q"
    have q: "pool_inv ?q" "d \<in> set (m_transactions ?q)" using Cons.prems(1) dT by simp_all
    note r = removeTransaction_inv [OF q]
    have rt: "m_transactions ?r = filter (\<lambda>x. td_id x \<noteq> td_id d) (m_transactions pool)" using r(2) by simp
    have "set ts \<subseteq> set (m_transactions ?r)" using dT(2) new unfolding rt by auto
    moreover have "expire_loop cur t ts (?r, True) = (pool', b')" using Cons.prems(4) True by simp
    ultimately have IH: "pool_inv pool' \<and> m_transactions pool' = filter (\<lambda>x. \<not> (x \<in> set ts \<and> is_expired cur t ?r x)) (m_transactions ?r) \<and>
        b' = (True \<or> (\<exists>x\<in>set ts. is_expired cur t ?r x))" using Cons.IH [OF r(1) _ dT(3)] by blast
    have same: "is_expired cur t ?r x = is_expired cur t pool x" if "td_id x \<noteq> td_id d" for x
      using r(3) that by (simp add: is_expired_def)
    have key: "(td_id x \<noteq> td_id d \<and> \<not> (x \<in> set ts \<and> is_expired cur t ?r x)) = (\<not> (x \<in> set (d # ts) \<and> is_expired cur t pool x))"
      if "x \<in> set (m_transactions pool)" for x
    proof -
      have "distinct (map td_id (m_transactions pool))" using Cons.prems(1) by (simp add: pool_inv_def)
      then have "td_id x = td_id d \<longleftrightarrow> x = d" using distinct_ids_eq that dT(1) by blast
      then show ?thesis using True same [of x] by (cases "x = d") simp_all
    qed
    have "m_transactions pool' = filter (\<lambda>x. td_id x \<noteq> td_id d \<and> \<not> (x \<in> set ts \<and> is_expired cur t ?r x)) (m_transactions pool)"
      using IH unfolding rt filter_filter by blast
    also have "\<dots> = filter (\<lambda>x. \<not> (x \<in> set (d # ts) \<and> is_expired cur t pool x)) (m_transactions pool)"
      by (rule filter_cong [OF refl]) (rule key)
    finally show ?thesis using IH True by simp
  next
    case False
    then have IH: "pool_inv pool' \<and> m_transactions pool' = filter (\<lambda>x. \<not> (x \<in> set ts \<and> is_expired cur t pool x)) (m_transactions pool) \<and>
        b' = (b \<or> (\<exists>x\<in>set ts. is_expired cur t pool x))"
      using Cons.IH [OF Cons.prems(1) dT(2,3), of b] Cons.prems(4) by simp
    moreover have "filter (\<lambda>x. \<not> (x \<in> set ts \<and> is_expired cur t pool x)) (m_transactions pool) =
        filter (\<lambda>x. \<not> (x \<in> set (d # ts) \<and> is_expired cur t pool x)) (m_transactions pool)"
      using False by (intro filter_cong) auto
    ultimately show ?thesis using False by simp
  qed
qed auto

lemma removeExpired_correct:
  assumes "pool_inv pool" and "removeExpiredTransactions cur t pool = (pool', told)"
  shows "pool_inv pool' \<and> m_transactions pool' = filter (\<lambda>d. \<not> is_expired cur t pool d) (m_transactions pool) \<and>
    told = (\<exists>d\<in>set (m_transactions pool). is_expired cur t pool d)"
proof -
  let ?f = "\<lambda>h. case m_recentlyDeletedTransactions pool h of None \<Rightarrow> None
    | Some deleted \<Rightarrow> if m_numberOfPeriodsToForgetTxDeletedFromPool cur * m_mempoolTxLiveTime cur < t - deleted then None else Some deleted"
  let ?p = "pool\<lparr>m_recentlyDeletedTransactions := ?f\<rparr>"
  have run: "expire_loop cur t (m_transactions ?p) (?p, False) = (pool', told)"
    using assms(2) unfolding removeExpiredTransactions_def Let_def by simp
  have "pool_inv ?p" "distinct (map td_id (m_transactions ?p))" using assms(1) by (simp_all, simp add: pool_inv_def)
  from expire_loop_inv [OF this(1) subset_refl this(2) run]
  have "pool_inv pool' \<and> m_transactions pool' = filter (\<lambda>d. \<not> (d \<in> set (m_transactions ?p) \<and> is_expired cur t ?p d)) (m_transactions ?p) \<and>
    told = (False \<or> (\<exists>d\<in>set (m_transactions ?p). is_expired cur t ?p d))" .
  moreover have "is_expired cur t ?p d = is_expired cur t pool d" for d by (simp add: is_expired_def)
  ultimately show ?thesis by (simp cong: filter_cong)
qed

lemma add_to_pool_inv:
  assumes "pool_inv pool" and "distinct (key_images (td_inputs d))" and "0 < td_blobSize d"
    and "\<not> td_keptByBlock d \<Longrightarrow> \<not> haveSpentInputs (td_tx d) pool" and "add_to_pool d ttl relay tvc pool = (pool', tvc', r)"
  shows "pool_inv pool' \<and> (r \<longrightarrow> set (m_transactions pool') = insert d (set (m_transactions pool)) \<and>
      m_added_to_pool tvc' \<and> \<not> m_verification_failed tvc') \<and> (\<not> r \<longrightarrow> pool' = pool) \<and>
    r = (td_id d \<notin> td_id ` set (m_transactions pool))"
proof (cases "td_id d \<in> td_id ` set (m_transactions pool)")
  case True
  then show ?thesis using assms(1,5) by (auto simp: add_to_pool_def insert_details_def)
next
  case False
  then obtain ts where ins: "insert_details d (m_transactions pool) = (ts, True)" by (simp add: insert_details_def)
  define p where "p = pool\<lparr>m_transactions := ts,
     m_paymentIdIndex := fst (PaymentIdIndex_add (td_tx d) (m_paymentIdIndex pool)),
     m_timestampIndex := fst (TimestampTransactionsIndex_add (td_receiveTime d) (td_id d) (m_timestampIndex pool)),
     m_ttlIndex := (if ttl \<noteq> 0 \<and> m_ttlIndex pool (td_id d) = None then (m_ttlIndex pool)(td_id d \<mapsto> ttl) else m_ttlIndex pool)\<rparr>"
  obtain q ok where add: "addTransactionInputs (td_id d) (td_inputs d) (td_keptByBlock d) p = (q, ok)" by fastforce
  have p: "m_transactions p = ts" "m_spent_key_images p = m_spent_key_images pool" "m_spentOutputs p = m_spentOutputs pool"
    "m_validated_transactions p = m_validated_transactions pool" "dom (m_ttlIndex p) \<subseteq> insert (td_id d) (dom (m_ttlIndex pool))"
    by (auto simp: p_def)
  have inv: "ok \<and> pool_inv q"
    by (rule enter_pool_inv [OF assms(1) ins assms(2,3,4) p(1,2,3,5,4) add])
  have set: "set ts = insert d (set (m_transactions pool)) \<and> td_id d \<notin> td_id ` set (m_transactions pool)"
    by (rule insert_details_set [OF ins])
  have "spent_ok pool" using assms(1) by (simp add: pool_inv_def)
  from enter_spent_ok [OF this conjunct1 [OF set] conjunct2 [OF set] assms(2,4) p(1-3) add]
  have "pool_rest q = pool_rest p" by blast
  from pool_rest_eqD(1) [OF this] have "set (m_transactions q) = insert d (set (m_transactions pool))" using p(1) set by simp
  moreover have "add_to_pool d ttl relay tvc pool =
      (q, tvc\<lparr>m_added_to_pool := True, m_should_be_relayed := relay, m_verification_failed := True\<rparr>\<lparr>m_verification_failed := False\<rparr>, True)"
    unfolding add_to_pool_def ins prod.case bool.case Let_def p_def [symmetric] add using inv by simp
  then have "pool' = q" "r" "m_added_to_pool tvc'" "\<not> m_verification_failed tvc'" using assms(5) by auto
  ultimately show ?thesis using inv False by simp
qed

lemma if_same: "(if A then x else if B then x else y) = (if A \<or> B then x else y)"
  by simp

lemma add_tx_id_cases:
  assumes "add_tx_id env cur tx txid blobSize tvc kept pool = (pool', tvc', r)"
  obtains (reject) "pool' = pool" "\<not> r" "m_verification_failed tvc'"
  | (ignore) "pool' = pool" "r" "\<not> kept" "m_recentlyDeletedTransactions pool txid \<noteq> None"
      "tvc' = tvc\<lparr>m_verification_failed := False, m_should_be_relayed := False, m_added_to_pool := False\<rparr>"
  | (enter) info ttl relay tvc1 where "\<not> kept \<Longrightarrow> \<not> haveSpentInputs tx pool" "getOutsMoneyAmount tx \<le> getInputsMoneyAmount tx"
      "check_inputs_types_supported tx" "\<not> kept \<Longrightarrow> fst (checkTransactionInputs env tx)"
      "add_to_pool \<lparr>td_checkInfo = info, td_id = txid, td_tx = tx, td_blobSize = blobSize,
         td_fee = getInputsMoneyAmount tx - getOutsMoneyAmount tx, td_keptByBlock = kept, td_receiveTime = now env\<rparr>
         ttl relay tvc1 pool = (pool', tvc', r)"
proof -
  obtain v m where c: "checkTransactionInputs env tx = (v, m)" by fastforce
  define tvc1 where "tvc1 = (if v then tvc else tvc\<lparr>m_verifivation_impossible := True\<rparr>)"
  let ?in = "getInputsMoneyAmount tx" and ?out = "getOutsMoneyAmount tx" and ?ttl = "transaction_ttl tx"
  let ?bad = "\<not> check_inputs_types_supported tx \<or> ?in < ?out \<or> (?ttl \<noteq> 0 \<and> \<not> kept \<and> ?ttl \<le> system_time env) \<or>
    (?ttl \<noteq> 0 \<and> \<not> kept \<and> m_mempoolTxLiveTime cur + m_blockFutureTimeLimit cur < ?ttl - system_time env) \<or>
    (?ttl \<noteq> 0 \<and> \<not> kept \<and> ?in - ?out \<noteq> 0) \<or> (\<not> kept \<and> haveSpentInputs tx pool) \<or> (\<not> v \<and> \<not> kept)"
  let ?big = "\<not> kept \<and> \<not> checkTransactionSize env blobSize" and ?del = "\<not> kept \<and> m_recentlyDeletedTransactions pool txid \<noteq> None"
  let ?enter = "add_to_pool \<lparr>td_checkInfo = \<lparr>maxUsedBlock = (if v then m else BlockInfo_clear), lastFailedBlock = BlockInfo_clear\<rparr>,
      td_id = txid, td_tx = tx, td_blobSize = blobSize, td_fee = ?in - ?out, td_keptByBlock = kept, td_receiveTime = now env\<rparr>
      ?ttl (v \<and> (0 < ?in - ?out \<or> (?in - ?out = 0 \<and> isFusionTransaction_sized cur tx blobSize) \<or> ?ttl \<noteq> 0)) tvc1 pool"
  have d: "(if ?bad then (pool, tvc\<lparr>m_verification_failed := True\<rparr>, False)
      else if ?big then (pool, tvc1\<lparr>m_verification_failed := True\<rparr>, False)
      else if ?del then (pool, tvc1\<lparr>m_verification_failed := False, m_should_be_relayed := False, m_added_to_pool := False\<rparr>, True)
      else ?enter) = (pool', tvc', r)"
    using assms unfolding add_tx_id_def Let_def c prod.case tvc1_def [symmetric] by (simp only: if_same)
  show ?thesis
  proof (cases "?bad")
    case True
    then show ?thesis using d that(1) by (simp only: if_True) auto
  next
    case nb: False
    show ?thesis
    proof (cases "?big")
      case True
      then show ?thesis using d nb that(1) by (simp only: if_True if_False) auto
    next
      case ns: False
      show ?thesis
      proof (cases "?del")
        case True
        then have "tvc1 = tvc" using nb by (auto simp: tvc1_def)
        then show ?thesis using d nb ns True that(2) by (simp only: if_True if_False) auto
      next
        case False
        then have e: "?enter = (pool', tvc', r)" using d nb ns by (simp only: if_False)
        show ?thesis by (rule that(3) [OF _ _ _ _ e]) (use nb c in auto)
      qed
    qed
  qed
qed

section \<open>Block templates\<close>

definition bt_spends :: "BlockTemplate \<Rightarrow> (bytes + u64 \<times> u64) set" where
  "bt_spends bt = Inl ` bt_keyImages bt \<union> Inr ` bt_usedOutputs bt"

definition may_enter :: "pool_env \<Rightarrow> TransactionDetails set \<Rightarrow> hash set \<Rightarrow> hash \<Rightarrow> bool" where
  "may_enter env T cache h \<longleftrightarrow>
     h \<in> cache \<or> (\<exists>d\<in>T. td_id d = h \<and> fst (is_transaction_ready_to_go env (td_tx d) (td_checkInfo d)))"

definition template_of ::
  "pool_env \<Rightarrow> (hash \<Rightarrow> u64 option) \<Rightarrow> TransactionDetails set \<Rightarrow> hash set \<Rightarrow> u64 \<Rightarrow>
   TransactionDetails list \<Rightarrow> BlockTemplate \<Rightarrow> u64 \<Rightarrow> u64 \<Rightarrow> bool" where
  "template_of env ttl T cache bound ds bt total_size fee \<longleftrightarrow>
     bt_txHashes bt = map td_id ds \<and> set ds \<subseteq> T \<and> bt_spends bt = (\<Union>d\<in>set ds. spends (td_tx d)) \<and>
     sorted_wrt (\<lambda>a b. spends (td_tx a) \<inter> spends (td_tx b) = {}) ds \<and>
     total_size = sum_list (map td_blobSize ds) \<and> fee = sum_list (map td_fee ds) \<and> total_size \<le> bound \<and>
     (\<forall>d\<in>set ds. ttl (td_id d) = None \<and> may_enter env T cache (td_id d))"

lemma canAdd_iff: "canAdd tx bt \<longleftrightarrow> spends tx \<inter> bt_spends bt = {}"
proof -
  have "list_all (\<lambda>i. case i of TxKeyInput k \<Rightarrow> ki_keyImage k \<notin> A
       | TxMultiSignatureInput m \<Rightarrow> (mi_amount m, ucast (mi_outputIndex m)) \<notin> B | TxBaseInput _ \<Rightarrow> True) ins \<longleftrightarrow>
     set (key_images ins) \<inter> A = {} \<and> set (used_outputs ins) \<inter> B = {}" for ins A and B :: "(u64 \<times> u64) set"
    by (induction ins) (auto simp: key_images_def used_outputs_def split: TransactionInput.splits)
  then show ?thesis by (auto simp: canAdd_def spends_def bt_spends_def)
qed

lemma addTransaction_template:
  assumes "template_of env ttl T cache bound ds bt total_size fee" and "addTransaction (td_id d) (td_tx d) bt = (bt', True)"
    and "d \<in> T" and "ttl (td_id d) = None" and "may_enter env T cache (td_id d)" and "total_size + td_blobSize d \<le> bound"
  shows "template_of env ttl T cache bound (ds @ [d]) bt' (total_size + td_blobSize d) (fee + td_fee d)"
proof -
  have can: "spends (td_tx d) \<inter> bt_spends bt = {}" and
    bt': "bt_txHashes bt' = bt_txHashes bt @ [td_id d]" "bt_spends bt' = bt_spends bt \<union> spends (td_tx d)"
    using assms(2) by (auto simp: addTransaction_def canAdd_iff bt_spends_def spends_def split: if_splits)
  show ?thesis using assms(1,3-6) can bt' by (auto simp: template_of_def sorted_wrt_append)
qed

lemma addTransaction_False: "addTransaction h tx bt = (bt', False) \<Longrightarrow> bt' = bt"
  by (auto simp: addTransaction_def split: if_splits)

lemma fusion_loop_template:
  assumes "template_of env (m_ttlIndex pool) T cache bound ds bt total_size 0" and "set ts \<subseteq> T"
    and "m_fusionTxMaxSize cur \<le> bound" and "fusion_loop env cur pool ts (bt, total_size) = (bt', total_size')"
  shows "\<exists>ds'. template_of env (m_ttlIndex pool) T cache bound ds' bt' total_size' 0"
  using assms
proof (induction ts arbitrary: ds bt total_size)
  case (Cons d ts)
  obtain b ok where add: "addTransaction (td_id d) (td_tx d) bt = (b, ok)" by fastforce
  consider (stop) "td_fee d \<noteq> 0"
    | (skip) "td_fee d = 0" "fusion_loop env cur pool ts (bt, total_size) = (bt', total_size')"
    | (enter) "td_fee d = 0" "m_ttlIndex pool (td_id d) = None" "\<not> m_fusionTxMaxSize cur < total_size + td_blobSize d"
        "fst (is_transaction_ready_to_go env (td_tx d) (td_checkInfo d))" "ok"
        "fusion_loop env cur pool ts (b, total_size + td_blobSize d) = (bt', total_size')"
    using Cons.prems(4) add addTransaction_False [of "td_id d" "td_tx d" bt b] by (auto split: if_splits bool.splits)
  then show ?case
  proof cases
    case stop then show ?thesis using Cons.prems(1,4) by auto
  next
    case skip then show ?thesis using Cons.IH [OF Cons.prems(1)] Cons.prems(2,3) by simp
  next
    case add': enter
    have "may_enter env T cache (td_id d)" using add'(4) Cons.prems(2) by (auto simp: may_enter_def)
    then have "template_of env (m_ttlIndex pool) T cache bound (ds @ [d]) b (total_size + td_blobSize d) (0 + td_fee d)"
      using add add' Cons.prems(1-3) by (intro addTransaction_template) auto
    then show ?thesis using Cons.IH add' Cons.prems(2,3) by simp
  qed
qed auto

lemma may_enter_mono: "may_enter env T c h \<Longrightarrow> c \<subseteq> {h. may_enter env T cache h} \<Longrightarrow> may_enter env T cache h"
  by (auto simp: may_enter_def)


lemma fill_loop_template:
  assumes "template_of env ttl T cache0 bound ds bt total_size fee" and "set ts \<subseteq> T"
    and "median_size \<le> bound" and "max_total_size \<le> bound" and "cache \<subseteq> {h. may_enter env T cache0 h}"
    and "fill_loop env ttl median_size max_total_size ts (cache, bt, total_size, fee) = (ts', cache', bt', total_size', fee')"
  shows "(\<exists>ds'. template_of env ttl T cache0 bound ds' bt' total_size' fee') \<and>
    cache' \<subseteq> {h. may_enter env T cache0 h} \<and> map td_id ts' = map td_id ts"
  using assms
proof (induction ts arbitrary: ds bt total_size fee cache ts')
  case (Cons d ts)
  let ?limit = "if td_fee d = 0 then median_size else max_total_size"
  show ?case
  proof (cases "ttl (td_id d) \<noteq> None \<or> ?limit < total_size + td_blobSize d")
    case True
    then obtain ts1 where "fill_loop env ttl median_size max_total_size ts (cache, bt, total_size, fee) = (ts1, cache', bt', total_size', fee')"
      "ts' = d # ts1" using Cons.prems(6) by (auto simp: Let_def split: prod.splits)
    then show ?thesis using Cons.IH [OF Cons.prems(1) _ Cons.prems(3-5)] Cons.prems(2) by auto
  next
    case False
    obtain ready info c where rdy: "(if td_id d \<in> cache then (True, td_checkInfo d, cache)
        else (case is_transaction_ready_to_go env (td_tx d) (td_checkInfo d) of
                (ok, info) \<Rightarrow> (ok, info, if ok then insert (td_id d) cache else cache))) = (ready, info, c)"
      by (rule prod_cases3) (erule that)
    obtain b added where add: "(if ready then addTransaction (td_id d) (td_tx d) bt else (bt, False)) = (b, added)" by fastforce
    obtain ts1 where rec: "fill_loop env ttl median_size max_total_size ts
        (c, b, if added then total_size + td_blobSize d else total_size, if added then fee + td_fee d else fee) =
        (ts1, cache', bt', total_size', fee')" and ts': "ts' = d\<lparr>td_checkInfo := info\<rparr> # ts1"
      using Cons.prems(6) unfolding fill_loop.simps Let_def if_not_P [OF False] rdy add prod.case
      by (auto split: prod.splits simp del: fill_loop.simps)
    have dT: "d \<in> T" "set ts \<subseteq> T" using Cons.prems(2) by auto
    have c: "c \<subseteq> {h. may_enter env T cache0 h}"
      using rdy Cons.prems(5) dT by (auto simp: may_enter_def split: if_splits prod.splits)
    have enter: "may_enter env T cache0 (td_id d)" if ready
      using rdy that Cons.prems(5) dT by (auto simp: may_enter_def split: if_splits prod.splits)
    have "\<exists>ds'. template_of env ttl T cache0 bound ds' b (if added then total_size + td_blobSize d else total_size)
        (if added then fee + td_fee d else fee)"
    proof (cases added)
      case True
      have "total_size + td_blobSize d \<le> bound" using False Cons.prems(3,4) by (auto split: if_splits)
      moreover have "ready" "addTransaction (td_id d) (td_tx d) bt = (b, True)" using True add by (auto split: if_splits)
      moreover have "ttl (td_id d) = None" using False by simp
      ultimately have "template_of env ttl T cache0 bound (ds @ [d]) b (total_size + td_blobSize d) (fee + td_fee d)"
        using addTransaction_template [OF Cons.prems(1)] enter dT(1) by blast
      then show ?thesis using True by auto
    next
      case False
      then have "b = bt" using add addTransaction_False by (auto split: if_splits)
      then show ?thesis using False Cons.prems(1) by auto
    qed
    then obtain ds' where "template_of env ttl T cache0 bound ds' b (if added then total_size + td_blobSize d else total_size)
        (if added then fee + td_fee d else fee)" by blast
    from Cons.IH [OF this dT(2) Cons.prems(3,4) c rec] show ?thesis unfolding ts' by simp
  qed
qed auto

lemma spends_disjoint_distinct:
  "sorted_wrt (\<lambda>a b. spends (td_tx a) \<inter> spends (td_tx b) = {}) ds \<Longrightarrow> \<forall>d\<in>set ds. spends (td_tx d) \<noteq> {} \<Longrightarrow> distinct ds"
  by (induction ds) auto


text \<open>Only the check info of the details changes.\<close>

definition bare :: "TransactionDetails \<Rightarrow> TransactionDetails" where
  "bare d = d\<lparr>td_checkInfo := \<lparr>maxUsedBlock = BlockInfo_clear, lastFailedBlock = BlockInfo_clear\<rparr>\<rparr>"

lemma bare_simps [simp]:
  "td_id (bare d) = td_id d" "td_tx (bare d) = td_tx d" "td_blobSize (bare d) = td_blobSize d" "td_fee (bare d) = td_fee d"
  "td_keptByBlock (bare d) = td_keptByBlock d" "td_receiveTime (bare d) = td_receiveTime d" "bare (d\<lparr>td_checkInfo := i\<rparr>) = bare d"
  by (simp_all add: bare_def)

lemma fill_loop_bare:
  "fill_loop env ttl m n ts st = (ts', r) \<Longrightarrow> map bare ts' = map bare ts"
proof (induction ts arbitrary: st ts' r)
  case (Cons d ts)
  obtain cache bt total_size fee where st: "st = (cache, bt, total_size, fee)" by (rule prod_cases4) (erule that)
  obtain d' st' where "ts' = d' # fst (fill_loop env ttl m n ts st')" and "bare d' = bare d"
    using Cons.prems unfolding st fill_loop.simps Let_def by (simp only: case_prod_beta split: if_splits) auto
  then show ?case using Cons.IH [of st'] by (simp add: prod_eq_iff)
next
  case Nil
  obtain cache bt total_size fee where st: "st = (cache, bt, total_size, fee)" by (rule prod_cases4) (erule that)
  show ?case using Nil by (simp add: st)
qed

lemma comparator_bare [simp]: "TransactionPriorityComparator (bare a) (bare b) = TransactionPriorityComparator a b"
  by (simp add: TransactionPriorityComparator_def)

lemma bare_invariant:
  "distinct (map td_id (map bare ts)) = distinct (map td_id ts)" "td_id ` set (map bare ts) = td_id ` set ts"
  "(\<forall>d\<in>set (map bare ts). distinct (key_images (td_inputs d))) = (\<forall>d\<in>set ts. distinct (key_images (td_inputs d)))"
  "spenders_of (map bare ts) k = spenders_of ts k" "exclusive (map bare ts) = exclusive ts" "by_priority (map bare ts) = by_priority ts"
  "(\<Union>d\<in>{d \<in> set (map bare ts). \<not> td_keptByBlock d}. set (used_outputs (td_inputs d))) =
   (\<Union>d\<in>{d \<in> set ts. \<not> td_keptByBlock d}. set (used_outputs (td_inputs d)))"
proof -
  have "{d \<in> bare ` set ts. P d} = bare ` {d \<in> set ts. P (bare d)}" for P by auto
  then show "spenders_of (map bare ts) k = spenders_of ts k"
    "(\<Union>d\<in>{d \<in> set (map bare ts). \<not> td_keptByBlock d}. set (used_outputs (td_inputs d))) =
     (\<Union>d\<in>{d \<in> set ts. \<not> td_keptByBlock d}. set (used_outputs (td_inputs d)))"
    by (simp_all add: spenders_of_def image_image)
qed (auto simp: exclusive_def by_priority_def sorted_wrt_map comp_def image_image)

lemma pool_inv_bare:
  assumes "pool_inv pool" and "map bare ts = map bare (m_transactions pool)"
  shows "pool_inv (pool\<lparr>m_transactions := ts\<rparr>)"
proof -
  note to_bare = bare_invariant [of "m_transactions pool", symmetric] and of_bare = bare_invariant [of ts]
  have "distinct (map td_id ts)" "td_id ` set ts = td_id ` set (m_transactions pool)" "exclusive ts" "by_priority ts"
    "\<forall>d\<in>set ts. distinct (key_images (td_inputs d))" "spenders_of ts k = spenders_of (m_transactions pool) k"
    "(\<Union>d\<in>{d \<in> set ts. \<not> td_keptByBlock d}. set (used_outputs (td_inputs d))) =
     (\<Union>d\<in>{d \<in> set (m_transactions pool). \<not> td_keptByBlock d}. set (used_outputs (td_inputs d)))" for k
    using assms(1) of_bare to_bare unfolding assms(2) pool_inv_def by metis+
  then show ?thesis using assms(1) by (simp add: pool_inv_def spent_ok_def)
qed

lemma fill_block_template_sound:
  assumes "fill_block_template env cur median_size maxCumulativeSize pool = (pool', hashes, total_size, fee)"
  shows "\<exists>ds. hashes = map td_id ds \<and> set ds \<subseteq> set (m_transactions pool) \<and>
      sorted_wrt (\<lambda>a b. spends (td_tx a) \<inter> spends (td_tx b) = {}) ds \<and>
      total_size = sum_list (map td_blobSize ds) \<and> fee = sum_list (map td_fee ds) \<and>
      total_size \<le> max (m_fusionTxMaxSize cur) (max median_size
        (min ((125 * median_size) div 100) maxCumulativeSize - m_minerTxBlobReservedSize cur)) \<and>
      (\<forall>d\<in>set ds. m_ttlIndex pool (td_id d) = None \<and>
         may_enter env (set (m_transactions pool)) (m_validated_transactions pool) (td_id d))"
    and "map td_id (m_transactions pool') = map td_id (m_transactions pool)"
    and "\<forall>h\<in>m_validated_transactions pool'. may_enter env (set (m_transactions pool)) (m_validated_transactions pool) h"
proof -
  let ?T = "set (m_transactions pool)" and ?c = "m_validated_transactions pool" and ?ttl = "m_ttlIndex pool"
  let ?max = "min ((125 * median_size) div 100) maxCumulativeSize - m_minerTxBlobReservedSize cur"
  let ?bound = "max (m_fusionTxMaxSize cur) (max median_size ?max)"
  let ?empty = "\<lparr>bt_keyImages = {}, bt_usedOutputs = {}, bt_txHashes = []\<rparr>"
  obtain bt1 n1 where fus: "fusion_loop env cur pool (rev (m_transactions pool)) (?empty, 0) = (bt1, n1)" by fastforce
  obtain ts cache bt n f where fill: "fill_loop env ?ttl median_size ?max (m_transactions pool) (?c, bt1, n1, 0) = (ts, cache, bt, n, f)"
    by (rule prod_cases5) (erule that)
  have res: "pool' = pool\<lparr>m_transactions := ts, m_validated_transactions := cache\<rparr>" "hashes = bt_txHashes bt" "total_size = n" "fee = f"
    using assms fus fill by (simp_all add: fill_block_template_def)
  have "template_of env ?ttl ?T ?c ?bound [] ?empty 0 0" by (simp add: template_of_def bt_spends_def)
  from fusion_loop_template [OF this _ _ fus] obtain ds1 where "template_of env ?ttl ?T ?c ?bound ds1 bt1 n1 0" by auto
  moreover have "?c \<subseteq> {h. may_enter env ?T ?c h}" by (auto simp: may_enter_def)
  ultimately have all: "(\<exists>ds'. template_of env ?ttl ?T ?c ?bound ds' bt n f) \<and> cache \<subseteq> {h. may_enter env ?T ?c h} \<and>
      map td_id ts = map td_id (m_transactions pool)"
    by (intro fill_loop_template [OF _ _ _ _ _ fill]) (auto simp: le_max_iff_disj)
  then obtain ds where ds: "template_of env ?ttl ?T ?c ?bound ds bt n f" by blast
  show "\<exists>ds. hashes = map td_id ds \<and> set ds \<subseteq> ?T \<and> sorted_wrt (\<lambda>a b. spends (td_tx a) \<inter> spends (td_tx b) = {}) ds \<and>
      total_size = sum_list (map td_blobSize ds) \<and> fee = sum_list (map td_fee ds) \<and> total_size \<le> ?bound \<and>
      (\<forall>d\<in>set ds. ?ttl (td_id d) = None \<and> may_enter env ?T ?c (td_id d))"
    using ds unfolding template_of_def res by blast
  show "map td_id (m_transactions pool') = map td_id (m_transactions pool)" using all res by simp
  show "\<forall>h\<in>m_validated_transactions pool'. may_enter env ?T ?c h" using all res by auto
qed

lemmas fill_block_template_cache = fill_block_template_sound(3)

section \<open>Reachable pools\<close>

definition ready_id :: "pool_env \<Rightarrow> hash set \<Rightarrow> TransactionDetails \<Rightarrow> bool" where
  "ready_id env cache d \<longleftrightarrow> td_id d \<in> cache \<or> fst (is_transaction_ready_to_go env (td_tx d) (td_checkInfo d))"

lemma get_difference_fold:
  assumes "distinct (map td_id ts)"
  shows "fold (\<lambda>d (ready, cache).
      if td_id d \<in> cache then (insert (td_id d) ready, cache)
      else if fst (is_transaction_ready_to_go env (td_tx d) (td_checkInfo d)) then (insert (td_id d) ready, insert (td_id d) cache)
      else (ready, cache)) ts (ready, cache) =
    (ready \<union> td_id ` {d \<in> set ts. ready_id env cache d}, cache \<union> td_id ` {d \<in> set ts. ready_id env cache d})"
  using assms
proof (induction ts arbitrary: ready cache)
  case (Cons d ts)
  let ?R = "\<lambda>c. td_id ` {d \<in> set ts. ready_id env c d}"
  have "ready_id env (insert (td_id d) cache) x = ready_id env cache x" if "x \<in> set ts" for x
    using that Cons.prems by (force simp: ready_id_def image_iff)
  then have same: "?R (insert (td_id d) cache) = ?R cache" by (metis (mono_tags, lifting) Collect_cong)
  have one: "td_id ` {x \<in> set (d # ts). ready_id env cache x} = (if ready_id env cache d then insert (td_id d) (?R cache) else ?R cache)"
    by auto
  have dts: "distinct (map td_id ts)" using Cons.prems by simp
  consider "td_id d \<in> cache" | "td_id d \<notin> cache" "fst (is_transaction_ready_to_go env (td_tx d) (td_checkInfo d))"
    | "\<not> ready_id env cache d" by (auto simp: ready_id_def)
  then show ?case
  proof cases
    case 1
    then show ?thesis unfolding one by (simp add: Cons.IH [OF dts] ready_id_def insert_absorb)
  next
    case 2
    then show ?thesis unfolding one using same by (simp add: Cons.IH [OF dts] ready_id_def)
  next
    case 3
    then show ?thesis unfolding one by (simp add: Cons.IH [OF dts]) (simp add: ready_id_def)
  qed
qed simp

lemma get_difference_exact:
  assumes "distinct (map td_id (m_transactions pool))" and "get_difference env known pool = (pool', new, deleted)"
  shows "new = td_id ` {d \<in> set (m_transactions pool). ready_id env (m_validated_transactions pool) d} - set known"
    and "deleted = set known - td_id ` {d \<in> set (m_transactions pool). ready_id env (m_validated_transactions pool) d}"
    and "pool' = pool\<lparr>m_validated_transactions := m_validated_transactions pool \<union>
      td_id ` {d \<in> set (m_transactions pool). ready_id env (m_validated_transactions pool) d}\<rparr>"
  using assms(2) unfolding get_difference_def get_difference_fold [OF assms(1)] by (simp_all add: Let_def)

inductive pool_step :: "Currency \<Rightarrow> tx_memory_pool \<Rightarrow> tx_memory_pool \<Rightarrow> bool" for cur where
  step_add: "add_tx_id env cur tx txid blobSize tvc kept pool = (pool', tvc', r) \<Longrightarrow> distinct (key_images (inputs tx)) \<Longrightarrow>
    0 < blobSize \<Longrightarrow> pool_step cur pool pool'"
| step_take: "take_tx txid pool = (pool', r) \<Longrightarrow> pool_step cur pool pool'"
| step_idle: "pool_step cur pool (on_idle cur t t' pool)"
| step_inc: "pool_step cur pool (on_blockchain_inc pool)"
| step_dec: "pool_step cur pool (on_blockchain_dec pool)"
| step_difference: "get_difference env known pool = (pool', new, deleted) \<Longrightarrow> pool_step cur pool pool'"
| step_template: "fill_block_template env cur median maxSize pool = (pool', hashes, total_size, fee) \<Longrightarrow> pool_step cur pool pool'"

inductive pool_reachable :: "Currency \<Rightarrow> tx_memory_pool \<Rightarrow> bool" for cur where
  start: "pool_reachable cur (empty_pool e)"
| step: "pool_reachable cur pool \<Longrightarrow> pool_step cur pool pool' \<Longrightarrow> pool_reachable cur pool'"

lemma add_tx_inv:
  assumes "pool_inv pool" and "add_tx_id env cur tx txid blobSize tvc kept pool = (pool', tvc', r)"
    and "distinct (key_images (inputs tx))" and "0 < blobSize"
  shows "pool_inv pool'"
  using assms(2)
proof (cases rule: add_tx_id_cases)
  case (enter info ttl relay tvc1)
  from add_to_pool_inv [OF assms(1) _ _ _ enter(5)] show ?thesis using assms(3,4) enter(1) by simp
qed (use assms(1) in simp_all)

lemma fill_block_template_inv:
  assumes "pool_inv pool" and "fill_block_template env cur median maxSize pool = (pool', hashes, total_size, fee)"
  shows "pool_inv pool'"
proof -
  let ?max = "min ((125 * median) div 100) maxSize - m_minerTxBlobReservedSize cur"
  obtain bt1 n1 where fus: "fusion_loop env cur pool (rev (m_transactions pool))
      (\<lparr>bt_keyImages = {}, bt_usedOutputs = {}, bt_txHashes = []\<rparr>, 0) = (bt1, n1)" by fastforce
  obtain ts cache rest where fill: "fill_loop env (m_ttlIndex pool) median ?max (m_transactions pool)
      (m_validated_transactions pool, bt1, n1, 0) = (ts, cache, rest)" by (rule prod_cases3) (erule that)
  have pool': "pool' = pool\<lparr>m_transactions := ts, m_validated_transactions := cache\<rparr>"
    using assms(2) fus fill by (cases rest) (auto simp: fill_block_template_def)
  have "m_validated_transactions pool' \<subseteq> td_id ` set (m_transactions pool)"
  proof
    fix h assume "h \<in> m_validated_transactions pool'"
    then have "may_enter env (set (m_transactions pool)) (m_validated_transactions pool) h"
      using fill_block_template_cache [OF assms(2)] by blast
    then show "h \<in> td_id ` set (m_transactions pool)" using assms(1) by (auto simp: may_enter_def pool_inv_def)
  qed
  moreover have b: "map bare ts = map bare (m_transactions pool)" by (rule fill_loop_bare [OF fill])
  then have "td_id ` set ts = td_id ` set (m_transactions pool)" using bare_invariant(2) by metis
  ultimately show ?thesis using pool_inv_cache [OF pool_inv_bare [OF assms(1) b], of cache] unfolding pool' by simp
qed

lemma pool_step_inv: "pool_step cur pool pool' \<Longrightarrow> pool_inv pool \<Longrightarrow> pool_inv pool'"
proof (induction rule: pool_step.induct)
  case (step_add env tx txid blobSize tvc kept pool pool' tvc' r)
  then show ?case using add_tx_inv by blast
next
  case (step_take txid pool pool' r)
  then show ?case using take_tx_inv [of pool txid] by simp
next
  case (step_idle pool t t')
  obtain p told where "removeExpiredTransactions cur t pool = (p, told)" by fastforce
  then show ?case using removeExpired_correct [OF step_idle, of cur t p told] step_idle by (simp add: on_idle_def OnceInTimeInterval_call_def)
next
  case (step_difference env known pool pool' new deleted)
  have d: "distinct (map td_id (m_transactions pool))" using step_difference(2) by (simp add: pool_inv_def)
  have "m_validated_transactions pool \<subseteq> td_id ` set (m_transactions pool)" using step_difference(2) by (simp add: pool_inv_def)
  then show ?case unfolding get_difference_exact(3) [OF d step_difference(1)]
    by (intro pool_inv_cache [OF step_difference(2)]) auto
next
  case (step_template env median maxSize pool pool' hashes total_size fee)
  then show ?case using fill_block_template_inv by blast
qed (simp_all add: on_blockchain_inc_def on_blockchain_dec_def pool_inv_cache)

lemma pool_reachable_inv: "pool_reachable cur pool \<Longrightarrow> pool_inv pool"
  by (induction rule: pool_reachable.induct) (auto intro: empty_pool_inv pool_step_inv)

section \<open>Properties\<close>

definition demo_tx :: "bytes \<Rightarrow> Transaction" where
  "demo_tx k = \<lparr>version = 1, unlockTime = 0,
     inputs = [TxKeyInput \<lparr>ki_amount = 7, ki_outputIndexes = [1], ki_keyImage = k\<rparr>], outputs = [], extra = [], signatures = []\<rparr>"

definition demo_currency :: Currency where
  "demo_currency =
     \<lparr>m_maxBlockHeight = 0, m_publicAddressBase58Prefix = 0, m_minedMoneyUnlockWindow = 0,
      m_timestampCheckWindow = 0, m_blockFutureTimeLimit = 0, m_moneySupply = 0, m_emissionSpeedFactor = 0,
      m_rewardBlocksWindow = 0, m_minerTxBlobReservedSize = 600, m_maxTransactionSizeLimit = 0, m_minMixin = 0,
      m_maxMixin = 0, m_minimumFee = 0, m_numberOfDecimalPlaces = 0, m_coin = 0, m_governancePercent = 0,
      m_governanceHeightStart = 0, m_governanceHeightEnd = 0, m_difficultyTarget = 0, m_difficultyWindow = 0,
      m_difficultyLag = 0, m_maxBlockSizeInitial = 0, m_maxBlockSizeGrowthSpeedNumerator = 0,
      m_maxBlockSizeGrowthSpeedDenominator = 0, m_lockedTxAllowedDeltaSeconds = 0, m_lockedTxAllowedDeltaBlocks = 0,
      m_mempoolTxLiveTime = 50400, m_mempoolTxFromAltBlockLiveTime = 86400,
      m_numberOfPeriodsToForgetTxDeletedFromPool = 7, m_fusionTxMaxSize = 300000, m_fusionTxMinInputCount = 0,
      m_fusionTxMinInOutCountRatio = 0, m_upgradeHeightV2 = 0, m_upgradeHeightV3 = 0, m_upgradeHeightV4 = 0,
      m_upgradeHeightV5 = 0, m_upgradeHeightV6 = 0, m_upgradeVotingThreshold = 0, m_upgradeVotingWindow = 0,
      m_upgradeWindow = 0, m_testnet = False\<rparr>"

definition demo_env :: pool_env where
  "demo_env = \<lparr>checkTransactionInputs = (\<lambda>_. (True, BlockInfo_clear)), checkTransactionInputs_failed = (\<lambda>_ i. (True, i)),
     haveSpentKeyImages = (\<lambda>_. False), checkTransactionSize = (\<lambda>_. True), now = 1000, system_time = 1000\<rparr>"

definition demo_details :: "hash \<Rightarrow> bytes \<Rightarrow> TransactionDetails" where
  "demo_details h k = \<lparr>td_checkInfo = \<lparr>maxUsedBlock = BlockInfo_clear, lastFailedBlock = BlockInfo_clear\<rparr>, td_id = h,
     td_tx = demo_tx k, td_blobSize = 100, td_fee = 7, td_keptByBlock = False, td_receiveTime = 1000\<rparr>"

definition demo_pool :: tx_memory_pool where
  "demo_pool = (empty_pool False)\<lparr>m_transactions := [demo_details [1] [9]], m_spent_key_images := [[9] \<mapsto> {[1]}]\<rparr>"

definition demo_tvc :: tx_verification_context where
  "demo_tvc = \<lparr>m_should_be_relayed = False, m_verification_failed = False, m_verifivation_impossible = False,
     m_added_to_pool = False, m_tx_fee_too_small = False\<rparr>"

lemma demo_ttl: "transaction_ttl (demo_tx k) = 0"
  by (simp add: transaction_ttl_def demo_tx_def parseTransactionExtra.simps)

lemma demo_checks: "check_inputs_types_supported (demo_tx k)" "getInputsMoneyAmount (demo_tx k) = 7" "getOutsMoneyAmount (demo_tx k) = 0"
  "inputs (demo_tx k) = [TxKeyInput \<lparr>ki_amount = 7, ki_outputIndexes = [1], ki_keyImage = k\<rparr>]"
  by (simp_all add: check_inputs_types_supported_def getInputsMoneyAmount_def getOutsMoneyAmount_def demo_tx_def input_amount_def)

lemma demo_add:
  "add_tx_id demo_env cur (demo_tx [9]) [1] 100 demo_tvc False (empty_pool False) =
   (demo_pool, demo_tvc\<lparr>m_added_to_pool := True, m_should_be_relayed := True\<rparr>, True)"
  by (simp add: add_tx_id_def add_to_pool_def demo_env_def demo_checks demo_ttl haveSpentInputs_def empty_pool_def insert_details_def
    demo_pool_def demo_details_def demo_tvc_def PaymentIdIndex_add_def TimestampTransactionsIndex_add_def Let_def)

lemma demo_reachable: "pool_reachable cur demo_pool"
  by (rule pool_reachable.step [OF pool_reachable.start pool_step.step_add [OF demo_add]]) (simp_all add: demo_checks)

lemma demo_conflict:
  "add_tx_id demo_env cur (demo_tx [9]) [2] 100 demo_tvc False demo_pool = (demo_pool, demo_tvc\<lparr>m_verification_failed := True\<rparr>, False)"
  by (simp add: add_tx_id_def demo_env_def demo_checks demo_ttl haveSpentInputs_def demo_pool_def Let_def)

lemma pool_consistent_parts:
  assumes "pool_reachable cur pool"
  shows "\<forall>k. m_spent_key_images pool k =
      (let ids = td_id ` {d \<in> set (m_transactions pool). k \<in> set (key_images (inputs (td_tx d)))}
       in if ids = {} then None else Some ids)"
    and "\<forall>a\<in>set (m_transactions pool). \<forall>b\<in>set (m_transactions pool).
      \<not> td_keptByBlock a \<and> \<not> td_keptByBlock b \<and> a \<noteq> b \<longrightarrow> spends (td_tx a) \<inter> spends (td_tx b) = {}"
    and "m_spentOutputs pool = (\<Union>d\<in>{d \<in> set (m_transactions pool). \<not> td_keptByBlock d}. set (used_outputs (inputs (td_tx d))))"
    and "distinct (map td_id (m_transactions pool))"
    and "sorted_wrt (\<lambda>a b. \<not> TransactionPriorityComparator b a) (m_transactions pool)"
    and "dom (m_ttlIndex pool) \<union> m_validated_transactions pool \<subseteq> td_id ` set (m_transactions pool)"
proof -
  have inv: "pool_inv pool" by (rule pool_reachable_inv [OF assms])
  show dis: "distinct (map td_id (m_transactions pool))" using inv by (simp add: pool_inv_def)
  show "\<forall>k. m_spent_key_images pool k =
      (let ids = td_id ` {d \<in> set (m_transactions pool). k \<in> set (key_images (inputs (td_tx d)))}
       in if ids = {} then None else Some ids)"
    using inv unfolding pool_inv_def spent_ok_def spenders_of_def Let_def by blast
  show "\<forall>a\<in>set (m_transactions pool). \<forall>b\<in>set (m_transactions pool).
      \<not> td_keptByBlock a \<and> \<not> td_keptByBlock b \<and> a \<noteq> b \<longrightarrow> spends (td_tx a) \<inter> spends (td_tx b) = {}"
    using inv distinct_ids_eq [OF dis] unfolding pool_inv_def exclusive_def by blast
  show "m_spentOutputs pool = (\<Union>d\<in>{d \<in> set (m_transactions pool). \<not> td_keptByBlock d}. set (used_outputs (inputs (td_tx d))))"
    using inv by (simp add: pool_inv_def spent_ok_def)
  show "sorted_wrt (\<lambda>a b. \<not> TransactionPriorityComparator b a) (m_transactions pool)"
    using inv by (simp add: pool_inv_def by_priority_def)
  show "dom (m_ttlIndex pool) \<union> m_validated_transactions pool \<subseteq> td_id ` set (m_transactions pool)"
    using inv by (simp add: pool_inv_def)
qed



lemma add_tx_parts:
  assumes "pool_reachable cur pool" and "distinct (key_images (inputs tx))" and "0 < blobSize"
    and "add_tx_id env cur tx txid blobSize tvc kept pool = (pool', tvc', r)"
  shows "\<not> r \<longrightarrow> pool' = pool"
    and "r \<and> m_recentlyDeletedTransactions pool txid = None \<longrightarrow>
      txid \<notin> td_id ` set (m_transactions pool) \<and> m_added_to_pool tvc' \<and> \<not> m_verification_failed tvc' \<and>
      getOutsMoneyAmount tx \<le> getInputsMoneyAmount tx \<and>
      (\<exists>d. td_id d = txid \<and> td_tx d = tx \<and> td_fee d = getInputsMoneyAmount tx - getOutsMoneyAmount tx \<and>
           set (m_transactions pool') = insert d (set (m_transactions pool))) \<and>
      (\<not> kept \<longrightarrow> fst (checkTransactionInputs env tx) \<and> \<not> haveSpentInputs tx pool)"
proof -
  have inv: "pool_inv pool" by (rule pool_reachable_inv [OF assms(1)])
  have "(\<not> r \<longrightarrow> pool' = pool) \<and> (r \<and> m_recentlyDeletedTransactions pool txid = None \<longrightarrow>
      txid \<notin> td_id ` set (m_transactions pool) \<and> m_added_to_pool tvc' \<and> \<not> m_verification_failed tvc' \<and>
      getOutsMoneyAmount tx \<le> getInputsMoneyAmount tx \<and>
      (\<exists>d. td_id d = txid \<and> td_tx d = tx \<and> td_fee d = getInputsMoneyAmount tx - getOutsMoneyAmount tx \<and>
           set (m_transactions pool') = insert d (set (m_transactions pool))) \<and>
      (\<not> kept \<longrightarrow> fst (checkTransactionInputs env tx) \<and> \<not> haveSpentInputs tx pool))"
    using assms(4)
  proof (cases rule: add_tx_id_cases)
    case (enter info ttl relay tvc1)
    let ?d = "\<lparr>td_checkInfo = info, td_id = txid, td_tx = tx, td_blobSize = blobSize,
         td_fee = getInputsMoneyAmount tx - getOutsMoneyAmount tx, td_keptByBlock = kept, td_receiveTime = now env\<rparr>"
    have a: "pool_inv pool' \<and> (r \<longrightarrow> set (m_transactions pool') = insert ?d (set (m_transactions pool)) \<and>
        m_added_to_pool tvc' \<and> \<not> m_verification_failed tvc') \<and> (\<not> r \<longrightarrow> pool' = pool) \<and>
        r = (td_id ?d \<notin> td_id ` set (m_transactions pool))"
      by (rule add_to_pool_inv [OF inv _ _ _ enter(5)]) (use assms(2,3) enter(1) in simp_all)
    have "\<exists>d. td_id d = txid \<and> td_tx d = tx \<and> td_fee d = getInputsMoneyAmount tx - getOutsMoneyAmount tx \<and>
           set (m_transactions pool') = insert d (set (m_transactions pool))" if r
      using a that by (intro exI [of _ ?d]) simp
    then show ?thesis using a enter(1-4) by simp
  qed simp_all
  then show "\<not> r \<longrightarrow> pool' = pool" and "r \<and> m_recentlyDeletedTransactions pool txid = None \<longrightarrow>
      txid \<notin> td_id ` set (m_transactions pool) \<and> m_added_to_pool tvc' \<and> \<not> m_verification_failed tvc' \<and>
      getOutsMoneyAmount tx \<le> getInputsMoneyAmount tx \<and>
      (\<exists>d. td_id d = txid \<and> td_tx d = tx \<and> td_fee d = getInputsMoneyAmount tx - getOutsMoneyAmount tx \<and>
           set (m_transactions pool') = insert d (set (m_transactions pool))) \<and>
      (\<not> kept \<longrightarrow> fst (checkTransactionInputs env tx) \<and> \<not> haveSpentInputs tx pool)"
    by blast+
qed





text \<open>
  C8: The block template that the pool fills holds transactions of the pool only, none of which has a time to live. No
  two of them spend the same key image or the same output, each was found ready or was in the cache of validated
  transactions, the size and the fee are the sums over the chosen transactions, and the size is at most the greatest of
  the three limits. The pool keeps its transactions, and its cache gains only ids of transactions that were found ready.
\<close>

theorem block_template_no_double_spend:
  assumes "fill_block_template env cur median_size maxCumulativeSize pool = (pool', hashes, total_size, fee)"
  shows "(\<exists>ds. hashes = map td_id ds \<and> set ds \<subseteq> set (m_transactions pool) \<and>
      sorted_wrt (\<lambda>a b. spends (td_tx a) \<inter> spends (td_tx b) = {}) ds \<and>
      total_size = sum_list (map td_blobSize ds) \<and> fee = sum_list (map td_fee ds) \<and>
      total_size \<le> max (m_fusionTxMaxSize cur) (max median_size
        (min ((125 * median_size) div 100) maxCumulativeSize - m_minerTxBlobReservedSize cur)) \<and>
      (\<forall>d\<in>set ds. m_ttlIndex pool (td_id d) = None \<and>
         may_enter env (set (m_transactions pool)) (m_validated_transactions pool) (td_id d)))
    \<and> (map td_id (m_transactions pool') = map td_id (m_transactions pool))
    \<and> (\<forall>h\<in>m_validated_transactions pool'. may_enter env (set (m_transactions pool)) (m_validated_transactions pool) h)"
  using fill_block_template_sound [OF assms] by blast

theorem block_template_no_double_spend_witness:
  "fst (snd (fill_block_template demo_env demo_currency 1000 2000
      (demo_pool\<lparr>m_transactions := [demo_details [1] [9], demo_details [2] [9]]\<rparr>))) = [[1]] \<and>
   map td_id (m_transactions (fst (fill_block_template demo_env demo_currency 1000 2000
      (demo_pool\<lparr>m_transactions := [demo_details [1] [9], demo_details [2] [9]]\<rparr>)))) = [[1], [2]]"
proof -
  let ?p = "demo_pool\<lparr>m_transactions := [demo_details [1] [9], demo_details [2] [9]]\<rparr>"
  obtain p hs n f where run: "fill_block_template demo_env demo_currency 1000 2000 ?p = (p, hs, n, f)" by (rule prod_cases4) (erule that)
  have "hs = [[1]]" using run
    by (simp add: fill_block_template_def demo_env_def demo_currency_def demo_pool_def demo_details_def empty_pool_def
      is_transaction_ready_to_go_def addTransaction_def canAdd_def demo_checks Let_def)
  then show ?thesis using run block_template_no_double_spend [OF run] by (simp add: demo_details_def)
qed

lemma comparator_strict_weak:
  assumes "0 < td_blobSize a" and "0 < td_blobSize b" and "0 < td_blobSize c"
  shows "\<not> TransactionPriorityComparator a a"
    and "TransactionPriorityComparator a b \<Longrightarrow> TransactionPriorityComparator b c \<Longrightarrow> TransactionPriorityComparator a c"
    and "(\<not> TransactionPriorityComparator a b \<and> \<not> TransactionPriorityComparator b a) \<longleftrightarrow>
      td_fee a = td_fee b \<and> td_blobSize a = td_blobSize b \<and> td_receiveTime a = td_receiveTime b"
    and "price b < price a \<Longrightarrow> TransactionPriorityComparator a b"
proof -
  note cmp = comparator_by_price [OF assms(1,1)] comparator_by_price [OF assms(1,2)] comparator_by_price [OF assms(2,1)]
    comparator_by_price [OF assms(2,3)] comparator_by_price [OF assms(1,3)]
  show "\<not> TransactionPriorityComparator a a" by (simp add: cmp)
  show "TransactionPriorityComparator a b \<Longrightarrow> TransactionPriorityComparator b c \<Longrightarrow> TransactionPriorityComparator a c"
    unfolding cmp by auto
  show "price b < price a \<Longrightarrow> TransactionPriorityComparator a b" by (simp add: cmp)
  have "(\<not> TransactionPriorityComparator a b \<and> \<not> TransactionPriorityComparator b a) \<longleftrightarrow>
      price a = price b \<and> td_blobSize a = td_blobSize b \<and> sint (td_receiveTime a) = sint (td_receiveTime b)"
    unfolding cmp by auto
  also have "\<dots> \<longleftrightarrow> td_fee a = td_fee b \<and> td_blobSize a = td_blobSize b \<and> td_receiveTime a = td_receiveTime b"
    using price_size_unique [OF assms(1), of b] signed_word_eqI [of "td_receiveTime a" "td_receiveTime b"] by auto
  finally show "(\<not> TransactionPriorityComparator a b \<and> \<not> TransactionPriorityComparator b a) \<longleftrightarrow>
      td_fee a = td_fee b \<and> td_blobSize a = td_blobSize b \<and> td_receiveTime a = td_receiveTime b" .
qed

text \<open>
  C37: On transactions of positive size the comparator of the fee index is a strict weak order, as the ordered container
  requires: no transaction precedes itself, precedence is transitive, and two transactions are unordered exactly when
  their fee, size and time of receipt are the same. A transaction of a higher fee per byte always comes first, without
  any rounding or overflow.
\<close>

theorem priority_is_strict_weak_order:
  assumes "0 < td_blobSize a" and "0 < td_blobSize b" and "0 < td_blobSize c"
  shows "(\<not> TransactionPriorityComparator a a)
    \<and> (TransactionPriorityComparator a b \<longrightarrow> TransactionPriorityComparator b c \<longrightarrow> TransactionPriorityComparator a c)
    \<and> ((\<not> TransactionPriorityComparator a b \<and> \<not> TransactionPriorityComparator b a) \<longleftrightarrow>
      td_fee a = td_fee b \<and> td_blobSize a = td_blobSize b \<and> td_receiveTime a = td_receiveTime b)
    \<and> (price b < price a \<longrightarrow> TransactionPriorityComparator a b)"
  using comparator_strict_weak [OF assms] by blast

theorem priority_is_strict_weak_order_witness:
  "TransactionPriorityComparator (demo_details [1] [1]) ((demo_details [2] [2])\<lparr>td_fee := 6\<rparr>) \<and>
   \<not> TransactionPriorityComparator (demo_details [1] [1]) (demo_details [1] [1])"
proof -
  have "0 < td_blobSize (demo_details [1] [1])" "0 < td_blobSize ((demo_details [2] [2])\<lparr>td_fee := 6\<rparr>)" by (simp_all add: demo_details_def)
  from priority_is_strict_weak_order [OF this(1,2,1)] show ?thesis by (simp add: price_def demo_details_def)
qed

end
