(* ===== verification/Ledger.thy ===== *)
theory Ledger
  imports FormatUtils BlockchainIndices
begin

text \<open>
  What transactions change in the chain: the spent key images, the outputs of each amount, the outputs with several signatures, the map of
  transactions and the index of payment ids, from \<^verbatim>\<open>lib/CryptoNoteCore/Blockchain.cpp\<close> (\<^verbatim>\<open>pushTransaction\<close>, \<^verbatim>\<open>popTransaction\<close>). The five members are the
  record \<open>ledger\<close>; hash maps that the code only looks up are functions. The specification is \<open>ledger_of\<close>, the ledger that a list of transactions
  determines, and \<open>valid_chain\<close>, the lists in which nothing is spent twice. \<open>push_refines\<close> and \<open>pop_refines\<close> show that the two operations append to
  the list and drop its last element.
\<close>

unbundle bit_operations_syntax

section \<open>Operations\<close>

record TransactionIndex =
  ti_block :: u32
  ti_transaction :: u16

record MultisignatureOutputUsage =
  mu_transactionIndex :: TransactionIndex
  mu_outputIndex :: u16
  mu_isUsed :: bool

text \<open>The members of \<^verbatim>\<open>Blockchain\<close> that transactions change.\<close>

record ledger =
  m_spent_keys :: "bytes set"
  m_outputs :: "u64 \<Rightarrow> (TransactionIndex \<times> u16) list option"
  m_multisignatureOutputs :: "u64 \<Rightarrow> MultisignatureOutputUsage list option"
  m_transactionMap :: "hash \<Rightarrow> TransactionIndex option"
  l_paymentIdIndex :: "hash hash_index"

text \<open>
  What can go wrong beyond a refusal: \<^verbatim>\<open>boost::get\<close> on a variant of another type and \<^verbatim>\<open>at\<close> on a missing key throw, an
  access outside a vector is undefined (the vector of the blocks throws), a 16-bit counter never reaches a number of outputs above 65535, and
  assertions can fail. The exchange with the memory pool throws an error of its own.
\<close>

datatype chain_error = BadGet | MissingKey | OutsideVector | EndlessLoop | AssertFails | RuntimeError

definition amount_list :: "(u64 \<Rightarrow> 'a list option) \<Rightarrow> u64 \<Rightarrow> 'a list" where
  "amount_list m a = (case m a of None \<Rightarrow> [] | Some xs \<Rightarrow> xs)"

text \<open>Taking back the key images of the inputs before the one that was already spent; the first argument has them in reverse.\<close>

fun unspend :: "TransactionInput list \<Rightarrow> bytes set \<Rightarrow> chain_error + bytes set" where
  "unspend [] s = Inr s"
| "unspend (TxKeyInput k # before) s = unspend before (s - {ki_keyImage k})"
| "unspend (_ # before) s = Inl BadGet"

fun spend_keys :: "TransactionInput list \<Rightarrow> TransactionInput list \<Rightarrow> bytes set \<Rightarrow> chain_error + (bytes set \<times> bool)" where
  "spend_keys before [] s = Inr (s, True)"
| "spend_keys before (TxKeyInput k # ins) s =
     (if ki_keyImage k \<in> s then (case unspend before s of Inl e \<Rightarrow> Inl e | Inr s \<Rightarrow> Inr (s, False))
      else spend_keys (TxKeyInput k # before) ins (insert (ki_keyImage k) s))"
| "spend_keys before (i # ins) s = spend_keys (i # before) ins s"

definition set_used ::
  "bool \<Rightarrow> MultiSignatureInput \<Rightarrow> (u64 \<Rightarrow> MultisignatureOutputUsage list option) \<Rightarrow>
   chain_error + (u64 \<Rightarrow> MultisignatureOutputUsage list option)" where
  "set_used b i m =
     (let amountOutputs = amount_list m (mi_amount i); j = unat (mi_outputIndex i)
      in if j < length amountOutputs
         then Inr (m(mi_amount i \<mapsto> amountOutputs[j := (amountOutputs ! j)\<lparr>mu_isUsed := b\<rparr>]))
         else Inl OutsideVector)"

fun use_outputs ::
  "TransactionInput list \<Rightarrow> (u64 \<Rightarrow> MultisignatureOutputUsage list option) \<Rightarrow>
   chain_error + (u64 \<Rightarrow> MultisignatureOutputUsage list option)" where
  "use_outputs [] m = Inr m"
| "use_outputs (TxMultiSignatureInput i # ins) m = (case set_used True i m of Inl e \<Rightarrow> Inl e | Inr m \<Rightarrow> use_outputs ins m)"
| "use_outputs (_ # ins) m = use_outputs ins m"

text \<open>The global indices of the outputs come last.\<close>

fun push_outputs ::
  "TransactionIndex \<Rightarrow> nat \<Rightarrow> TransactionOutput list \<Rightarrow> (u64 \<Rightarrow> (TransactionIndex \<times> u16) list option) \<Rightarrow>
   (u64 \<Rightarrow> MultisignatureOutputUsage list option) \<Rightarrow>
   (u64 \<Rightarrow> (TransactionIndex \<times> u16) list option) \<times> (u64 \<Rightarrow> MultisignatureOutputUsage list option) \<times> u32 list" where
  "push_outputs ix n [] mo mm = (mo, mm, [])"
| "push_outputs ix n (out # outs) mo mm =
     (case to_target out of
        TxKeyOutput _ \<Rightarrow>
          (let xs = amount_list mo (to_amount out);
               (mo, mm, gs) = push_outputs ix (Suc n) outs (mo(to_amount out \<mapsto> xs @ [(ix, word_of_nat n)])) mm
           in (mo, mm, word_of_nat (length xs) # gs))
      | TxMultiSignatureOutput _ \<Rightarrow>
          (let xs = amount_list mm (to_amount out);
               (mo, mm, gs) = push_outputs ix (Suc n) outs mo
                 (mm(to_amount out \<mapsto> xs @ [\<lparr>mu_transactionIndex = ix, mu_outputIndex = word_of_nat n, mu_isUsed = False\<rparr>]))
           in (mo, mm, word_of_nat (length xs) # gs)))"

text \<open>The ledger and, when the transaction was accepted, the global indices of its outputs.\<close>

definition pushTransaction ::
  "Transaction \<Rightarrow> hash \<Rightarrow> TransactionIndex \<Rightarrow> ledger \<Rightarrow> chain_error + (ledger \<times> u32 list option)" where
  "pushTransaction tx h ix l =
     (if m_transactionMap l h \<noteq> None then Inr (l, None)
      else if \<not> checkMultisignatureInputsDiff tx then Inr (l, None)
      else
        (case spend_keys [] (inputs tx) (m_spent_keys l) of
           Inl e \<Rightarrow> Inl e
         | Inr (s, False) \<Rightarrow> Inr (l\<lparr>m_spent_keys := s\<rparr>, None)
         | Inr (s, True) \<Rightarrow>
             (case use_outputs (inputs tx) (m_multisignatureOutputs l) of
                Inl e \<Rightarrow> Inl e
              | Inr mm \<Rightarrow>
                  if 65535 < length (outputs tx) then Inl EndlessLoop
                  else
                    (let (mo, mm, gs) = push_outputs ix 0 (outputs tx) (m_outputs l) mm
                     in Inr (l\<lparr>m_spent_keys := s, m_outputs := mo, m_multisignatureOutputs := mm,
                               m_transactionMap := (m_transactionMap l)(h \<mapsto> ix),
                               l_paymentIdIndex := fst (PaymentIdIndex_add tx (l_paymentIdIndex l))\<rparr>, Some gs)))))"

text \<open>One output is taken back when it is the last of its amount; otherwise the code logs an error and goes on.\<close>

definition pop_output ::
  "TransactionIndex \<Rightarrow> nat \<Rightarrow> TransactionOutput \<Rightarrow>
   (u64 \<Rightarrow> (TransactionIndex \<times> u16) list option) \<times> (u64 \<Rightarrow> MultisignatureOutputUsage list option) \<Rightarrow>
   (u64 \<Rightarrow> (TransactionIndex \<times> u16) list option) \<times> (u64 \<Rightarrow> MultisignatureOutputUsage list option)" where
  "pop_output ix n out st =
     (case st of (mo, mm) \<Rightarrow>
       (case to_target out of
          TxKeyOutput _ \<Rightarrow>
            (case mo (to_amount out) of
               None \<Rightarrow> (mo, mm)
             | Some xs \<Rightarrow>
                 if xs = [] \<or> fst (last xs) \<noteq> ix \<or> unat (snd (last xs)) \<noteq> n then (mo, mm)
                 else (mo(to_amount out := (if butlast xs = [] then None else Some (butlast xs))), mm))
        | TxMultiSignatureOutput _ \<Rightarrow>
            (case mm (to_amount out) of
               None \<Rightarrow> (mo, mm)
             | Some xs \<Rightarrow>
                 if xs = [] \<or> mu_isUsed (last xs) \<or> mu_transactionIndex (last xs) \<noteq> ix \<or> unat (mu_outputIndex (last xs)) \<noteq> n
                 then (mo, mm)
                 else (mo, mm(to_amount out := (if butlast xs = [] then None else Some (butlast xs)))))))"

text \<open>The loop over the outputs, from the last to the first: \<open>n\<close> of them are left.\<close>

fun pop_outputs ::
  "TransactionIndex \<Rightarrow> TransactionOutput list \<Rightarrow> nat \<Rightarrow>
   (u64 \<Rightarrow> (TransactionIndex \<times> u16) list option) \<times> (u64 \<Rightarrow> MultisignatureOutputUsage list option) \<Rightarrow>
   (u64 \<Rightarrow> (TransactionIndex \<times> u16) list option) \<times> (u64 \<Rightarrow> MultisignatureOutputUsage list option)" where
  "pop_outputs ix outs 0 st = st"
| "pop_outputs ix outs (Suc n) st = pop_outputs ix outs n (pop_output ix n (outs ! n) st)"

fun pop_inputs ::
  "TransactionInput list \<Rightarrow> bytes set \<times> (u64 \<Rightarrow> MultisignatureOutputUsage list option) \<Rightarrow>
   chain_error + (bytes set \<times> (u64 \<Rightarrow> MultisignatureOutputUsage list option))" where
  "pop_inputs [] st = Inr st"
| "pop_inputs (TxKeyInput k # ins) (s, mm) = pop_inputs ins (s - {ki_keyImage k}, mm)"
| "pop_inputs (TxMultiSignatureInput i # ins) (s, mm) =
     (case set_used False i mm of Inl e \<Rightarrow> Inl e | Inr mm \<Rightarrow> pop_inputs ins (s, mm))"
| "pop_inputs (TxBaseInput _ # ins) st = pop_inputs ins st"

definition popTransaction :: "Transaction \<Rightarrow> hash \<Rightarrow> ledger \<Rightarrow> chain_error + ledger" where
  "popTransaction tx h l =
     (case m_transactionMap l h of
        None \<Rightarrow> Inl MissingKey
      | Some ix \<Rightarrow>
          (let (mo, mm) = pop_outputs ix (outputs tx) (length (outputs tx)) (m_outputs l, m_multisignatureOutputs l)
           in (case pop_inputs (inputs tx) (m_spent_keys l, mm) of
                 Inl e \<Rightarrow> Inl e
               | Inr (s, mm) \<Rightarrow>
                   Inr (l\<lparr>m_spent_keys := s, m_outputs := mo, m_multisignatureOutputs := mm,
                          m_transactionMap := (m_transactionMap l)(h := None),
                          l_paymentIdIndex := fst (PaymentIdIndex_remove tx (l_paymentIdIndex l))\<rparr>))))"

section \<open>The ledger that a list of transactions determines\<close>

type_synonym entry = "hash \<times> TransactionIndex \<times> Transaction"

definition opt_list :: "'a list \<Rightarrow> 'a list option" where
  "opt_list xs = (if xs = [] then None else Some xs)"

fun key_outs :: "TransactionIndex \<Rightarrow> nat \<Rightarrow> TransactionOutput list \<Rightarrow> u64 \<Rightarrow> (TransactionIndex \<times> u16) list" where
  "key_outs ix n [] a = []"
| "key_outs ix n (out # outs) a =
     (case to_target out of
        TxKeyOutput _ \<Rightarrow> (if to_amount out = a then [(ix, word_of_nat n)] else [])
      | TxMultiSignatureOutput _ \<Rightarrow> []) @ key_outs ix (Suc n) outs a"

fun msig_outs :: "TransactionIndex \<Rightarrow> nat \<Rightarrow> TransactionOutput list \<Rightarrow> u64 \<Rightarrow> (TransactionIndex \<times> u16) list" where
  "msig_outs ix n [] a = []"
| "msig_outs ix n (out # outs) a =
     (case to_target out of
        TxKeyOutput _ \<Rightarrow> []
      | TxMultiSignatureOutput _ \<Rightarrow> (if to_amount out = a then [(ix, word_of_nat n)] else [])) @ msig_outs ix (Suc n) outs a"

definition usage :: "u64 \<Rightarrow> (u64 \<times> nat) set \<Rightarrow> (TransactionIndex \<times> u16) list \<Rightarrow> MultisignatureOutputUsage list" where
  "usage a used xs =
     map (\<lambda>j. \<lparr>mu_transactionIndex = fst (xs ! j), mu_outputIndex = snd (xs ! j), mu_isUsed = ((a, j) \<in> used)\<rparr>) [0..<length xs]"

definition images :: "TransactionInput list \<Rightarrow> bytes list" where
  "images ins = concat (map (\<lambda>i. case i of TxKeyInput k \<Rightarrow> [ki_keyImage k] | _ \<Rightarrow> []) ins)"

definition msig_refs :: "TransactionInput list \<Rightarrow> (u64 \<times> nat) list" where
  "msig_refs ins = concat (map (\<lambda>i. case i of TxMultiSignatureInput m \<Rightarrow> [(mi_amount m, unat (mi_outputIndex m))] | _ \<Rightarrow> []) ins)"

definition all_key_outs :: "entry list \<Rightarrow> u64 \<Rightarrow> (TransactionIndex \<times> u16) list" where
  "all_key_outs es a = concat (map (\<lambda>(h, ix, tx). key_outs ix 0 (outputs tx) a) es)"

definition all_msig_outs :: "entry list \<Rightarrow> u64 \<Rightarrow> (TransactionIndex \<times> u16) list" where
  "all_msig_outs es a = concat (map (\<lambda>(h, ix, tx). msig_outs ix 0 (outputs tx) a) es)"

definition all_images :: "entry list \<Rightarrow> bytes set" where
  "all_images es = (\<Union>(h, ix, tx)\<in>set es. set (images (inputs tx)))"

definition all_refs :: "entry list \<Rightarrow> (u64 \<times> nat) set" where
  "all_refs es = (\<Union>(h, ix, tx)\<in>set es. set (msig_refs (inputs tx)))"

definition payment_entries :: "entry list \<Rightarrow> (hash \<times> hash) list" where
  "payment_entries es = concat (map (\<lambda>(h, ix, tx). case getPaymentId tx of None \<Rightarrow> [] | Some p \<Rightarrow> [(p, transaction_hash tx)]) es)"

definition ledger_of :: "bool \<Rightarrow> entry list \<Rightarrow> ledger" where
  "ledger_of enabled es =
     \<lparr>m_spent_keys = all_images es, m_outputs = (\<lambda>a. opt_list (all_key_outs es a)),
      m_multisignatureOutputs = (\<lambda>a. opt_list (usage a (all_refs es) (all_msig_outs es a))),
      m_transactionMap = map_of (map (\<lambda>(h, ix, tx). (h, ix)) es),
      l_paymentIdIndex = \<lparr>hi_enabled = enabled, hi_index = (if enabled then payment_entries es else [])\<rparr>\<rparr>"

definition valid_entry :: "entry list \<Rightarrow> entry \<Rightarrow> bool" where
  "valid_entry es e =
     (case e of (h, ix, tx) \<Rightarrow>
       h \<notin> fst ` set es \<and> transaction_hash tx \<notin> (\<lambda>(h, ix, tx). transaction_hash tx) ` set es \<and>
       distinct (images (inputs tx)) \<and> set (images (inputs tx)) \<inter> all_images es = {} \<and>
       distinct (msig_refs (inputs tx)) \<and> set (msig_refs (inputs tx)) \<inter> all_refs es = {} \<and>
       (\<forall>(a, j)\<in>set (msig_refs (inputs tx)). j < length (all_msig_outs es a)) \<and> length (outputs tx) \<le> 65535)"

inductive valid_chain :: "entry list \<Rightarrow> bool" where
  chain_empty: "valid_chain []"
| chain_add: "valid_chain es \<Longrightarrow> valid_entry es e \<Longrightarrow> valid_chain (es @ [e])"

inductive_simps valid_chain_snoc: "valid_chain (es @ [e])"

section \<open>Pushing outputs appends, popping them removes\<close>

lemma amount_list_opt [simp]: "amount_list (\<lambda>a. opt_list (A a)) a = A a"
  by (simp add: amount_list_def opt_list_def)

lemma opt_list_upd: "xs \<noteq> [] \<Longrightarrow> (\<lambda>a. opt_list (A a))(b \<mapsto> xs) = (\<lambda>a. opt_list ((A(b := xs)) a))"
  by (auto simp: opt_list_def)

lemma opt_list_del: "(\<lambda>a. opt_list (A a))(b := (if xs = [] then None else Some xs)) = (\<lambda>a. opt_list ((A(b := xs)) a))"
  by (auto simp: opt_list_def)

definition fresh_usage :: "TransactionIndex \<times> u16 \<Rightarrow> MultisignatureOutputUsage" where
  "fresh_usage x = \<lparr>mu_transactionIndex = fst x, mu_outputIndex = snd x, mu_isUsed = False\<rparr>"

lemma push_outputs_append:
  "\<exists>gs. push_outputs ix n outs (\<lambda>a. opt_list (A a)) (\<lambda>a. opt_list (M a)) =
     ((\<lambda>a. opt_list (A a @ key_outs ix n outs a)), (\<lambda>a. opt_list (M a @ map fresh_usage (msig_outs ix n outs a))), gs) \<and>
     length gs = length outs"
proof (induction outs arbitrary: n A M)
  case (Cons out outs)
  show ?case
  proof (cases "to_target out")
    case (TxKeyOutput k)
    let ?A = "A(to_amount out := A (to_amount out) @ [(ix, word_of_nat n)])"
    have e: "(\<lambda>a. opt_list (?A a @ key_outs ix (Suc n) outs a)) = (\<lambda>a. opt_list (A a @ key_outs ix n (out # outs) a))"
      by (auto simp: TxKeyOutput)
    obtain gs where "push_outputs ix (Suc n) outs (\<lambda>a. opt_list (?A a)) (\<lambda>a. opt_list (M a)) =
      ((\<lambda>a. opt_list (A a @ key_outs ix n (out # outs) a)), (\<lambda>a. opt_list (M a @ map fresh_usage (msig_outs ix (Suc n) outs a))), gs)"
      "length gs = length outs" using Cons.IH [of "Suc n" ?A M] unfolding e by blast
    then show ?thesis by (simp add: TxKeyOutput opt_list_upd del: key_outs.simps fun_upd_apply)
  next
    case (TxMultiSignatureOutput k)
    let ?M = "M(to_amount out := M (to_amount out) @ [fresh_usage (ix, word_of_nat n)])"
    have e: "(\<lambda>a. opt_list (?M a @ map fresh_usage (msig_outs ix (Suc n) outs a))) =
        (\<lambda>a. opt_list (M a @ map fresh_usage (msig_outs ix n (out # outs) a)))"
      by (auto simp: TxMultiSignatureOutput)
    have f: "\<lparr>mu_transactionIndex = ix, mu_outputIndex = word_of_nat n, mu_isUsed = False\<rparr> = fresh_usage (ix, word_of_nat n)"
      by (simp add: fresh_usage_def)
    obtain gs where "push_outputs ix (Suc n) outs (\<lambda>a. opt_list (A a)) (\<lambda>a. opt_list (?M a)) =
      ((\<lambda>a. opt_list (A a @ key_outs ix (Suc n) outs a)), (\<lambda>a. opt_list (M a @ map fresh_usage (msig_outs ix n (out # outs) a))), gs)"
      "length gs = length outs" using Cons.IH [of "Suc n" A ?M] unfolding e by blast
    then show ?thesis by (simp add: TxMultiSignatureOutput opt_list_upd f del: msig_outs.simps fun_upd_apply)
  qed
qed simp

lemma key_outs_snoc: "key_outs ix n (outs @ [out]) a = key_outs ix n outs a @ key_outs ix (n + length outs) [out] a"
  and msig_outs_snoc: "msig_outs ix n (outs @ [out]) a = msig_outs ix n outs a @ msig_outs ix (n + length outs) [out] a"
  by (induction outs arbitrary: n) (auto split: TransactionOutputTarget.splits)

lemma pop_output_last:
  assumes "n \<le> 65535"
  shows "pop_output ix n out ((\<lambda>a. opt_list (A a @ key_outs ix n [out] a)), (\<lambda>a. opt_list (M a @ map fresh_usage (msig_outs ix n [out] a)))) =
    ((\<lambda>a. opt_list (A a)), (\<lambda>a. opt_list (M a)))"
proof (cases "to_target out")
  case (TxKeyOutput k)
  have n: "unat (word_of_nat n :: u16) = n" using assms by (simp add: unsigned_of_nat take_bit_nat_eq_self)
  show ?thesis using TxKeyOutput n
    by (auto simp: pop_output_def opt_list_def fun_eq_iff)
next
  case (TxMultiSignatureOutput k)
  have n: "unat (word_of_nat n :: u16) = n" using assms by (simp add: unsigned_of_nat take_bit_nat_eq_self)
  show ?thesis using TxMultiSignatureOutput n
    by (auto simp: pop_output_def opt_list_def fresh_usage_def fun_eq_iff)
qed

lemma pop_outputs_prefix: "n \<le> length outs \<Longrightarrow> pop_outputs ix (outs @ rest) n st = pop_outputs ix outs n st"
  by (induction n arbitrary: st) (auto simp: nth_append)

lemma pop_outputs_removes:
  assumes "length outs \<le> 65535"
  shows "pop_outputs ix outs (length outs)
      ((\<lambda>a. opt_list (A a @ key_outs ix 0 outs a)), (\<lambda>a. opt_list (M a @ map fresh_usage (msig_outs ix 0 outs a)))) =
    ((\<lambda>a. opt_list (A a)), (\<lambda>a. opt_list (M a)))"
  using assms
proof (induction outs rule: rev_induct)
  case (snoc out outs)
  have "pop_outputs ix (outs @ [out]) (length (outs @ [out]))
      ((\<lambda>a. opt_list (A a @ key_outs ix 0 (outs @ [out]) a)), (\<lambda>a. opt_list (M a @ map fresh_usage (msig_outs ix 0 (outs @ [out]) a)))) =
    pop_outputs ix (outs @ [out]) (length outs) (pop_output ix (length outs) out
      ((\<lambda>a. opt_list ((A a @ key_outs ix 0 outs a) @ key_outs ix (length outs) [out] a)),
       (\<lambda>a. opt_list ((M a @ map fresh_usage (msig_outs ix 0 outs a)) @ map fresh_usage (msig_outs ix (length outs) [out] a)))))"
    by (simp add: key_outs_snoc msig_outs_snoc del: key_outs.simps msig_outs.simps)
  also have "\<dots> = pop_outputs ix (outs @ [out]) (length outs)
      ((\<lambda>a. opt_list (A a @ key_outs ix 0 outs a)), (\<lambda>a. opt_list (M a @ map fresh_usage (msig_outs ix 0 outs a))))"
    using snoc.prems by (subst pop_output_last) auto
  also have "\<dots> = ((\<lambda>a. opt_list (A a)), (\<lambda>a. opt_list (M a)))"
    using snoc by (simp add: pop_outputs_prefix)
  finally show ?case .
qed simp

section \<open>Inputs\<close>

lemma images_simps [simp]:
  "images [] = []" "images (TxKeyInput k # ins) = ki_keyImage k # images ins" "images (TxMultiSignatureInput m # ins) = images ins"
  "images (TxBaseInput b # ins) = images ins" "msig_refs [] = []" "msig_refs (TxKeyInput k # ins) = msig_refs ins"
  "msig_refs (TxMultiSignatureInput m # ins) = (mi_amount m, unat (mi_outputIndex m)) # msig_refs ins"
  "msig_refs (TxBaseInput b # ins) = msig_refs ins"
  by (simp_all add: images_def msig_refs_def)

lemma spend_keys_fresh:
  "distinct (images ins) \<Longrightarrow> set (images ins) \<inter> s = {} \<Longrightarrow> spend_keys before ins s = Inr (s \<union> set (images ins), True)"
  by (induction before ins s rule: spend_keys.induct) auto

definition is_key_input :: "TransactionInput \<Rightarrow> bool" where
  "is_key_input i = (case i of TxKeyInput _ \<Rightarrow> True | _ \<Rightarrow> False)"

lemma unspend_keys: "list_all is_key_input before \<Longrightarrow> unspend before s = Inr (s - set (images before))"
  by (induction before s rule: unspend.induct) (auto simp: is_key_input_def)

lemma spend_keys_spent:
  assumes "list_all is_key_input before" and "list_all is_key_input ins" and "\<not> (distinct (images ins) \<and> set (images ins) \<inter> s = {})"
    and "set (images before) \<subseteq> s"
  shows "spend_keys before ins s = Inr (s - set (images before), False)"
  using assms
proof (induction before ins s rule: spend_keys.induct)
  case (2 before k ins s)
  show ?case
  proof (cases "ki_keyImage k \<in> s")
    case True
    then show ?thesis using 2(2) by (simp add: unspend_keys)
  next
    case False
    then have "spend_keys (TxKeyInput k # before) ins (insert (ki_keyImage k) s) =
        Inr (insert (ki_keyImage k) s - set (images (TxKeyInput k # before)), False)"
      using 2 by (intro 2(1)) (auto simp: is_key_input_def)
    moreover have "insert (ki_keyImage k) s - set (images (TxKeyInput k # before)) = s - set (images before)" using False by auto
    ultimately show ?thesis using False by simp
  qed
qed (auto simp: is_key_input_def)

lemma inputs_diff_loop_iff:
  "inputs_diff_loop ins u \<longleftrightarrow> distinct (msig_refs ins) \<and> set (msig_refs ins) \<inter> (\<lambda>(a, j). (a, unat j)) ` u = {}"
proof (induction ins arbitrary: u)
  case (Cons i ins)
  show ?case
  proof (cases i)
    case (TxMultiSignatureInput m)
    have "(mi_amount m, unat (mi_outputIndex m)) \<in> (\<lambda>(a, j). (a, unat j)) ` u \<longleftrightarrow> (mi_amount m, mi_outputIndex m) \<in> u"
      by (auto simp: image_iff word_unat_eq_iff [symmetric] intro!: bexI [of _ "(mi_amount m, mi_outputIndex m)"])
    then show ?thesis using Cons by (auto simp: TxMultiSignatureInput Let_def)
  qed (use Cons in simp_all)
qed simp

lemma checkMultisignatureInputsDiff_iff: "checkMultisignatureInputsDiff tx \<longleftrightarrow> distinct (msig_refs (inputs tx))"
  by (simp add: checkMultisignatureInputsDiff_def inputs_diff_loop_iff)

lemma length_usage [simp]: "length (usage a u xs) = length xs"
  by (simp add: usage_def)

lemma usage_upd:
  "j < length xs \<Longrightarrow> (usage a u xs)[j := (usage a u xs ! j)\<lparr>mu_isUsed := b\<rparr>] = usage a (if b then insert (a, j) u else u - {(a, j)}) xs"
  by (rule nth_equalityI) (auto simp: usage_def nth_list_update)

lemma usage_other: "a \<noteq> c \<Longrightarrow> usage a (if b then insert (c, j) u else u - {(c, j)}) xs = usage a u xs"
  by (simp add: usage_def)

lemma set_used_usage:
  assumes "unat (mi_outputIndex i) < length (P (mi_amount i))"
  shows "set_used b i (\<lambda>a. opt_list (usage a u (P a))) =
    Inr (\<lambda>a. opt_list (usage a (if b then insert (mi_amount i, unat (mi_outputIndex i)) u else u - {(mi_amount i, unat (mi_outputIndex i))}) (P a)))"
proof -
  let ?j = "unat (mi_outputIndex i)" and ?a = "mi_amount i"
  have "usage ?a u' (P ?a) \<noteq> []" for u' using assms by (auto simp: usage_def)
  then have "(\<lambda>a. opt_list (usage a u (P a)))(?a \<mapsto> usage ?a (if b then insert (?a, ?j) u else u - {(?a, ?j)}) (P ?a)) =
     (\<lambda>a. opt_list (usage a (if b then insert (?a, ?j) u else u - {(?a, ?j)}) (P a)))"
    by (intro ext) (use usage_other in \<open>simp add: opt_list_def\<close>)
  then show ?thesis unfolding set_used_def Let_def amount_list_opt length_usage usage_upd [OF assms] using assms by simp
qed

lemma use_outputs_usage:
  "\<forall>(a, j)\<in>set (msig_refs ins). j < length (P a) \<Longrightarrow>
   use_outputs ins (\<lambda>a. opt_list (usage a u (P a))) = Inr (\<lambda>a. opt_list (usage a (u \<union> set (msig_refs ins)) (P a)))"
proof (induction ins arbitrary: u)
  case (Cons i ins)
  then show ?case by (cases i) (simp_all add: set_used_usage)
qed simp

lemma pop_inputs_usage:
  "\<forall>(a, j)\<in>set (msig_refs ins). j < length (P a) \<Longrightarrow>
   pop_inputs ins (s, \<lambda>a. opt_list (usage a u (P a))) =
   Inr (s - set (images ins), \<lambda>a. opt_list (usage a (u - set (msig_refs ins)) (P a)))"
proof (induction ins arbitrary: u s)
  case (Cons i ins)
  have d: "u - {x} - y = u - insert x y" for u x and y :: "'z set" by auto
  show ?case using Cons by (cases i) (simp_all add: set_used_usage d)
qed simp

lemma usage_append:
  assumes "\<forall>j. (a, j) \<in> u \<longrightarrow> j < length xs"
  shows "usage a u (xs @ ys) = usage a u xs @ map fresh_usage ys"
proof (rule nth_equalityI)
  fix i assume "i < length (usage a u (xs @ ys))"
  then show "usage a u (xs @ ys) ! i = (usage a u xs @ map fresh_usage ys) ! i"
    using assms by (cases "i < length xs") (auto simp: usage_def nth_append fresh_usage_def)
qed simp

section \<open>The operations refine the list of transactions\<close>

lemma all_snoc:
  "all_key_outs (es @ [(h, ix, tx)]) a = all_key_outs es a @ key_outs ix 0 (outputs tx) a"
  "all_msig_outs (es @ [(h, ix, tx)]) a = all_msig_outs es a @ msig_outs ix 0 (outputs tx) a"
  "all_images (es @ [(h, ix, tx)]) = all_images es \<union> set (images (inputs tx))"
  "all_refs (es @ [(h, ix, tx)]) = all_refs es \<union> set (msig_refs (inputs tx))"
  by (auto simp: all_key_outs_def all_msig_outs_def all_images_def all_refs_def)

lemma valid_chain_refs: "valid_chain es \<Longrightarrow> (a, j) \<in> all_refs es \<Longrightarrow> j < length (all_msig_outs es a)"
proof (induction rule: valid_chain.induct)
  case (chain_add es e)
  obtain h ix tx where e: "e = (h, ix, tx)" by (rule prod_cases3)
  show ?case using chain_add by (auto simp: e all_snoc valid_entry_def)
qed (simp add: all_refs_def)

lemma map_of_snoc_new:
  "h \<notin> fst ` set es \<Longrightarrow> map_of (map (\<lambda>(h, ix, tx). (h, ix)) (es @ [(h, ix, tx)])) = (map_of (map (\<lambda>(h, ix, tx). (h, ix)) es))(h \<mapsto> ix)"
proof -
  assume "h \<notin> fst ` set es"
  then have "map_of (map (\<lambda>(h, ix, tx). (h, ix)) es) h = None" by (force simp: map_of_eq_None_iff)
  then show ?thesis by (auto simp: fun_eq_iff map_add_def split: option.splits)
qed

lemma payment_add:
  "fst (PaymentIdIndex_add tx \<lparr>hi_enabled = en, hi_index = (if en then payment_entries es else [])\<rparr>) =
   \<lparr>hi_enabled = en, hi_index = (if en then payment_entries (es @ [(h, ix, tx)]) else [])\<rparr>"
  by (auto simp: PaymentIdIndex_add_def payment_entries_def ummap_insert_def split: option.splits)

lemma erase_entry_snoc: "(k, v) \<notin> set m \<Longrightarrow> erase_entry k v (m @ [(k, v)]) = (m, True)"
  by (induction m) auto

lemma payment_remove:
  assumes "transaction_hash tx \<notin> (\<lambda>(h, ix, tx). transaction_hash tx) ` set es"
  shows "fst (PaymentIdIndex_remove tx \<lparr>hi_enabled = en, hi_index = (if en then payment_entries (es @ [(h, ix, tx)]) else [])\<rparr>) =
   \<lparr>hi_enabled = en, hi_index = (if en then payment_entries es else [])\<rparr>"
proof (cases "getPaymentId tx")
  case (Some p)
  have "(p, transaction_hash tx) \<notin> set (payment_entries es)"
    using assms by (force simp: payment_entries_def split: option.splits)
  moreover have "payment_entries (es @ [(h, ix, tx)]) = payment_entries es @ [(p, transaction_hash tx)]"
    by (simp add: payment_entries_def Some)
  ultimately show ?thesis by (simp add: PaymentIdIndex_remove_def Some erase_entry_snoc)
qed (simp add: PaymentIdIndex_remove_def payment_entries_def)

lemma push_refines:
  assumes "valid_chain es" and "valid_entry es (h, ix, tx)"
  shows "\<exists>gs. pushTransaction tx h ix (ledger_of en es) = Inr (ledger_of en (es @ [(h, ix, tx)]), Some gs) \<and> length gs = length (outputs tx)"
proof -
  have v: "h \<notin> fst ` set es" "distinct (images (inputs tx))" "set (images (inputs tx)) \<inter> all_images es = {}"
    "distinct (msig_refs (inputs tx))" "\<forall>(a, j)\<in>set (msig_refs (inputs tx)). j < length (all_msig_outs es a)" "length (outputs tx) \<le> 65535"
    using assms(2) by (auto simp: valid_entry_def)
  let ?u = "all_refs es \<union> set (msig_refs (inputs tx))"
  have use: "use_outputs (inputs tx) (m_multisignatureOutputs (ledger_of en es)) = Inr (\<lambda>a. opt_list (usage a ?u (all_msig_outs es a)))"
    unfolding ledger_of_def by (simp add: use_outputs_usage [OF v(5)])
  have spend: "spend_keys [] (inputs tx) (m_spent_keys (ledger_of en es)) = Inr (all_images es \<union> set (images (inputs tx)), True)"
    using spend_keys_fresh [OF v(2,3)] by (simp add: ledger_of_def)
  have app: "usage a ?u (all_msig_outs es a @ msig_outs ix 0 (outputs tx) a) =
      usage a ?u (all_msig_outs es a) @ map fresh_usage (msig_outs ix 0 (outputs tx) a)" for a
    by (rule usage_append) (use valid_chain_refs [OF assms(1)] v(5) in auto)
  obtain gs where outs: "push_outputs ix 0 (outputs tx) (\<lambda>a. opt_list (all_key_outs es a)) (\<lambda>a. opt_list (usage a ?u (all_msig_outs es a))) =
     ((\<lambda>a. opt_list (all_key_outs es a @ key_outs ix 0 (outputs tx) a)),
      (\<lambda>a. opt_list (usage a ?u (all_msig_outs es a @ msig_outs ix 0 (outputs tx) a))), gs)" "length gs = length (outputs tx)"
    unfolding app using push_outputs_append [of ix 0 "outputs tx" "all_key_outs es" "\<lambda>a. usage a ?u (all_msig_outs es a)"] by blast
  have none: "m_transactionMap (ledger_of en es) h = None" using v(1) by (force simp: ledger_of_def map_of_eq_None_iff)
  have "pushTransaction tx h ix (ledger_of en es) = Inr (ledger_of en (es @ [(h, ix, tx)]), Some gs)"
    unfolding pushTransaction_def none spend use
    using v(4,6) outs(1) map_of_snoc_new [OF v(1), of ix tx] payment_add [of tx en es h ix]
    by (simp add: checkMultisignatureInputsDiff_iff) (simp add: ledger_of_def all_snoc)
  then show ?thesis using outs(2) by blast
qed

lemma pop_refines:
  assumes "valid_chain (es @ [(h, ix, tx)])"
  shows "popTransaction tx h (ledger_of en (es @ [(h, ix, tx)])) = Inr (ledger_of en es)"
proof -
  have c: "valid_chain es" "valid_entry es (h, ix, tx)" using assms by (auto simp: valid_chain_snoc)
  have v: "h \<notin> fst ` set es" "transaction_hash tx \<notin> (\<lambda>(h, ix, tx). transaction_hash tx) ` set es"
    "set (images (inputs tx)) \<inter> all_images es = {}" "set (msig_refs (inputs tx)) \<inter> all_refs es = {}"
    "\<forall>(a, j)\<in>set (msig_refs (inputs tx)). j < length (all_msig_outs es a)" "length (outputs tx) \<le> 65535"
    using c(2) by (auto simp: valid_entry_def)
  let ?u = "all_refs es \<union> set (msig_refs (inputs tx))" and ?l = "ledger_of en (es @ [(h, ix, tx)])"
  have app: "usage a ?u (all_msig_outs es a @ msig_outs ix 0 (outputs tx) a) =
      usage a ?u (all_msig_outs es a) @ map fresh_usage (msig_outs ix 0 (outputs tx) a)" for a
    by (rule usage_append) (use valid_chain_refs [OF c(1)] v(5) in auto)
  have outs: "pop_outputs ix (outputs tx) (length (outputs tx)) (m_outputs ?l, m_multisignatureOutputs ?l) =
      ((\<lambda>a. opt_list (all_key_outs es a)), (\<lambda>a. opt_list (usage a ?u (all_msig_outs es a))))"
    unfolding ledger_of_def ledger.select_convs all_snoc app by (rule pop_outputs_removes [OF v(6)])
  have s: "all_images es \<union> set (images (inputs tx)) - set (images (inputs tx)) = all_images es" "?u - set (msig_refs (inputs tx)) = all_refs es"
    using v(3,4) by auto
  have ins: "pop_inputs (inputs tx) (m_spent_keys ?l, \<lambda>a. opt_list (usage a ?u (all_msig_outs es a))) =
      Inr (all_images es, \<lambda>a. opt_list (usage a (all_refs es) (all_msig_outs es a)))"
    unfolding pop_inputs_usage [OF v(5)] s by (simp add: ledger_of_def all_snoc s)
  have m: "m_transactionMap ?l h = Some ix" "(m_transactionMap ?l)(h := None) = m_transactionMap (ledger_of en es)"
  proof -
    have "m_transactionMap ?l = (m_transactionMap (ledger_of en es))(h \<mapsto> ix)" using map_of_snoc_new [OF v(1)] by (simp add: ledger_of_def)
    moreover have "m_transactionMap (ledger_of en es) h = None" using v(1) by (force simp: ledger_of_def map_of_eq_None_iff)
    ultimately show "m_transactionMap ?l h = Some ix" "(m_transactionMap ?l)(h := None) = m_transactionMap (ledger_of en es)"
      by (auto simp: fun_eq_iff)
  qed
  have p: "fst (PaymentIdIndex_remove tx (l_paymentIdIndex ?l)) = l_paymentIdIndex (ledger_of en es)"
    using payment_remove [OF v(2), of en h ix] by (simp add: ledger_of_def)
  show ?thesis unfolding popTransaction_def m(1) option.case outs Let_def prod.case ins sum.case m(2) p
    by (simp add: ledger_of_def)
qed

end
