(* ===== verification/Blockchain.thy ===== *)
theory Blockchain
  imports Ledger Checkpoints BlockIndex UpgradeDetector TransactionExtra
begin

text \<open>
  The main chain: \<^verbatim>\<open>lib/CryptoNoteCore/Blockchain.cpp\<close> and \<^verbatim>\<open>Blockchain.h\<close>. The state is the record \<open>Blockchain\<close> over the ledger, the blocks and the indices;
  a block is pushed by \<open>pushBlock_transactions\<close> and removed by \<open>removeLastBlock\<close>. The clock, the curve functions, the proof-of-work hash and the
  computations in floating point are the record \<open>chain_env\<close>; \<^verbatim>\<open>std::vector\<close> and the file-backed vector of blocks are lists. Exceptions, undefined
  accesses, endless loops and failed assertions are values of \<open>chain_error\<close>. \<open>chain_reachable\<close> are the states after any sequence of pushed, refused and
  removed blocks, \<open>chain_inv\<close> is their invariant: the ledger and the indices are functions of the blocks. Alternative chains, the reorganisation
  between them, files and messages are left out, the exchange with the memory pool is in \<open>ChainPool\<close>; locks guard each call, so calls do not interleave.
\<close>

unbundle bit_operations_syntax

section \<open>State\<close>

record TransactionEntry =
  te_tx :: Transaction
  te_global_output_indexes :: "u32 list"

record BlockEntry =
  be_bl :: Block
  be_height :: u32
  be_block_cumulative_size :: u64
  be_cumulative_difficulty :: u64
  be_already_generated_coins :: u64
  be_transactions :: "TransactionEntry list"

record Blockchain =
  m_ledger :: ledger
  m_blocks :: "BlockEntry list"
  m_blockIndex :: BlockIndex
  m_blocksTimestampIndex :: "u64 hash_index"
  m_generatedTransactionsIndex :: GeneratedTransactionsIndex
  m_current_block_cumul_sz_limit :: u64
  m_checkpoints :: Checkpoints
  m_upgradeDetectorV2 :: u32
  m_upgradeDetectorV3 :: u32
  m_upgradeDetectorV4 :: u32
  m_upgradeDetectorV5 :: u32
  m_upgradeDetectorV6 :: u32

record block_verification_context =
  m_added_to_main_chain :: bool
  b_verification_failed :: bool
  m_marked_as_orphaned :: bool
  m_already_exists :: bool
  m_switched_to_alt_chain :: bool

text \<open>
  The clock, the curve functions, the proof-of-work hash and the computations in floating point that the chain calls: the difficulty of the next
  block, the factor of the block reward and the check of the governance output.
\<close>

record chain_env =
  get_adjusted_time :: u64
  cn_pow_hash :: "bytes \<Rightarrow> hash"
  scalarMultKey :: "bytes \<Rightarrow> bytes \<Rightarrow> bytes"
  checkSignature :: "hash \<Rightarrow> bytes \<Rightarrow> bytes \<Rightarrow> bool"
  checkRingSignature :: "hash \<Rightarrow> bytes \<Rightarrow> bytes list \<Rightarrow> bytes list \<Rightarrow> bool"
  getDifficultyForNextBlock :: "BlockEntry list \<Rightarrow> u64 \<Rightarrow> u64"
  reward_scale :: "u32 \<Rightarrow> u64 \<Rightarrow> u64 \<Rightarrow> u64"
  validateGovernmentFee :: "Transaction \<Rightarrow> bool"

definition getCurrentBlockchainHeight :: "Blockchain \<Rightarrow> u32" where
  "getCurrentBlockchainHeight c = word_of_nat (length (m_blocks c))"

definition bc_getTailId :: "Blockchain \<Rightarrow> hash option" where
  "bc_getTailId c = (if m_blocks c = [] then Some NULL_HASH else getTailId (m_blockIndex c))"

definition getBlockIdByHeight :: "Blockchain \<Rightarrow> u32 \<Rightarrow> hash option" where
  "getBlockIdByHeight c height = getBlockId (m_blockIndex c) height"

definition haveTransaction :: "Blockchain \<Rightarrow> hash \<Rightarrow> bool" where
  "haveTransaction c h \<longleftrightarrow> m_transactionMap (m_ledger c) h \<noteq> None"

definition have_tx_keyimg_as_spent :: "Blockchain \<Rightarrow> bytes \<Rightarrow> bool" where
  "have_tx_keyimg_as_spent c k \<longleftrightarrow> k \<in> m_spent_keys (m_ledger c)"

definition haveTransactionKeyImagesAsSpent :: "Blockchain \<Rightarrow> Transaction \<Rightarrow> bool" where
  "haveTransactionKeyImagesAsSpent c tx \<longleftrightarrow>
     list_ex (\<lambda>i. case i of TxKeyInput k \<Rightarrow> have_tx_keyimg_as_spent c (ki_keyImage k) | _ \<Rightarrow> False) (inputs tx)"

definition isInCheckpointZone :: "Blockchain \<Rightarrow> u32 \<Rightarrow> bool" where
  "isInCheckpointZone c height = is_in_checkpoint_zone (m_checkpoints c) height"

text \<open>\<open>None\<close> where the code reads outside a vector or an assertion fails.\<close>

definition transactionByIndex :: "Blockchain \<Rightarrow> TransactionIndex \<Rightarrow> TransactionEntry option" where
  "transactionByIndex c ix =
     (if unat (ti_block ix) < length (m_blocks c) \<and>
         unat (ti_transaction ix) < length (be_transactions (m_blocks c ! unat (ti_block ix)))
      then Some (be_transactions (m_blocks c ! unat (ti_block ix)) ! unat (ti_transaction ix)) else None)"

definition getBlockTimestamp :: "Blockchain \<Rightarrow> u32 \<Rightarrow> u64 option" where
  "getBlockTimestamp c height =
     (if unat height < length (m_blocks c) then Some (timestamp (be_bl (m_blocks c ! unat height))) else None)"

definition getBlockMajorVersionForHeight :: "Currency \<Rightarrow> Blockchain \<Rightarrow> u32 \<Rightarrow> u8" where
  "getBlockMajorVersionForHeight cur c height =
     (if ud_upgradeHeight cur 6 (m_upgradeDetectorV6 c) < height then 6
      else if ud_upgradeHeight cur 5 (m_upgradeDetectorV5 c) < height then 5
      else if ud_upgradeHeight cur 4 (m_upgradeDetectorV4 c) < height then 4
      else if ud_upgradeHeight cur 3 (m_upgradeDetectorV3 c) < height then 3
      else if ud_upgradeHeight cur 2 (m_upgradeDetectorV2 c) < height then 2
      else BLOCK_MAJOR_VERSION_1)"

section \<open>Medians\<close>

text \<open>
  \<^verbatim>\<open>Common::medianValue\<close> returns a \<^verbatim>\<open>double\<close>. The conversion of an integer rounds to 53 significant bits, ties to even; halving a
  double is exact, and the conversion back drops the fraction. A value that rounds to 2 to the 64 does not fit; its conversion, undefined in the
  code, wraps here.
\<close>

fun bit_length :: "nat \<Rightarrow> nat" where
  "bit_length n = (if n = 0 then 0 else Suc (bit_length (n div 2)))"

definition to_double :: "nat \<Rightarrow> nat" where
  "to_double n =
     (if n < 2 ^ 53 then n
      else (let e = bit_length n - 53; q = n div 2 ^ e; r = n mod 2 ^ e
            in if 2 * r < 2 ^ e \<or> 2 * r = 2 ^ e \<and> even q then q * 2 ^ e else (q + 1) * 2 ^ e))"

definition medianValue :: "u64 list \<Rightarrow> u64" where
  "medianValue v =
     (if v = [] then 0
      else if length v = 1 then word_of_nat (to_double (unat (v ! 0)))
      else (let n = length v div 2; v = sort v
            in if odd (length v) then word_of_nat (to_double (unat (v ! n)))
               else word_of_nat (to_double (unat (v ! (n - 1) + v ! n)) div 2)))"

definition getBackwardBlocksSize :: "Blockchain \<Rightarrow> nat \<Rightarrow> nat \<Rightarrow> u64 list option" where
  "getBackwardBlocksSize c from_height n =
     (if length (m_blocks c) \<le> from_height then None
      else (let start_offset = (from_height + 1) - min (from_height + 1) n
            in Some (map be_block_cumulative_size (drop start_offset (take (from_height + 1) (m_blocks c))))))"

definition get_last_n_blocks_sizes :: "Blockchain \<Rightarrow> nat \<Rightarrow> u64 list option" where
  "get_last_n_blocks_sizes c n =
     (if m_blocks c = [] then Some [] else getBackwardBlocksSize c (length (m_blocks c) - 1) n)"

definition last_sizes :: "Currency \<Rightarrow> Blockchain \<Rightarrow> u64 list" where
  "last_sizes cur c = (case get_last_n_blocks_sizes c (unat (m_rewardBlocksWindow cur)) of None \<Rightarrow> [] | Some sz \<Rightarrow> sz)"

definition check_block_timestamp :: "Currency \<Rightarrow> u64 list \<Rightarrow> Block \<Rightarrow> bool" where
  "check_block_timestamp cur timestamps b =
     (if word_of_nat (length timestamps) < m_timestampCheckWindow cur then True
      else if timestamp b < medianValue timestamps then False else True)"

definition check_block_timestamp_main :: "chain_env \<Rightarrow> Currency \<Rightarrow> Blockchain \<Rightarrow> Block \<Rightarrow> bool" where
  "check_block_timestamp_main env cur c b =
     (if get_adjusted_time env + m_blockFutureTimeLimit cur < timestamp b then False
      else (let n = length (m_blocks c); w = unat (m_timestampCheckWindow cur); offset = (if n \<le> w then 0 else n - w)
            in check_block_timestamp cur (map (\<lambda>e. timestamp (be_bl e)) (drop offset (m_blocks c))) b))"

text \<open>The loop from \<open>top\<close> down; \<open>need\<close> is at least one here.\<close>

definition complete_timestamps_vector :: "Currency \<Rightarrow> Blockchain \<Rightarrow> nat \<Rightarrow> u64 list \<Rightarrow> u64 list \<times> bool" where
  "complete_timestamps_vector cur c start_top_height timestamps =
     (let w = unat (m_timestampCheckWindow cur)
      in if w \<le> length timestamps then (timestamps, True)
         else (let need_elements = w - length timestamps
               in if length (m_blocks c) \<le> start_top_height then (timestamps, False)
                  else if need_elements < start_top_height
                       then (timestamps @ map (\<lambda>i. timestamp (be_bl (m_blocks c ! (start_top_height - i)))) [0..<need_elements], True)
                       else (timestamps @ map (\<lambda>i. timestamp (be_bl (m_blocks c ! (start_top_height - i))))
                               [0..<(if start_top_height = 0 then 1 else start_top_height)], True)))"

definition update_next_cumulative_size_limit :: "Currency \<Rightarrow> Blockchain \<Rightarrow> Blockchain" where
  "update_next_cumulative_size_limit cur c =
     (let zone = blockGrantedFullRewardZoneByBlockVersion (getBlockMajorVersionForHeight cur c (word_of_nat (length (m_blocks c))));
          median = medianValue (last_sizes cur c)
      in c\<lparr>m_current_block_cumul_sz_limit := (if median \<le> zone then zone else median) * 2\<rparr>)"

definition bc_checkTransactionSize :: "Currency \<Rightarrow> Blockchain \<Rightarrow> u64 \<Rightarrow> bool" where
  "bc_checkTransactionSize cur c blobSize = (if m_current_block_cumul_sz_limit c - m_minerTxBlobReservedSize cur < blobSize then False else True)"

section \<open>Inputs of transactions\<close>

text \<open>The 32-bit height minus one wraps on an empty chain. \<open>None\<close>: no last block to read the time of.\<close>

definition is_tx_spendtime_unlocked :: "Currency \<Rightarrow> Blockchain \<Rightarrow> u64 \<Rightarrow> bool option" where
  "is_tx_spendtime_unlocked cur c unlock_time =
     (if unlock_time < m_maxBlockHeight cur
      then Some (unlock_time \<le> ucast (getCurrentBlockchainHeight c - 1) + m_lockedTxAllowedDeltaBlocks cur)
      else map_option (\<lambda>t. unlock_time \<le> t + m_lockedTxAllowedDeltaSeconds cur)
             (getBlockTimestamp c (getCurrentBlockchainHeight c - 1)))"

text \<open>
  \<^verbatim>\<open>scanOutputKeysForIndexes\<close> with the visitor of \<^verbatim>\<open>check_tx_input\<close>: the keys of the outputs at the absolute offsets, or a refusal.
\<close>

definition handle_output :: "Currency \<Rightarrow> Blockchain \<Rightarrow> Transaction \<Rightarrow> TransactionOutput \<Rightarrow> chain_error + bytes option" where
  "handle_output cur c tx out =
     (case is_tx_spendtime_unlocked cur c (unlockTime tx) of
        None \<Rightarrow> Inl OutsideVector
      | Some False \<Rightarrow> Inr None
      | Some True \<Rightarrow> Inr (case to_target out of TxKeyOutput k \<Rightarrow> Some (ko_key k) | TxMultiSignatureOutput _ \<Rightarrow> None))"

fun scan_outputs ::
  "Currency \<Rightarrow> Blockchain \<Rightarrow> (TransactionIndex \<times> u16) list \<Rightarrow> u32 list \<Rightarrow> chain_error + bytes list option" where
  "scan_outputs cur c outs [] = Inr (Some [])"
| "scan_outputs cur c outs (i # offsets) =
     (if length outs \<le> unat i then Inr None
      else (case transactionByIndex c (fst (outs ! unat i)) of
              None \<Rightarrow> Inl OutsideVector
            | Some te \<Rightarrow>
                if length (outputs (te_tx te)) \<le> unat (snd (outs ! unat i)) then Inr None
                else (case handle_output cur c (te_tx te) (outputs (te_tx te) ! unat (snd (outs ! unat i))) of
                        Inl e \<Rightarrow> Inl e
                      | Inr None \<Rightarrow> Inr None
                      | Inr (Some key) \<Rightarrow>
                          (case scan_outputs cur c outs offsets of
                             Inl e \<Rightarrow> Inl e | Inr r \<Rightarrow> Inr (map_option (\<lambda>keys. key # keys) r)))))"

text \<open>The keys and the block of the last output, which the caller's maximum takes in.\<close>

definition scanOutputKeysForIndexes :: "Currency \<Rightarrow> Blockchain \<Rightarrow> KeyInput \<Rightarrow> u32 \<Rightarrow> chain_error + (bytes list \<times> u32) option" where
  "scanOutputKeysForIndexes cur c txin max_related =
     (case m_outputs (m_ledger c) (ki_amount txin) of
        None \<Rightarrow> Inr None
      | Some outs \<Rightarrow>
          if ki_outputIndexes txin = [] then Inr None
          else (let offsets = relative_output_offsets_to_absolute (ki_outputIndexes txin)
                in (case scan_outputs cur c outs offsets of
                      Inl e \<Rightarrow> Inl e
                    | Inr None \<Rightarrow> Inr None
                    | Inr (Some keys) \<Rightarrow> Inr (Some (keys, max max_related (ti_block (fst (outs ! unat (last offsets)))))))))"

definition key_image_I :: bytes where
  "key_image_I = 1 # replicate 31 0"

definition key_image_L :: bytes where
  "key_image_L = [0xed, 0xd3, 0xf5, 0x5c, 0x1a, 0x63, 0x12, 0x58, 0xd6, 0x9c, 0xf7, 0xa2, 0xde, 0xf9, 0xde, 0x14] @ replicate 15 0 @ [0x10]"

text \<open>The verdict and the new maximum of the related blocks.\<close>

definition check_tx_input ::
  "chain_env \<Rightarrow> Currency \<Rightarrow> Blockchain \<Rightarrow> KeyInput \<Rightarrow> hash \<Rightarrow> bytes list \<Rightarrow> u32 \<Rightarrow> chain_error + (bool \<times> u32)" where
  "check_tx_input env cur c txin tx_prefix_hash sig max_related =
     (if scalarMultKey env (ki_keyImage txin) key_image_L \<noteq> key_image_I then Inr (False, max_related)
      else (case scanOutputKeysForIndexes cur c txin max_related of
              Inl e \<Rightarrow> Inl e
            | Inr None \<Rightarrow> Inr (False, max_related)
            | Inr (Some (output_keys, max_related)) \<Rightarrow>
                if length (ki_outputIndexes txin) \<noteq> length output_keys then Inr (False, max_related)
                else if length sig \<noteq> length output_keys then Inr (False, max_related)
                else if isInCheckpointZone c (getCurrentBlockchainHeight c) then Inr (True, max_related)
                else Inr (checkRingSignature env tx_prefix_hash (ki_keyImage txin) output_keys sig, max_related)))"

text \<open>The loop over the keys and the signatures: each signature belongs to the next key that it fits.\<close>

fun match_signatures :: "(bytes \<Rightarrow> bytes \<Rightarrow> bool) \<Rightarrow> bytes list \<Rightarrow> bytes list \<Rightarrow> bool" where
  "match_signatures check keys [] = True"
| "match_signatures check [] (s # sigs) = False"
| "match_signatures check (k # keys) (s # sigs) =
     (if check k s then match_signatures check keys sigs else match_signatures check keys (s # sigs))"

definition validateInput ::
  "chain_env \<Rightarrow> Currency \<Rightarrow> Blockchain \<Rightarrow> MultiSignatureInput \<Rightarrow> hash \<Rightarrow> bytes list \<Rightarrow> chain_error + bool" where
  "validateInput env cur c input tx_prefix_hash sigs =
     (if unat (mi_signatureCount input) \<noteq> length sigs then Inl AssertFails
      else case m_multisignatureOutputs (m_ledger c) (mi_amount input) of
        None \<Rightarrow> Inr False
      | Some outs \<Rightarrow>
          if length outs \<le> unat (mi_outputIndex input) then Inr False
          else
            (let use = outs ! unat (mi_outputIndex input)
             in if mu_isUsed use then Inr False
                else
                  (case transactionByIndex c (mu_transactionIndex use) of
                     None \<Rightarrow> Inl OutsideVector
                   | Some te \<Rightarrow>
                       (case is_tx_spendtime_unlocked cur c (unlockTime (te_tx te)) of
                          None \<Rightarrow> Inl OutsideVector
                        | Some False \<Rightarrow> Inr False
                        | Some True \<Rightarrow>
                            if length (outputs (te_tx te)) \<le> unat (mu_outputIndex use) then Inl OutsideVector
                            else if to_amount (outputs (te_tx te) ! unat (mu_outputIndex use)) \<noteq> mi_amount input then Inl AssertFails
                            else
                              (case to_target (outputs (te_tx te) ! unat (mu_outputIndex use)) of
                                 TxKeyOutput _ \<Rightarrow> Inl AssertFails
                               | TxMultiSignatureOutput out \<Rightarrow>
                                   if mi_signatureCount input \<noteq> mo_requiredSignatureCount out then Inr False
                                   else Inr (match_signatures (checkSignature env tx_prefix_hash) (mo_keys out) sigs))))))"

text \<open>Every input takes the next list of signatures.\<close>

fun check_inputs_loop ::
  "chain_env \<Rightarrow> Currency \<Rightarrow> Blockchain \<Rightarrow> hash \<Rightarrow> TransactionInput list \<Rightarrow> bytes list list \<Rightarrow> u32 \<Rightarrow> chain_error + (bool \<times> u32)" where
  "check_inputs_loop env cur c ph [] sigs mx = Inr (True, mx)"
| "check_inputs_loop env cur c ph (i # ins) [] mx = Inl AssertFails"
| "check_inputs_loop env cur c ph (TxKeyInput k # ins) (sig # sigs) mx =
     (if ki_outputIndexes k = [] then Inr (False, mx)
      else if have_tx_keyimg_as_spent c (ki_keyImage k) then Inr (False, mx)
      else if isInCheckpointZone c (getCurrentBlockchainHeight c) then check_inputs_loop env cur c ph ins sigs mx
      else (case check_tx_input env cur c k ph sig mx of
              Inl e \<Rightarrow> Inl e
            | Inr (False, mx) \<Rightarrow> Inr (False, mx)
            | Inr (True, mx) \<Rightarrow> check_inputs_loop env cur c ph ins sigs mx))"
| "check_inputs_loop env cur c ph (TxMultiSignatureInput m # ins) (sig # sigs) mx =
     (if isInCheckpointZone c (getCurrentBlockchainHeight c) then check_inputs_loop env cur c ph ins sigs mx
      else (case validateInput env cur c m ph sig of
              Inl e \<Rightarrow> Inl e
            | Inr False \<Rightarrow> Inr (False, mx)
            | Inr True \<Rightarrow> check_inputs_loop env cur c ph ins sigs mx))"
| "check_inputs_loop env cur c ph (TxBaseInput _ # ins) (sig # sigs) mx = Inr (False, mx)"

definition bc_checkTransactionInputs :: "chain_env \<Rightarrow> Currency \<Rightarrow> Blockchain \<Rightarrow> Transaction \<Rightarrow> chain_error + (bool \<times> u32)" where
  "bc_checkTransactionInputs env cur c tx =
     check_inputs_loop env cur c (snd (getObjectHash getBinaryArrayHash put_TransactionPrefix (TransactionPrefix.truncate tx)))
       (inputs tx) (signatures tx) 0"

section \<open>The miner's transaction\<close>

definition UPGRADE_HEIGHT_V1 :: u32 where "UPGRADE_HEIGHT_V1 = 1"

definition prevalidate_miner_transaction :: "Currency \<Rightarrow> Block \<Rightarrow> u32 \<Rightarrow> bool" where
  "prevalidate_miner_transaction cur b height =
     (if length (inputs (baseTransaction b)) \<noteq> 1 then False
      else if signatures (baseTransaction b) \<noteq> [] then False
      else (case inputs (baseTransaction b) ! 0 of
              TxBaseInput i \<Rightarrow>
                if bi_blockIndex i \<noteq> height then False
                else if unlockTime (baseTransaction b) \<noteq> ucast height + m_minedMoneyUnlockWindow cur then False
                else check_outs_overflow (baseTransaction b)
            | _ \<Rightarrow> False))"

text \<open>The reward and the emission change when the transaction is accepted.\<close>

definition validate_miner_transaction ::
  "chain_env \<Rightarrow> Currency \<Rightarrow> Blockchain \<Rightarrow> Block \<Rightarrow> u32 \<Rightarrow> u64 \<Rightarrow> u64 \<Rightarrow> u64 \<Rightarrow> chain_error + (u64 \<times> u64) option" where
  "validate_miner_transaction env cur c b height cumulativeBlockSize alreadyGeneratedCoins fee =
     (let minerReward = fold (\<lambda>out r. r + to_amount out) (outputs (baseTransaction b)) 0;
          blocksSizeMedian = medianValue (last_sizes cur c);
          previousBlockHeight = (case getBlockHeight (m_blockIndex c) (previousBlockHash b) of None \<Rightarrow> 0 | Some h \<Rightarrow> h);
          target = (if UPGRADE_HEIGHT_V1 < height
                    then map_option (\<lambda>t. timestamp b - t) (getBlockTimestamp c previousBlockHeight) else Some DIFFICULTY_TARGET)
      in (case target of
            None \<Rightarrow> Inl OutsideVector
          | Some blockTarget \<Rightarrow>
              if isGovernanceEnabled cur height \<and> \<not> validateGovernmentFee env (baseTransaction b) then Inr None
              else
                (case getBlockReward (reward_scale env) cur (getBlockMajorVersionForHeight cur c height) blocksSizeMedian
                        cumulativeBlockSize alreadyGeneratedCoins fee height blockTarget of
                   None \<Rightarrow> Inr None
                 | Some (reward, emissionChange) \<Rightarrow>
                     if reward < minerReward then Inr None
                     else if minerReward < reward then Inr None
                     else Inr (Some (reward, emissionChange)))))"

definition checkBlockVersion :: "Currency \<Rightarrow> Blockchain \<Rightarrow> Block \<Rightarrow> bool" where
  "checkBlockVersion cur c b = (majorVersion b = getBlockMajorVersionForHeight cur c (get_block_height b))"

definition checkCumulativeBlockSize :: "Currency \<Rightarrow> u64 \<Rightarrow> u64 \<Rightarrow> bool option" where
  "checkCumulativeBlockSize cur cumulativeBlockSize height =
     map_option (\<lambda>m. if m < cumulativeBlockSize then False else True) (maxBlockCumulativeSize cur height)"

definition find_end_of_allowed_index :: "Currency \<Rightarrow> Blockchain \<Rightarrow> (TransactionIndex \<times> u16) list \<Rightarrow> nat" where
  "find_end_of_allowed_index cur c amount_outs =
     length (dropWhile (\<lambda>(ix, _). \<not> ucast (ti_block ix) + m_minedMoneyUnlockWindow cur \<le> ucast (getCurrentBlockchainHeight c))
       (rev amount_outs))"

section \<open>Blocks\<close>

text \<open>
  Pushing the transaction that the 16-bit index names: the global indices of its outputs go into its entry. The callers ignore whether the
  transaction was accepted.
\<close>

definition push_entry ::
  "hash \<Rightarrow> TransactionIndex \<Rightarrow> ledger \<times> TransactionEntry list \<Rightarrow> chain_error + (ledger \<times> TransactionEntry list)" where
  "push_entry h ix st =
     (case st of (l, txs) \<Rightarrow>
       (let j = unat (ti_transaction ix)
        in (case pushTransaction (te_tx (txs ! j)) h ix l of
              Inl e \<Rightarrow> Inl e
            | Inr (l, None) \<Rightarrow> Inr (l, txs)
            | Inr (l, Some gs) \<Rightarrow> Inr (l, txs[j := (txs ! j)\<lparr>te_global_output_indexes := gs\<rparr>]))))"

fun pop_block_transactions :: "TransactionEntry list \<Rightarrow> hash list \<Rightarrow> nat \<Rightarrow> ledger \<Rightarrow> chain_error + ledger" where
  "pop_block_transactions txs hs 0 l = Inr l"
| "pop_block_transactions txs hs (Suc n) l =
     (if length hs \<le> n then Inl OutsideVector
      else (case popTransaction (te_tx (txs ! Suc n)) (hs ! n) l of
              Inl e \<Rightarrow> Inl e | Inr l \<Rightarrow> pop_block_transactions txs hs n l))"

text \<open>The block's own transactions from the last to the first, then the miner's; a block entry always has the latter.\<close>

definition popTransactions :: "TransactionEntry list \<Rightarrow> Block \<Rightarrow> hash \<Rightarrow> ledger \<Rightarrow> chain_error + ledger" where
  "popTransactions txs bl minerTransactionHash l =
     (case pop_block_transactions txs (transactionHashes bl) (length txs - 1) l of
        Inl e \<Rightarrow> Inl e | Inr l \<Rightarrow> popTransaction (baseTransaction bl) minerTransactionHash l)"

text \<open>
  The loop over the block's transactions, at the \<open>i\<close>-th. A refused transaction gives the entries before it; otherwise the entries come with
  their cumulative size and fee.
\<close>

datatype loop_result = WrongInputs ledger "TransactionEntry list" | Pushed ledger "TransactionEntry list" u64 u64

fun push_transactions ::
  "chain_env \<Rightarrow> Currency \<Rightarrow> Blockchain \<Rightarrow> Block \<Rightarrow> Transaction list \<Rightarrow> nat \<Rightarrow> TransactionIndex \<Rightarrow> ledger \<times> TransactionEntry list \<Rightarrow>
   u64 \<Rightarrow> u64 \<Rightarrow> chain_error + loop_result" where
  "push_transactions env cur c b [] i ix (l, txs) block_size fee_summary = Inr (Pushed l txs block_size fee_summary)"
| "push_transactions env cur c b (tx # rest) i ix (l, txs) block_size fee_summary =
     (if length (transactionHashes b) \<le> i then Inl OutsideVector
      else (let blob_size = (case toBinaryArray put_Transaction tx of None \<Rightarrow> 0 | Some ba \<Rightarrow> word_of_nat (length ba));
                fee = getInputAmount tx - getOutputAmount tx;
                ix' = ix\<lparr>ti_transaction := ti_transaction ix + 1\<rparr>
            in (case bc_checkTransactionInputs env cur (c\<lparr>m_ledger := l\<rparr>) tx of
                  Inl e \<Rightarrow> Inl e
                | Inr (False, _) \<Rightarrow> Inr (WrongInputs l txs)
                | Inr (True, _) \<Rightarrow>
                    (case push_entry (transactionHashes b ! i) ix' (l, txs @ [\<lparr>te_tx = tx, te_global_output_indexes = []\<rparr>]) of
                       Inl e \<Rightarrow> Inl e
                     | Inr st \<Rightarrow> push_transactions env cur c b rest (Suc i) ix' st (block_size + blob_size) (fee_summary + fee)))))"

text \<open>\<^verbatim>\<open>pushBlock(BlockEntry &)\<close>.\<close>

definition pushBlock_entry :: "BlockEntry \<Rightarrow> Blockchain \<Rightarrow> chain_error + Blockchain" where
  "pushBlock_entry block c =
     (let blockHash = snd (getBlockHash (be_bl block));
          blocks = m_blocks c @ [block];
          index = fst (bi_push blockHash (m_blockIndex c))
      in (case GeneratedTransactionsIndex_add (be_bl block) (m_generatedTransactionsIndex c) of
            None \<Rightarrow> Inl BadGet
          | Some (gen, _) \<Rightarrow>
              if unat (bi_size index) \<noteq> length blocks then Inl AssertFails
              else Inr (c\<lparr>m_blocks := blocks, m_blockIndex := index,
                          m_blocksTimestampIndex := fst (TimestampBlocksIndex_add (timestamp (be_bl block)) blockHash (m_blocksTimestampIndex c)),
                          m_generatedTransactionsIndex := gen\<rparr>)))"

definition headers :: "Blockchain \<Rightarrow> BlockHeader list" where
  "headers c = map (\<lambda>e. BlockHeader.truncate (be_bl e)) (m_blocks c)"

definition detectors_pushed :: "Currency \<Rightarrow> Blockchain \<Rightarrow> chain_error + Blockchain" where
  "detectors_pushed cur c =
     (case (blockPushed cur 2 (headers c) (m_upgradeDetectorV2 c), blockPushed cur 3 (headers c) (m_upgradeDetectorV3 c),
            blockPushed cur 4 (headers c) (m_upgradeDetectorV4 c), blockPushed cur 5 (headers c) (m_upgradeDetectorV5 c),
            blockPushed cur 6 (headers c) (m_upgradeDetectorV6 c)) of
        (Some v2, Some v3, Some v4, Some v5, Some v6) \<Rightarrow>
          Inr (c\<lparr>m_upgradeDetectorV2 := v2, m_upgradeDetectorV3 := v3, m_upgradeDetectorV4 := v4, m_upgradeDetectorV5 := v5,
                 m_upgradeDetectorV6 := v6\<rparr>)
      | _ \<Rightarrow> Inl AssertFails)"

definition detectors_popped :: "Currency \<Rightarrow> Blockchain \<Rightarrow> chain_error + Blockchain" where
  "detectors_popped cur c =
     (case (blockPopped cur 2 (headers c) (m_upgradeDetectorV2 c), blockPopped cur 3 (headers c) (m_upgradeDetectorV3 c),
            blockPopped cur 4 (headers c) (m_upgradeDetectorV4 c), blockPopped cur 5 (headers c) (m_upgradeDetectorV5 c),
            blockPopped cur 6 (headers c) (m_upgradeDetectorV6 c)) of
        (Some v2, Some v3, Some v4, Some v5, Some v6) \<Rightarrow>
          Inr (c\<lparr>m_upgradeDetectorV2 := v2, m_upgradeDetectorV3 := v3, m_upgradeDetectorV4 := v4, m_upgradeDetectorV5 := v5,
                 m_upgradeDetectorV6 := v6\<rparr>)
      | _ \<Rightarrow> Inl AssertFails)"

definition BLOCK_MAJOR_VERSION_3 :: u8 where "BLOCK_MAJOR_VERSION_3 = 3"

text \<open>The checks of \<^verbatim>\<open>pushBlock\<close> before it changes anything: the block verification context of a refusal, or the difficulty.\<close>

definition precheck_block ::
  "chain_env \<Rightarrow> Currency \<Rightarrow> Block \<Rightarrow> block_verification_context \<Rightarrow> Blockchain \<Rightarrow> block_verification_context + u64" where
  "precheck_block env cur b bvc c =
     (let failed = bvc\<lparr>b_verification_failed := True\<rparr>;
          blockHash = snd (getBlockHash b);
          currentDifficulty = getDifficultyForNextBlock env (m_blocks c) (timestamp b);
          height = getCurrentBlockchainHeight c
      in if hasBlock (m_blockIndex c) blockHash then Inl failed
         else if \<not> checkBlockVersion cur c b then Inl failed
         else if getMergeMiningTagFromExtra (extra (baseTransaction b)) \<noteq> None \<and> BLOCK_MAJOR_VERSION_3 \<le> majorVersion b then Inl bvc
         else if Some (previousBlockHash b) \<noteq> bc_getTailId c then Inl failed
         else if \<not> check_block_timestamp_main env cur c b then Inl failed
         else if currentDifficulty = 0 then Inl bvc
         else if (if is_in_checkpoint_zone (m_checkpoints c) height then \<not> fst (check_block (m_checkpoints c) height blockHash)
                  else \<not> checkProofOfWork (cn_pow_hash env) b currentDifficulty) then Inl failed
         else if \<not> prevalidate_miner_transaction cur b (word_of_nat (length (m_blocks c))) then Inl failed
         else Inr currentDifficulty)"

text \<open>The end of \<^verbatim>\<open>pushBlock\<close>, after all transactions were pushed into the ledger.\<close>

definition finish_block ::
  "chain_env \<Rightarrow> Currency \<Rightarrow> Block \<Rightarrow> hash \<Rightarrow> u64 \<Rightarrow> block_verification_context \<Rightarrow> Blockchain \<Rightarrow> ledger \<Rightarrow> TransactionEntry list \<Rightarrow> u64 \<Rightarrow> u64 \<Rightarrow>
   chain_error + (Blockchain \<times> block_verification_context \<times> bool)" where
  "finish_block env cur b minerTransactionHash currentDifficulty bvc c l txs cumulative_block_size fee_summary =
     (let failed = bvc\<lparr>b_verification_failed := True\<rparr>;
          n = length (m_blocks c);
          already_generated_coins = (if m_blocks c = [] then 0 else be_already_generated_coins (last (m_blocks c)))
      in (case checkCumulativeBlockSize cur cumulative_block_size (word_of_nat n) of
            None \<Rightarrow> Inl AssertFails
          | Some False \<Rightarrow> Inr (c\<lparr>m_ledger := l\<rparr>, failed, False)
          | Some True \<Rightarrow>
              (case validate_miner_transaction env cur c b (word_of_nat n) cumulative_block_size already_generated_coins fee_summary of
                 Inl e \<Rightarrow> Inl e
               | Inr None \<Rightarrow>
                   (case popTransactions txs b minerTransactionHash l of
                      Inl e \<Rightarrow> Inl e | Inr l \<Rightarrow> Inr (c\<lparr>m_ledger := l\<rparr>, failed, False))
               | Inr (Some (reward, emissionChange)) \<Rightarrow>
                   (case pushBlock_entry
                           \<lparr>be_bl = b, be_height = word_of_nat n, be_block_cumulative_size = cumulative_block_size,
                            be_cumulative_difficulty =
                              currentDifficulty + (if 0 < n then be_cumulative_difficulty (last (m_blocks c)) else 0),
                            be_already_generated_coins = already_generated_coins + emissionChange, be_transactions = txs\<rparr>
                           (c\<lparr>m_ledger := l\<rparr>) of
                      Inl e \<Rightarrow> Inl e
                    | Inr c \<Rightarrow>
                        (case detectors_pushed cur c of
                           Inl e \<Rightarrow> Inl e
                         | Inr c \<Rightarrow> Inr (update_next_cumulative_size_limit cur c, bvc\<lparr>m_added_to_main_chain := True\<rparr>, True))))))"

text \<open>\<^verbatim>\<open>pushBlock\<close> with the block's transactions.\<close>

definition pushBlock_transactions ::
  "chain_env \<Rightarrow> Currency \<Rightarrow> Block \<Rightarrow> Transaction list \<Rightarrow> block_verification_context \<Rightarrow> Blockchain \<Rightarrow>
   chain_error + (Blockchain \<times> block_verification_context \<times> bool)" where
  "pushBlock_transactions env cur b transactions bvc c =
     (case precheck_block env cur b bvc c of
        Inl bvc \<Rightarrow> Inr (c, bvc, False)
      | Inr currentDifficulty \<Rightarrow>
          (let minerTransactionHash = transaction_hash (baseTransaction b);
               ix = \<lparr>ti_block = word_of_nat (length (m_blocks c)), ti_transaction = 0\<rparr>
           in (case push_entry minerTransactionHash ix (m_ledger c, [\<lparr>te_tx = baseTransaction b, te_global_output_indexes = []\<rparr>]) of
                 Inl e \<Rightarrow> Inl e
               | Inr st \<Rightarrow>
                   (case push_transactions env cur c b transactions 0 ix st
                           (snd (getObjectBinarySize put_Transaction (baseTransaction b))) 0 of
                      Inl e \<Rightarrow> Inl e
                    | Inr (WrongInputs l txs) \<Rightarrow>
                        (case popTransactions txs b minerTransactionHash l of
                           Inl e \<Rightarrow> Inl e | Inr l \<Rightarrow> Inr (c\<lparr>m_ledger := l\<rparr>, bvc\<lparr>b_verification_failed := True\<rparr>, False))
                    | Inr (Pushed l txs cumulative_block_size fee_summary) \<Rightarrow>
                        finish_block env cur b minerTransactionHash currentDifficulty bvc c l txs cumulative_block_size fee_summary))))"

definition removeLastBlock :: "Blockchain \<Rightarrow> chain_error + Blockchain" where
  "removeLastBlock c =
     (if m_blocks c = [] then Inr c
      else (let block = last (m_blocks c)
            in (case popTransactions (be_transactions block) (be_bl block) (transaction_hash (baseTransaction (be_bl block))) (m_ledger c) of
                  Inl e \<Rightarrow> Inl e
                | Inr l \<Rightarrow>
                    (case getBlockIdByHeight c (be_height block) of
                       None \<Rightarrow> Inl OutsideVector
                     | Some blockHash \<Rightarrow>
                         (case GeneratedTransactionsIndex_remove (be_bl block) (m_generatedTransactionsIndex c) of
                            None \<Rightarrow> Inl AssertFails
                          | Some (gen, _) \<Rightarrow>
                              (case bi_pop (m_blockIndex c) of
                                 None \<Rightarrow> Inl AssertFails
                               | Some index \<Rightarrow>
                                   if unat (bi_size index) \<noteq> length (butlast (m_blocks c)) then Inl AssertFails
                                   else Inr (c\<lparr>m_ledger := l, m_blocks := butlast (m_blocks c), m_blockIndex := index,
                                               m_blocksTimestampIndex :=
                                                 fst (TimestampBlocksIndex_remove (timestamp (be_bl block)) blockHash (m_blocksTimestampIndex c)),
                                               m_generatedTransactionsIndex := gen\<rparr>)))))))"

text \<open>\<^verbatim>\<open>popBlock\<close>: the second component is the list of transactions that it hands to the memory pool, in the order of the block.\<close>

definition popBlock :: "Currency \<Rightarrow> Blockchain \<Rightarrow> chain_error + (Blockchain \<times> Transaction list)" where
  "popBlock cur c =
     (if m_blocks c = [] then Inr (c, [])
      else (let transactions = map te_tx (tl (be_transactions (last (m_blocks c))))
            in (case removeLastBlock c of
                  Inl e \<Rightarrow> Inl e
                | Inr c \<Rightarrow> (case detectors_popped cur c of Inl e \<Rightarrow> Inl e | Inr c \<Rightarrow> Inr (c, transactions)))))"

lemma removeLastBlock_blocks: "removeLastBlock c = Inr c' \<Longrightarrow> m_blocks c' = butlast (m_blocks c)"
  by (auto simp: removeLastBlock_def Let_def split: if_splits sum.splits option.splits)

text \<open>The sum of the 32-bit height and one wraps.\<close>

function rollbackBlockchainTo :: "u32 \<Rightarrow> Blockchain \<Rightarrow> chain_error + Blockchain" where
  "rollbackBlockchainTo height c =
     (if unat (height + 1) < length (m_blocks c)
      then (case removeLastBlock c of Inl e \<Rightarrow> Inl e | Inr c \<Rightarrow> rollbackBlockchainTo height c)
      else Inr c)"
  by pat_completeness auto
termination
  by (relation "measure (\<lambda>(height, c). length (m_blocks c))") (auto dest!: removeLastBlock_blocks)

declare rollbackBlockchainTo.simps [simp del]

fun check_checkpoints_loop :: "Blockchain \<Rightarrow> u32 list \<Rightarrow> u32 option \<Rightarrow> (u32 option \<times> bool) option" where
  "check_checkpoints_loop c [] lastValid = Some (lastValid, True)"
| "check_checkpoints_loop c (h # hs) lastValid =
     (if length (m_blocks c) \<le> unat h then Some (lastValid, True)
      else (case getBlockIdByHeight c h of
              None \<Rightarrow> None
            | Some blockId \<Rightarrow> if fst (check_block (m_checkpoints c) h blockId) then check_checkpoints_loop c hs (Some h) else Some (lastValid, False)))"

text \<open>The height is only written when a checkpoint was passed.\<close>

definition checkCheckpoints :: "Blockchain \<Rightarrow> (u32 option \<times> bool) option" where
  "checkCheckpoints c = check_checkpoints_loop c (getCheckpointHeights (m_checkpoints c)) None"

definition checkUpgradeHeight :: "Currency \<Rightarrow> u8 \<Rightarrow> u32 \<Rightarrow> Blockchain \<Rightarrow> bool" where
  "checkUpgradeHeight cur targetVersion votingCompleteHeight c =
     (let upgradeHeight = ud_upgradeHeight cur targetVersion votingCompleteHeight
      in if upgradeHeight \<noteq> UNDEF_HEIGHT \<and> unat (upgradeHeight + 1) < length (m_blocks c)
         then majorVersion (be_bl (m_blocks c ! unat (upgradeHeight + 1))) = targetVersion else True)"

definition getCoinsInCirculation :: "Blockchain \<Rightarrow> u64" where
  "getCoinsInCirculation c = (if m_blocks c = [] then 0 else be_already_generated_coins (last (m_blocks c)))"

definition resetAndSetGenesisBlock_clear :: "Blockchain \<Rightarrow> Blockchain" where
  "resetAndSetGenesisBlock_clear c =
     c\<lparr>m_blocks := [], m_blockIndex := bi_clear (m_blockIndex c),
       m_ledger := (m_ledger c)\<lparr>m_transactionMap := Map.empty, m_spent_keys := {}, m_outputs := Map.empty,
                                l_paymentIdIndex := index_clear (l_paymentIdIndex (m_ledger c))\<rparr>,
       m_blocksTimestampIndex := index_clear (m_blocksTimestampIndex c),
       m_generatedTransactionsIndex := GeneratedTransactionsIndex_clear (m_generatedTransactionsIndex c)\<rparr>"

section \<open>The entries of a chain\<close>

definition tx_entries :: "nat \<Rightarrow> Block \<Rightarrow> TransactionEntry list \<Rightarrow> entry list" where
  "tx_entries n b txs =
     (transaction_hash (baseTransaction b), \<lparr>ti_block = word_of_nat n, ti_transaction = 0\<rparr>, baseTransaction b) #
     map (\<lambda>i. (transactionHashes b ! i, \<lparr>ti_block = word_of_nat n, ti_transaction = word_of_nat (Suc i)\<rparr>, te_tx (txs ! Suc i))) [0..<length txs - 1]"

definition chain_entries :: "BlockEntry list \<Rightarrow> entry list" where
  "chain_entries bs = concat (map (\<lambda>n. tx_entries n (be_bl (bs ! n)) (be_transactions (bs ! n))) [0..<length bs])"

lemma chain_entries_snoc: "chain_entries (bs @ [e]) = chain_entries bs @ tx_entries (length bs) (be_bl e) (be_transactions e)"
proof -
  have "map (\<lambda>n. tx_entries n (be_bl ((bs @ [e]) ! n)) (be_transactions ((bs @ [e]) ! n))) [0..<length bs] =
    map (\<lambda>n. tx_entries n (be_bl (bs ! n)) (be_transactions (bs ! n))) [0..<length bs]"
    by (simp add: nth_append)
  then show ?thesis unfolding chain_entries_def by (simp del: map_eq_conv)
qed

lemma tx_entries_snoc:
  assumes "txs \<noteq> []"
  shows "tx_entries n b (txs @ [t]) =
    tx_entries n b txs @ [(transactionHashes b ! (length txs - 1), \<lparr>ti_block = word_of_nat n, ti_transaction = word_of_nat (length txs)\<rparr>, te_tx t)]"
proof -
  obtain m where m: "length txs = Suc m" using assms by (cases txs) auto
  have "map (\<lambda>i. (transactionHashes b ! i, \<lparr>ti_block = word_of_nat n :: u32, ti_transaction = word_of_nat (Suc i) :: u16\<rparr>, te_tx ((txs @ [t]) ! Suc i))) [0..<m] =
    map (\<lambda>i. (transactionHashes b ! i, \<lparr>ti_block = word_of_nat n, ti_transaction = word_of_nat (Suc i)\<rparr>, te_tx (txs ! Suc i))) [0..<m]"
    using m by (simp add: nth_append)
  moreover have "(txs @ [t]) ! Suc m = t" using m by (metis nth_append_length)
  ultimately show ?thesis by (simp add: tx_entries_def m)
qed

lemma tx_entries_te_tx: "map te_tx txs = map te_tx txs' \<Longrightarrow> tx_entries n b txs = tx_entries n b txs'"
proof -
  assume e: "map te_tx txs = map te_tx txs'"
  then have l: "length txs = length txs'" by (rule map_eq_imp_length_eq)
  have "te_tx (txs ! i) = te_tx (txs' ! i)" if "i < length txs" for i
    using e that l by (metis nth_map)
  then show ?thesis using l by (auto simp: tx_entries_def)
qed

lemma valid_chain_prefix: "valid_chain (es @ es') \<Longrightarrow> valid_chain es"
  by (induction es' rule: rev_induct) (auto simp: valid_chain_snoc append_assoc [symmetric] simp del: append_assoc)

section \<open>Popping a block's transactions\<close>

lemma pop_block_transactions_removes:
  assumes "n < length txs" and "n \<le> length (transactionHashes b)"
    and "valid_chain (es @ tx_entries m b (take (Suc n) txs))"
  shows "pop_block_transactions txs (transactionHashes b) n (ledger_of en (es @ tx_entries m b (take (Suc n) txs))) =
    Inr (ledger_of en (es @ tx_entries m b (take 1 txs)))"
  using assms
proof (induction n)
  case (Suc n)
  let ?ix = "\<lparr>ti_block = word_of_nat m, ti_transaction = word_of_nat (Suc n)\<rparr>"
  have e: "tx_entries m b (take (Suc (Suc n)) txs) =
      tx_entries m b (take (Suc n) txs) @ [(transactionHashes b ! n, ?ix, te_tx (txs ! Suc n))]"
    using Suc.prems(1) tx_entries_snoc [of "take (Suc n) txs" m b "txs ! Suc n"] by (simp add: take_Suc_conv_app_nth)
  let ?es = "es @ tx_entries m b (take (Suc n) txs)"
  have v: "valid_chain (?es @ [(transactionHashes b ! n, ?ix, te_tx (txs ! Suc n))])" using Suc.prems(3) by (simp add: e)
  have "popTransaction (te_tx (txs ! Suc n)) (transactionHashes b ! n) (ledger_of en (es @ tx_entries m b (take (Suc (Suc n)) txs))) =
      Inr (ledger_of en ?es)"
    using pop_refines [OF v, of en] by (simp add: e)
  moreover have "valid_chain ?es" using v by (rule valid_chain_prefix)
  ultimately show ?case using Suc by (simp add: Suc.IH)
qed simp

lemma popTransactions_removes:
  assumes "txs \<noteq> []" and "length txs \<le> Suc (length (transactionHashes b))" and "valid_chain (es @ tx_entries m b txs)"
  shows "popTransactions txs b (transaction_hash (baseTransaction b)) (ledger_of en (es @ tx_entries m b txs)) = Inr (ledger_of en es)"
proof -
  let ?n = "length txs - 1" and ?e = "(transaction_hash (baseTransaction b), \<lparr>ti_block = word_of_nat m, ti_transaction = 0\<rparr>, baseTransaction b)"
  have n: "?n < length txs" "?n \<le> length (transactionHashes b)" "take (Suc ?n) txs = txs"
    using assms by (cases txs; auto)+
  have one: "tx_entries m b (take 1 txs) = [?e]" using assms(1) by (cases txs) (simp_all add: tx_entries_def)
  have "tx_entries m b txs = ?e # tl (tx_entries m b txs)" by (simp add: tx_entries_def)
  then have "valid_chain ((es @ [?e]) @ tl (tx_entries m b txs))" using assms(3) by simp
  then have v: "valid_chain (es @ [?e])" by (rule valid_chain_prefix)
  show ?thesis
    using pop_block_transactions_removes [OF n(1,2), of es m en] assms(3) pop_refines [OF v, of en]
    by (simp add: popTransactions_def n(3) one del: take_Suc_conv_app_nth One_nat_def)
qed

section \<open>Accepted inputs are fresh\<close>

definition is_base_input :: "TransactionInput \<Rightarrow> bool" where
  "is_base_input i = (case i of TxBaseInput _ \<Rightarrow> True | _ \<Rightarrow> False)"

definition unused_output :: "ledger \<Rightarrow> u64 \<times> nat \<Rightarrow> bool" where
  "unused_output l r = (case m_multisignatureOutputs l (fst r) of None \<Rightarrow> False | Some outs \<Rightarrow> snd r < length outs \<and> \<not> mu_isUsed (outs ! snd r))"

lemma validateInput_unused:
  "validateInput env cur c m ph sigs = Inr True \<Longrightarrow> unused_output (m_ledger c) (mi_amount m, unat (mi_outputIndex m))"
  by (auto simp: validateInput_def unused_output_def Let_def split: option.splits if_splits)

lemma check_inputs_loop_fresh:
  assumes "check_inputs_loop env cur c ph ins sigs mx = Inr (True, mx')"
  shows "list_all (\<lambda>i. \<not> is_base_input i) ins \<and> set (images ins) \<inter> m_spent_keys (m_ledger c) = {} \<and>
    (isInCheckpointZone c (getCurrentBlockchainHeight c) \<or> list_all (unused_output (m_ledger c)) (msig_refs ins))"
  using assms
proof (induction env cur c ph ins sigs mx rule: check_inputs_loop.induct)
  case (3 env cur c ph k ins sig sigs mx)
  then show ?case by (auto simp: is_base_input_def have_tx_keyimg_as_spent_def split: if_splits sum.splits prod.splits bool.splits)
next
  case (4 env cur c ph m ins sig sigs mx)
  then show ?case by (auto simp: is_base_input_def split: if_splits sum.splits bool.splits dest: validateInput_unused)
qed auto

lemma unused_ledger_of:
  "unused_output (ledger_of en es) (a, j) \<longleftrightarrow> j < length (all_msig_outs es a) \<and> (a, j) \<notin> all_refs es"
proof (cases "all_msig_outs es a = []")
  case True
  then show ?thesis by (simp add: unused_output_def ledger_of_def opt_list_def usage_def)
next
  case False
  then have "usage a (all_refs es) (all_msig_outs es a) \<noteq> []" by (simp add: usage_def)
  then show ?thesis by (auto simp: unused_output_def ledger_of_def opt_list_def) (simp_all add: usage_def)
qed

text \<open>What the semantic checks of the core give for every transaction that enters the pool.\<close>

definition tx_ok :: "Transaction \<Rightarrow> bool" where
  "tx_ok tx \<longleftrightarrow> inputs tx \<noteq> [] \<and> distinct (images (inputs tx)) \<and> distinct (msig_refs (inputs tx)) \<and> length (outputs tx) \<le> 65535"

definition hashes_ok :: "entry list \<Rightarrow> bool" where
  "hashes_ok es \<longleftrightarrow> list_all (\<lambda>(h, ix, tx). h = transaction_hash tx) es"

definition txs_of :: "entry list \<Rightarrow> Transaction set" where
  "txs_of es = (\<lambda>(h, ix, tx). tx) ` set es"

lemma spends_something:
  "inputs tx \<noteq> [] \<Longrightarrow> list_all (\<lambda>i. \<not> is_base_input i) (inputs tx) \<Longrightarrow> images (inputs tx) \<noteq> [] \<or> msig_refs (inputs tx) \<noteq> []"
proof -
  assume "inputs tx \<noteq> []" "list_all (\<lambda>i. \<not> is_base_input i) (inputs tx)"
  then obtain i ins where "inputs tx = i # ins" "\<not> is_base_input i" by (cases "inputs tx") auto
  then show ?thesis by (cases i) (auto simp: is_base_input_def)
qed

lemma hash_fresh:
  assumes "hashes_ok es" and "inj_on transaction_hash (insert tx (txs_of es))" and "tx \<notin> txs_of es"
  shows "transaction_hash tx \<notin> fst ` set es" and "transaction_hash tx \<notin> (\<lambda>(h, ix, tx). transaction_hash tx) ` set es"
proof -
  show t: "transaction_hash tx \<notin> (\<lambda>(h, ix, tx). transaction_hash tx) ` set es"
  proof
    assume "transaction_hash tx \<in> (\<lambda>(h, ix, tx). transaction_hash tx) ` set es"
    then obtain h ix tx' where e: "(h, ix, tx') \<in> set es" "transaction_hash tx = transaction_hash tx'" by auto
    then have "tx' \<in> txs_of es" by (force simp: txs_of_def)
    then show False using inj_onD [OF assms(2) e(2)] assms(3) by auto
  qed
  show "transaction_hash tx \<notin> fst ` set es"
  proof
    assume "transaction_hash tx \<in> fst ` set es"
    then obtain h ix tx' where e: "(h, ix, tx') \<in> set es" "transaction_hash tx = h" by auto
    then have "h = transaction_hash tx'" using assms(1) by (auto simp: hashes_ok_def list_all_iff)
    then show False using t e by force
  qed
qed

lemma accepted_valid:
  assumes "valid_chain es" and "hashes_ok es" and "m_ledger c = ledger_of en es" and "tx_ok tx"
    and "bc_checkTransactionInputs env cur c tx = Inr (True, mx)"
    and "isInCheckpointZone c (getCurrentBlockchainHeight c) \<Longrightarrow> msig_refs (inputs tx) = []"
    and "inj_on transaction_hash (insert tx (txs_of es))"
  shows "valid_entry es (transaction_hash tx, ix, tx)"
proof -
  have f: "list_all (\<lambda>i. \<not> is_base_input i) (inputs tx)" "set (images (inputs tx)) \<inter> all_images es = {}"
    "list_all (unused_output (ledger_of en es)) (msig_refs (inputs tx))"
    using check_inputs_loop_fresh [OF assms(5) [unfolded bc_checkTransactionInputs_def]] assms(6)
    by (auto simp: assms(3) ledger_of_def)
  have r: "(a, j) \<notin> all_refs es" "j < length (all_msig_outs es a)" if "(a, j) \<in> set (msig_refs (inputs tx))" for a j
    using f(3) that by (auto simp: list_all_iff unused_ledger_of)
  have "tx \<notin> txs_of es"
  proof
    assume "tx \<in> txs_of es"
    then obtain h ix where "(h, ix, tx) \<in> set es" by (auto simp: txs_of_def)
    then have s: "set (images (inputs tx)) \<subseteq> all_images es" "set (msig_refs (inputs tx)) \<subseteq> all_refs es"
      by (force simp: all_images_def all_refs_def)+
    have "images (inputs tx) \<noteq> [] \<or> msig_refs (inputs tx) \<noteq> []" using assms(4) f(1) by (intro spends_something) (simp_all add: tx_ok_def)
    then show False
    proof
      assume "images (inputs tx) \<noteq> []"
      then show False using s(1) f(2) by (cases "images (inputs tx)") auto
    next
      assume "msig_refs (inputs tx) \<noteq> []"
      then obtain a j where "(a, j) \<in> set (msig_refs (inputs tx))" by (cases "msig_refs (inputs tx)") auto
      then show False using s(2) r(1) by blast
    qed
  qed
  from hash_fresh [OF assms(2,7) this] show ?thesis
    using assms(4) f(2) r by (auto simp: valid_entry_def tx_ok_def)
qed

section \<open>The loop over a block's transactions\<close>

lemma push_entry_refines:
  assumes "valid_chain es" and "valid_entry es (h, ix, tx)" and "unat (ti_transaction ix) < length txs"
    and "te_tx (txs ! unat (ti_transaction ix)) = tx"
  obtains txs' where "push_entry h ix (ledger_of en es, txs) = Inr (ledger_of en (es @ [(h, ix, tx)]), txs')" and "map te_tx txs' = map te_tx txs"
proof -
  obtain gs where "pushTransaction tx h ix (ledger_of en es) = Inr (ledger_of en (es @ [(h, ix, tx)]), Some gs)"
    using push_refines [OF assms(1,2), of en] by blast
  then have push: "push_entry h ix (ledger_of en es, txs) =
      Inr (ledger_of en (es @ [(h, ix, tx)]), txs[unat (ti_transaction ix) := (txs ! unat (ti_transaction ix))\<lparr>te_global_output_indexes := gs\<rparr>])"
    using assms(4) by (simp add: push_entry_def Let_def)
  show thesis
    by (rule that [OF push]) (use assms(3) in \<open>auto simp: map_update intro!: nth_equalityI simp: nth_list_update\<close>)
qed

definition bases_ok :: "entry list \<Rightarrow> bool" where
  "bases_ok es \<longleftrightarrow> list_all (\<lambda>(h, ix, tx). \<forall>i. TxBaseInput i \<in> set (inputs tx) \<longrightarrow> bi_blockIndex i = ti_block ix) es"

definition entries_ok :: "entry list \<Rightarrow> bool" where
  "entries_ok es \<longleftrightarrow> valid_chain es \<and> hashes_ok es \<and> bases_ok es"

lemma entries_ok_snoc:
  "entries_ok (es @ [(h, ix, tx)]) \<longleftrightarrow> entries_ok es \<and> valid_entry es (h, ix, tx) \<and> h = transaction_hash tx \<and>
     (\<forall>i. TxBaseInput i \<in> set (inputs tx) \<longrightarrow> bi_blockIndex i = ti_block ix)"
  by (auto simp: entries_ok_def valid_chain_snoc hashes_ok_def bases_ok_def)

lemma entries_ok_prefix: "entries_ok (es @ es') \<Longrightarrow> entries_ok es"
  using valid_chain_prefix [of es es'] by (auto simp: entries_ok_def hashes_ok_def bases_ok_def)

definition loop_ledger :: "loop_result \<Rightarrow> ledger" where
  "loop_ledger r = (case r of WrongInputs l _ \<Rightarrow> l | Pushed l _ _ _ \<Rightarrow> l)"

definition loop_entries :: "loop_result \<Rightarrow> TransactionEntry list" where
  "loop_entries r = (case r of WrongInputs _ txs \<Rightarrow> txs | Pushed _ txs _ _ \<Rightarrow> txs)"

definition loop_complete :: "loop_result \<Rightarrow> bool" where
  "loop_complete r = (case r of WrongInputs _ _ \<Rightarrow> False | Pushed _ _ _ _ \<Rightarrow> True)"

lemma check_no_base:
  "bc_checkTransactionInputs env cur c tx = Inr (True, mx) \<Longrightarrow> TxBaseInput i \<notin> set (inputs tx)"
  unfolding bc_checkTransactionInputs_def by (drule check_inputs_loop_fresh) (auto simp: list_all_iff is_base_input_def)

lemma zone_ledger [simp]: "isInCheckpointZone (c\<lparr>m_ledger := l\<rparr>) h = isInCheckpointZone c h"
  "getCurrentBlockchainHeight (c\<lparr>m_ledger := l\<rparr>) = getCurrentBlockchainHeight c"
  by (simp_all add: isInCheckpointZone_def getCurrentBlockchainHeight_def)

lemma txs_of_append: "txs_of (es @ es') = txs_of es \<union> txs_of es'"
  by (simp add: txs_of_def image_Un)

lemma push_transactions_refines:
  assumes "entries_ok (es @ tx_entries n b txs)" and "length txs = Suc i" and "i + length rest \<le> 65535"
    and "drop i (transactionHashes b) = map transaction_hash rest" and "list_all tx_ok rest"
    and "isInCheckpointZone c (getCurrentBlockchainHeight c) \<Longrightarrow> list_all (\<lambda>tx. msig_refs (inputs tx) = []) rest"
    and "inj_on transaction_hash (set rest \<union> txs_of (es @ tx_entries n b txs))"
    and "push_transactions env cur c b rest i \<lparr>ti_block = word_of_nat n, ti_transaction = word_of_nat i\<rparr>
           (ledger_of en (es @ tx_entries n b txs), txs) s f = Inr r"
  shows "loop_ledger r = ledger_of en (es @ tx_entries n b (loop_entries r)) \<and> entries_ok (es @ tx_entries n b (loop_entries r)) \<and>
    (\<exists>k\<le>length rest. map te_tx (loop_entries r) = map te_tx txs @ take k rest \<and> (loop_complete r \<longrightarrow> k = length rest))"
  using assms
proof (induction rest arbitrary: txs i s f)
  case Nil
  then show ?case by (auto simp: loop_ledger_def loop_entries_def)
next
  case (Cons tx rest)
  let ?es = "es @ tx_entries n b txs" and ?ix = "\<lparr>ti_block = word_of_nat n :: u32, ti_transaction = word_of_nat (Suc i) :: u16\<rparr>"
  let ?t = "\<lparr>te_tx = tx, te_global_output_indexes = []\<rparr>" and ?c = "c\<lparr>m_ledger := ledger_of en (es @ tx_entries n b txs)\<rparr>"
  let ?h = "transactionHashes b ! i"
  have i: "i < length (transactionHashes b)" "?h = transaction_hash tx" "drop (Suc i) (transactionHashes b) = map transaction_hash rest"
  proof -
    show l: "i < length (transactionHashes b)" using Cons.prems(4) by (metis drop_all linorder_not_le list.distinct(1) list.map(2))
    show "?h = transaction_hash tx" "drop (Suc i) (transactionHashes b) = map transaction_hash rest"
      using Cons.prems(4) Cons_nth_drop_Suc [OF l] by simp_all
  qed
  have u: "unat (ti_transaction ?ix) = Suc i" using Cons.prems(3) by (simp add: unat_of_nat del: of_nat_Suc)
  have ne: "txs \<noteq> []" using Cons.prems(2) by auto
  have snoc: "es @ tx_entries n b (txs @ [?t]) = ?es @ [(transaction_hash tx, ?ix, tx)]"
    by (simp add: tx_entries_snoc [OF ne] Cons.prems(2) i(2))
  show ?case
  proof (cases "bc_checkTransactionInputs env cur ?c tx")
    case (Inr p)
    obtain ok mx where p: "p = (ok, mx)" by (cases p)
    show ?thesis
    proof (cases ok)
      case False
      then have "r = WrongInputs (ledger_of en ?es) txs" using Cons.prems(8) i(1) Inr p by (simp add: Let_def)
      then show ?thesis using Cons.prems(1)
        by (auto simp: loop_ledger_def loop_entries_def loop_complete_def intro!: exI [of _ 0])
    next
      case True
      have acc: "bc_checkTransactionInputs env cur ?c tx = Inr (True, mx)" using Inr p True by simp
      have v: "valid_entry ?es (transaction_hash tx, ?ix, tx)"
      proof (rule accepted_valid [OF _ _ _ _ acc])
        show "inj_on transaction_hash (insert tx (txs_of ?es))" by (rule inj_on_subset [OF Cons.prems(7)]) auto
      qed (use Cons.prems(1,5,6) in \<open>auto simp: entries_ok_def\<close>)
      have ok': "entries_ok (es @ tx_entries n b (txs @ [?t]))"
        unfolding snoc entries_ok_snoc using Cons.prems(1) v check_no_base [OF acc] by blast
      have "te_tx ((txs @ [?t]) ! unat (ti_transaction ?ix)) = tx" "unat (ti_transaction ?ix) < length (txs @ [?t])"
        using Cons.prems(2) by (simp_all only: u) (simp_all add: nth_append)
      then obtain txs' where push: "push_entry (transaction_hash tx) ?ix (ledger_of en ?es, txs @ [?t]) =
          Inr (ledger_of en (es @ tx_entries n b (txs @ [?t])), txs')" and same: "map te_tx txs' = map te_tx (txs @ [?t])"
        using push_entry_refines [of ?es _ ?ix tx "txs @ [?t]" en] Cons.prems(1) v unfolding entries_ok_def snoc by metis
      have ent: "tx_entries n b txs' = tx_entries n b (txs @ [?t])" using tx_entries_te_tx [OF same] .
      have len: "length txs' = Suc (Suc i)" using map_eq_imp_length_eq [OF same] Cons.prems(2) by simp
      have inj: "inj_on transaction_hash (set rest \<union> txs_of (es @ tx_entries n b txs'))"
        by (rule inj_on_subset [OF Cons.prems(7)]) (auto simp: ent snoc txs_of_append [of "_ @ _"]; auto simp: txs_of_def)
      have run: "\<exists>s' f'. push_transactions env cur c b rest (Suc i) ?ix (ledger_of en (es @ tx_entries n b txs'), txs') s' f' = Inr r"
        using Cons.prems(8) i acc push by (auto simp: Let_def ent add.commute)
      then obtain s' f' where run: "push_transactions env cur c b rest (Suc i) ?ix (ledger_of en (es @ tx_entries n b txs'), txs') s' f' = Inr r"
        by blast
      have "loop_ledger r = ledger_of en (es @ tx_entries n b (loop_entries r)) \<and> entries_ok (es @ tx_entries n b (loop_entries r)) \<and>
        (\<exists>k\<le>length rest. map te_tx (loop_entries r) = map te_tx txs' @ take k rest \<and> (loop_complete r \<longrightarrow> k = length rest))"
        by (rule Cons.IH [OF _ len _ i(3) _ _ inj run]) (use Cons.prems ok' ent in auto)
      then obtain k where k: "k \<le> length rest" "map te_tx (loop_entries r) = map te_tx txs' @ take k rest" "loop_complete r \<longrightarrow> k = length rest"
        "loop_ledger r = ledger_of en (es @ tx_entries n b (loop_entries r))" "entries_ok (es @ tx_entries n b (loop_entries r))" by blast
      then show ?thesis using same by (auto intro!: exI [of _ "Suc k"])
    qed
  qed (use Cons.prems(8) i(1) in \<open>simp add: Let_def\<close>)
qed

section \<open>The invariant of the chain\<close>

definition block_id :: "BlockEntry \<Rightarrow> hash" where
  "block_id e = snd (getBlockHash (be_bl e))"

definition block_ok :: "nat \<Rightarrow> BlockEntry \<Rightarrow> bool" where
  "block_ok n e \<longleftrightarrow> be_height e = word_of_nat n \<and> OrphanBlocksIndex_height (be_bl e) = Some (word_of_nat n) \<and>
     length (be_transactions e) = Suc (length (transactionHashes (be_bl e)))"

definition times_ok :: "BlockEntry list \<Rightarrow> u64 hash_index \<Rightarrow> bool" where
  "times_ok bs i \<longleftrightarrow> (hi_enabled i \<longrightarrow> mset (hi_index i) = mset (map (\<lambda>e. (timestamp (be_bl e), block_id e)) bs))"

definition generated_ok :: "BlockEntry list \<Rightarrow> GeneratedTransactionsIndex \<Rightarrow> bool" where
  "generated_ok bs i \<longleftrightarrow> (gi_enabled i \<longrightarrow> generated_inv (map be_bl bs) i)"

definition blocks_inv :: "Blockchain \<Rightarrow> bool" where
  "blocks_inv c \<longleftrightarrow> length (m_blocks c) < 2 ^ 32 \<and> m_blockIndex c = map block_id (m_blocks c) \<and> distinct (m_blockIndex c) \<and>
     (\<forall>n < length (m_blocks c). block_ok n (m_blocks c ! n)) \<and> times_ok (m_blocks c) (m_blocksTimestampIndex c) \<and>
     generated_ok (m_blocks c) (m_generatedTransactionsIndex c)"

definition chain_inv :: "bool \<Rightarrow> Blockchain \<Rightarrow> bool" where
  "chain_inv en c \<longleftrightarrow> blocks_inv c \<and> entries_ok (chain_entries (m_blocks c)) \<and> m_ledger c = ledger_of en (chain_entries (m_blocks c))"

lemma mset_emplace: "mset (mmap_emplace k v m) = add_mset (k, v) (mset m)"
proof -
  have "mset (takeWhile P m) + mset (dropWhile P m) = mset m" for P by (metis mset_append takeWhile_dropWhile_id)
  then show ?thesis by (simp add: mmap_emplace_def)
qed

lemma mset_erase: "mset (fst (erase_entry k v m)) = mset m - {#(k, v)#}"
  by (induction m) (auto split: prod.splits)

lemma erase_entry_new: "(k, v) \<notin> set xs \<Longrightarrow> erase_entry k v (xs @ (k, v) # ys) = (xs @ ys, True)"
  by (induction xs) auto

lemma erase_emplace: "(k, v) \<notin> set m \<Longrightarrow> erase_entry k v (mmap_emplace k v m) = (m, True)"
  using erase_entry_new [of k v "takeWhile (\<lambda>(k', _). k' \<le> k) m" "dropWhile (\<lambda>(k', _). k' \<le> k) m"] set_takeWhileD
  by (force simp: mmap_emplace_def)

lemma times_add:
  assumes "times_ok bs i"
  shows "times_ok (bs @ [e]) (fst (TimestampBlocksIndex_add (timestamp (be_bl e)) (block_id e) i))"
  using assms by (simp add: times_ok_def TimestampBlocksIndex_add_def mset_emplace)

lemma times_remove:
  assumes "times_ok (bs @ [e]) i"
  shows "times_ok bs (fst (TimestampBlocksIndex_remove (timestamp (be_bl e)) (block_id e) i))"
  using assms mset_erase [of "timestamp (be_bl e)" "block_id e" "hi_index i"]
  by (auto simp: times_ok_def TimestampBlocksIndex_remove_def split: prod.splits)

lemma times_add_remove:
  assumes "times_ok bs i" and "block_id e \<notin> block_id ` set bs"
  shows "fst (TimestampBlocksIndex_remove (timestamp (be_bl e)) (block_id e)
    (fst (TimestampBlocksIndex_add (timestamp (be_bl e)) (block_id e) i))) = i"
proof (cases "hi_enabled i")
  case True
  have "set (hi_index i) = set (map (\<lambda>e. (timestamp (be_bl e), block_id e)) bs)"
    using assms(1) True unfolding times_ok_def by (intro mset_eq_setD) simp
  then have "(timestamp (be_bl e), block_id e) \<notin> set (hi_index i)" using assms(2) by auto
  then show ?thesis using True by (simp add: TimestampBlocksIndex_remove_def TimestampBlocksIndex_add_def erase_emplace)
qed (simp add: TimestampBlocksIndex_remove_def TimestampBlocksIndex_add_def)

lemma generated_add_ok:
  assumes "generated_ok bs i" and "length bs < 2 ^ 32" and "OrphanBlocksIndex_height (be_bl e) = Some (word_of_nat (length bs))"
  obtains i' r where "GeneratedTransactionsIndex_add (be_bl e) i = Some (i', r)" and "generated_ok (bs @ [e]) i'" and "gi_enabled i' = gi_enabled i"
proof (cases "gi_enabled i")
  case True
  then have "\<exists>i'. GeneratedTransactionsIndex_add (be_bl e) i = Some (i', True) \<and> generated_inv (map be_bl bs @ [be_bl e]) i'"
    using generated_transactions_totals [of "map be_bl bs" "be_bl e" i] assms by (simp add: generated_ok_def)
  then show thesis using that True by (auto simp: generated_ok_def generated_inv_def)
next
  case False
  show thesis by (rule that [of i False]) (use False in \<open>simp_all add: GeneratedTransactionsIndex_add_def generated_ok_def\<close>)
qed

lemma generated_remove_ok:
  assumes "generated_ok (bs @ [e]) i" and "length bs < 2 ^ 32" and "OrphanBlocksIndex_height (be_bl e) = Some (word_of_nat (length bs))"
  obtains i' r where "GeneratedTransactionsIndex_remove (be_bl e) i = Some (i', r)" and "generated_ok bs i'" and "gi_enabled i' = gi_enabled i"
    and "gi_enabled i \<or> i' = i"
proof (cases "gi_enabled i")
  case True
  then have "\<exists>i'. GeneratedTransactionsIndex_remove (be_bl e) i = Some (i', True) \<and> generated_inv (map be_bl bs) i'"
    using generated_transactions_totals [of "map be_bl bs" "be_bl e" i] assms by (simp add: generated_ok_def)
  then show thesis using that True by (auto simp: generated_ok_def generated_inv_def)
next
  case False
  show thesis by (rule that [of i False]) (use False in \<open>simp_all add: GeneratedTransactionsIndex_remove_def generated_ok_def\<close>)
qed

lemma generated_unique: "generated_inv bs i \<Longrightarrow> generated_inv bs i' \<Longrightarrow> i = i'"
  by (cases i; cases i') (simp add: generated_inv_def)

text \<open>Appending an entry.\<close>

lemma pushBlock_entry_inv:
  assumes "blocks_inv c" and "Suc (length (m_blocks c)) < 2 ^ 32" and "block_id e \<notin> set (m_blockIndex c)" and "block_ok (length (m_blocks c)) e"
  obtains c' where "pushBlock_entry e c = Inr c'" and "blocks_inv c'" and "m_blocks c' = m_blocks c @ [e]" and "m_ledger c' = m_ledger c"
    and "m_blocksTimestampIndex c' = fst (TimestampBlocksIndex_add (timestamp (be_bl e)) (block_id e) (m_blocksTimestampIndex c))"
    and "gi_enabled (m_generatedTransactionsIndex c') = gi_enabled (m_generatedTransactionsIndex c)"
    and "gi_enabled (m_generatedTransactionsIndex c) \<or> m_generatedTransactionsIndex c' = m_generatedTransactionsIndex c"
proof -
  have b: "m_blockIndex c = map block_id (m_blocks c)" "generated_ok (m_blocks c) (m_generatedTransactionsIndex c)"
    "OrphanBlocksIndex_height (be_bl e) = Some (word_of_nat (length (m_blocks c)))"
    using assms by (auto simp: blocks_inv_def block_ok_def)
  obtain i r where g: "GeneratedTransactionsIndex_add (be_bl e) (m_generatedTransactionsIndex c) = Some (i, r)"
    "generated_ok (m_blocks c @ [e]) i" "gi_enabled i = gi_enabled (m_generatedTransactionsIndex c)"
    by (rule generated_add_ok [OF b(2) Suc_lessD [OF assms(2)] b(3)])
  have g': "gi_enabled (m_generatedTransactionsIndex c) \<or> i = m_generatedTransactionsIndex c"
    using g(1) by (cases "gi_enabled (m_generatedTransactionsIndex c)") (simp_all add: GeneratedTransactionsIndex_add_def)
  have ix: "fst (bi_push (block_id e) (m_blockIndex c)) = m_blockIndex c @ [block_id e]" using assms(3) by (simp add: bi_push_def)
  have sz: "unat (bi_size (m_blockIndex c @ [block_id e])) = length (m_blocks c @ [e])"
    using unat_height [OF assms(2)] by (simp add: bi_size_def b(1))
  let ?c = "c\<lparr>m_blocks := m_blocks c @ [e], m_blockIndex := m_blockIndex c @ [block_id e],
    m_blocksTimestampIndex := fst (TimestampBlocksIndex_add (timestamp (be_bl e)) (block_id e) (m_blocksTimestampIndex c)),
    m_generatedTransactionsIndex := i\<rparr>"
  have "pushBlock_entry e c = Inr ?c"
    unfolding pushBlock_entry_def Let_def block_id_def [symmetric] ix g(1) sz by (simp only: option.case prod.case not_True_eq_False if_False simp_thms)
  moreover have "blocks_inv ?c"
  proof -
    have "block_ok n ((m_blocks c @ [e]) ! n)" if "n < Suc (length (m_blocks c))" for n
    proof (cases "n = length (m_blocks c)")
      case False
      then show ?thesis using that assms(1) by (simp add: blocks_inv_def nth_append)
    qed (use assms(4) in simp)
    moreover have "times_ok (m_blocks c) (m_blocksTimestampIndex c)" "distinct (m_blockIndex c)"
      using assms(1) unfolding blocks_inv_def by blast+
    ultimately show ?thesis using assms(2,3) g(2) times_add [of "m_blocks c" "m_blocksTimestampIndex c" e] b(1)
      by (simp add: blocks_inv_def)
  qed
  ultimately show thesis by (rule that) (use g(3) g' in simp_all)
qed

text \<open>Removing the last block.\<close>

lemma removeLastBlock_inv:
  assumes "chain_inv en c" and "m_blocks c = bs @ [e]"
  obtains c' where "removeLastBlock c = Inr c'" and "chain_inv en c'" and "m_blocks c' = bs"
    and "m_blocksTimestampIndex c' = fst (TimestampBlocksIndex_remove (timestamp (be_bl e)) (block_id e) (m_blocksTimestampIndex c))"
    and "gi_enabled (m_generatedTransactionsIndex c') = gi_enabled (m_generatedTransactionsIndex c)"
    and "gi_enabled (m_generatedTransactionsIndex c) \<or> m_generatedTransactionsIndex c' = m_generatedTransactionsIndex c"
proof -
  have b: "blocks_inv c" "entries_ok (chain_entries bs @ tx_entries (length bs) (be_bl e) (be_transactions e))"
    "m_ledger c = ledger_of en (chain_entries bs @ tx_entries (length bs) (be_bl e) (be_transactions e))"
    using assms by (simp_all add: chain_inv_def chain_entries_snoc)
  have k: "block_ok (length bs) e" "length bs < 2 ^ 32" "m_blockIndex c = map block_id bs @ [block_id e]" "distinct (map block_id bs)"
    "\<forall>n < length bs. block_ok n (bs ! n)" "times_ok (bs @ [e]) (m_blocksTimestampIndex c)" "generated_ok (bs @ [e]) (m_generatedTransactionsIndex c)"
    "OrphanBlocksIndex_height (be_bl e) = Some (word_of_nat (length bs))"
  proof -
    have n: "block_ok n ((bs @ [e]) ! n)" if "n < Suc (length bs)" for n using b(1) assms(2) that by (simp add: blocks_inv_def)
    show "block_ok (length bs) e" using n [of "length bs"] by simp
    then show "OrphanBlocksIndex_height (be_bl e) = Some (word_of_nat (length bs))" by (simp add: block_ok_def)
    show "\<forall>n < length bs. block_ok n (bs ! n)"
    proof (intro allI impI)
      fix m assume "m < length bs"
      then show "block_ok m (bs ! m)" using n [of m] by (simp add: nth_append)
    qed
    have "m_blockIndex c = map block_id (m_blocks c)" "distinct (m_blockIndex c)" using b(1) unfolding blocks_inv_def by blast+
    then show "distinct (map block_id bs)" by (simp add: assms(2))
  qed (use b(1) assms(2) in \<open>simp_all add: blocks_inv_def\<close>)
  have "be_transactions e \<noteq> []" "length (be_transactions e) \<le> Suc (length (transactionHashes (be_bl e)))" using k(1) by (auto simp: block_ok_def)
  then have pop: "popTransactions (be_transactions e) (be_bl e) (transaction_hash (baseTransaction (be_bl e))) (m_ledger c) =
      Inr (ledger_of en (chain_entries bs))"
    unfolding b(3) by (rule popTransactions_removes) (use b(2) in \<open>simp add: entries_ok_def\<close>)
  obtain i r where g: "GeneratedTransactionsIndex_remove (be_bl e) (m_generatedTransactionsIndex c) = Some (i, r)" "generated_ok bs i"
    "gi_enabled i = gi_enabled (m_generatedTransactionsIndex c)" "gi_enabled (m_generatedTransactionsIndex c) \<or> i = m_generatedTransactionsIndex c"
    by (rule generated_remove_ok [OF k(7,2) k(8)])
  have h: "getBlockIdByHeight c (be_height e) = Some (block_id e)"
    using k(1,2) by (simp add: getBlockIdByHeight_def getBlockId_def k(3) block_ok_def unat_of_nat nth_append)
  let ?c = "c\<lparr>m_ledger := ledger_of en (chain_entries bs), m_blocks := bs, m_blockIndex := map block_id bs,
    m_blocksTimestampIndex := fst (TimestampBlocksIndex_remove (timestamp (be_bl e)) (block_id e) (m_blocksTimestampIndex c)),
    m_generatedTransactionsIndex := i\<rparr>"
  have "removeLastBlock c = Inr ?c"
    using k(2) pop h g(1) by (simp add: removeLastBlock_def assms(2) bi_pop_def k(3) bi_size_def unat_of_nat)
  moreover have "chain_inv en ?c"
    unfolding chain_inv_def blocks_inv_def using entries_ok_prefix [OF b(2)] k(2,4,5) g(2) times_remove [OF k(6)] by simp
  ultimately show thesis by (rule that) (use g(3,4) in simp_all)
qed

section \<open>Pushing a block\<close>

definition blob_size :: "Transaction \<Rightarrow> u64" where
  "blob_size tx = (case toBinaryArray put_Transaction tx of None \<Rightarrow> 0 | Some ba \<Rightarrow> word_of_nat (length ba))"

definition block_size :: "Block \<Rightarrow> Transaction list \<Rightarrow> u64" where
  "block_size b transactions = snd (getObjectBinarySize put_Transaction (baseTransaction b)) + sum_list (map blob_size transactions)"

text \<open>
  What a block needs before it is pushed: the transactions are the ones that its hashes name, each passed the semantic checks of the core, and no
  two transactions of the chain and the block have the same hash. Inside the zone of the checkpoints inputs with several signatures are not checked.
\<close>

definition block_txs_ok :: "Blockchain \<Rightarrow> Block \<Rightarrow> Transaction list \<Rightarrow> bool" where
  "block_txs_ok c b transactions \<longleftrightarrow>
     transactionHashes b = map transaction_hash transactions \<and> list_all tx_ok transactions \<and> length transactions \<le> 65535 \<and>
     length (outputs (baseTransaction b)) \<le> 65535 \<and> Suc (length (m_blocks c)) < 2 ^ 32 \<and>
     (isInCheckpointZone c (getCurrentBlockchainHeight c) \<longrightarrow> list_all (\<lambda>tx. msig_refs (inputs tx) = []) transactions) \<and>
     inj_on transaction_hash (insert (baseTransaction b) (set transactions \<union> txs_of (chain_entries (m_blocks c))))"

lemma push_transactions_size:
  "push_transactions env cur c b rest i ix st s f = Inr (Pushed l txs s' f') \<Longrightarrow> s' = s + sum_list (map blob_size rest)"
proof (induction rest arbitrary: i ix st s f)
  case Nil
  then show ?case by (cases st) simp
next
  case (Cons tx rest)
  obtain l0 txs0 where st: "st = (l0, txs0)" by (cases st)
  from Cons.prems show ?case
    unfolding st by (auto simp: Let_def blob_size_def add.assoc dest!: Cons.IH split: if_splits sum.splits prod.splits bool.splits)
qed

lemma chain_entries_block:
  "(h, ix, tx) \<in> set (chain_entries bs) \<Longrightarrow> \<exists>n < length bs. ti_block ix = word_of_nat n"
  by (auto simp: chain_entries_def tx_entries_def)

lemma base_valid:
  assumes "entries_ok (chain_entries bs)" and "length bs < 2 ^ 32" and "inputs tx = [TxBaseInput i]" and "bi_blockIndex i = word_of_nat (length bs)"
    and "inj_on transaction_hash (insert tx (txs_of (chain_entries bs)))" and "length (outputs tx) \<le> 65535"
  shows "valid_entry (chain_entries bs) (transaction_hash tx, ix, tx)"
proof -
  have "tx \<notin> txs_of (chain_entries bs)"
  proof
    assume "tx \<in> txs_of (chain_entries bs)"
    then obtain h ix where e: "(h, ix, tx) \<in> set (chain_entries bs)" by (auto simp: txs_of_def)
    then have "bi_blockIndex i = ti_block ix" using assms(1,3) by (auto simp: entries_ok_def bases_ok_def list_all_iff)
    moreover obtain n where "n < length bs" "ti_block ix = word_of_nat n" using chain_entries_block [OF e] by blast
    ultimately show False using assms(2,4) unat_height [of n] unat_height [of "length bs"] by simp
  qed
  then show ?thesis
    using hash_fresh [OF _ assms(5)] assms(1,6) by (simp add: valid_entry_def entries_ok_def assms(3))
qed

lemma prevalidate_base:
  assumes "prevalidate_miner_transaction cur b h"
  obtains i where "inputs (baseTransaction b) = [TxBaseInput i]" and "bi_blockIndex i = h"
proof -
  have "length (inputs (baseTransaction b)) = 1" using assms by (simp add: prevalidate_miner_transaction_def split: if_splits)
  then obtain x where x: "inputs (baseTransaction b) = [x]" by (cases "inputs (baseTransaction b)") auto
  show thesis using assms that by (auto simp: prevalidate_miner_transaction_def x split: if_splits TransactionInput.splits)
qed

lemma precheckD:
  assumes "precheck_block env cur b bvc c = Inr d"
  shows "snd (getBlockHash b) \<notin> set (m_blockIndex c)" and "prevalidate_miner_transaction cur b (word_of_nat (length (m_blocks c)))"
  using assms by (auto simp: precheck_block_def Let_def hasBlock_def split: if_splits)

lemma detectors_pushed_fields:
  "detectors_pushed cur c = Inr c' \<Longrightarrow>
     m_ledger c' = m_ledger c \<and> m_blocks c' = m_blocks c \<and> m_blockIndex c' = m_blockIndex c \<and>
     m_blocksTimestampIndex c' = m_blocksTimestampIndex c \<and> m_generatedTransactionsIndex c' = m_generatedTransactionsIndex c"
  by (auto simp: detectors_pushed_def split: option.splits)

lemma detectors_popped_fields:
  "detectors_popped cur c = Inr c' \<Longrightarrow>
     m_ledger c' = m_ledger c \<and> m_blocks c' = m_blocks c \<and> m_blockIndex c' = m_blockIndex c \<and>
     m_blocksTimestampIndex c' = m_blocksTimestampIndex c \<and> m_generatedTransactionsIndex c' = m_generatedTransactionsIndex c"
  by (auto simp: detectors_popped_def split: option.splits)

lemma limit_fields [simp]:
  "m_ledger (update_next_cumulative_size_limit cur c) = m_ledger c" "m_blocks (update_next_cumulative_size_limit cur c) = m_blocks c"
  "m_blockIndex (update_next_cumulative_size_limit cur c) = m_blockIndex c"
  "m_blocksTimestampIndex (update_next_cumulative_size_limit cur c) = m_blocksTimestampIndex c"
  "m_generatedTransactionsIndex (update_next_cumulative_size_limit cur c) = m_generatedTransactionsIndex c"
  by (simp_all add: update_next_cumulative_size_limit_def Let_def)

lemma blocks_inv_cong:
  "m_blocks c' = m_blocks c \<Longrightarrow> m_blockIndex c' = m_blockIndex c \<Longrightarrow> m_blocksTimestampIndex c' = m_blocksTimestampIndex c \<Longrightarrow>
   m_generatedTransactionsIndex c' = m_generatedTransactionsIndex c \<Longrightarrow> blocks_inv c' = blocks_inv c"
  by (simp add: blocks_inv_def)

text \<open>The states after the transactions of a block went into the ledger.\<close>

lemma pushed_transactions:
  assumes "chain_inv en c" and "block_txs_ok c b transactions" and "precheck_block env cur b bvc c = Inr d"
    and "push_entry (transaction_hash (baseTransaction b)) \<lparr>ti_block = word_of_nat (length (m_blocks c)), ti_transaction = 0\<rparr>
      (m_ledger c, [\<lparr>te_tx = baseTransaction b, te_global_output_indexes = []\<rparr>]) = Inr st"
    and "push_transactions env cur c b transactions 0 \<lparr>ti_block = word_of_nat (length (m_blocks c)), ti_transaction = 0\<rparr> st s f = Inr r"
  obtains k where "k \<le> length transactions" and "loop_complete r \<longrightarrow> k = length transactions"
    and "map te_tx (loop_entries r) = baseTransaction b # take k transactions"
    and "entries_ok (chain_entries (m_blocks c) @ tx_entries (length (m_blocks c)) b (loop_entries r))"
    and "loop_ledger r = ledger_of en (chain_entries (m_blocks c) @ tx_entries (length (m_blocks c)) b (loop_entries r))"
proof -
  let ?n = "length (m_blocks c)" and ?es = "chain_entries (m_blocks c)" and ?base = "baseTransaction b"
  let ?ix = "\<lparr>ti_block = word_of_nat ?n :: u32, ti_transaction = 0 :: u16\<rparr>" and ?t = "\<lparr>te_tx = ?base, te_global_output_indexes = []\<rparr>"
  have es: "entries_ok ?es" "m_ledger c = ledger_of en ?es" using assms(1) by (simp_all add: chain_inv_def)
  have ok: "transactionHashes b = map transaction_hash transactions" "list_all tx_ok transactions" "length transactions \<le> 65535"
    "length (outputs ?base) \<le> 65535" "?n < 2 ^ 32"
    "isInCheckpointZone c (getCurrentBlockchainHeight c) \<Longrightarrow> list_all (\<lambda>tx. msig_refs (inputs tx) = []) transactions"
    "inj_on transaction_hash (insert ?base (set transactions \<union> txs_of ?es))"
    using assms(2) by (simp_all add: block_txs_ok_def)
  obtain i where i: "inputs ?base = [TxBaseInput i]" "bi_blockIndex i = word_of_nat ?n"
    by (rule prevalidate_base [OF precheckD(2) [OF assms(3)]])
  have v: "valid_entry ?es (transaction_hash ?base, ?ix, ?base)"
    by (rule base_valid [OF es(1) ok(5) i _ ok(4)]) (rule inj_on_subset [OF ok(7)], blast)
  have one: "tx_entries ?n b [?t] = [(transaction_hash ?base, ?ix, ?base)]" by (simp add: tx_entries_def)
  have ok1: "entries_ok (?es @ tx_entries ?n b [?t])" unfolding one entries_ok_snoc using es(1) v i by auto
  have vc: "valid_chain ?es" using es(1) by (simp add: entries_ok_def)
  obtain txs where "push_entry (transaction_hash ?base) ?ix (ledger_of en ?es, [?t]) = Inr (ledger_of en (?es @ [(transaction_hash ?base, ?ix, ?base)]), txs)"
    and same: "map te_tx txs = map te_tx [?t]"
    by (rule push_entry_refines [OF vc v, of "[?t]" en]) simp_all
  then have p: "st = (ledger_of en (?es @ tx_entries ?n b [?t]), txs)" using assms(4) by (simp add: es(2) one)
  have ent: "tx_entries ?n b txs = tx_entries ?n b [?t]" by (rule tx_entries_te_tx [OF same])
  have len: "length txs = Suc 0" using map_eq_imp_length_eq [OF same] by simp
  have sub: "set transactions \<union> txs_of (?es @ tx_entries ?n b txs) \<subseteq> insert ?base (set transactions \<union> txs_of ?es)"
    unfolding ent one txs_of_append by (auto simp: txs_of_def)
  have run: "push_transactions env cur c b transactions 0 \<lparr>ti_block = word_of_nat ?n, ti_transaction = word_of_nat 0\<rparr>
      (ledger_of en (?es @ tx_entries ?n b txs), txs) s f = Inr r"
    using assms(5) by (simp add: p ent)
  have "loop_ledger r = ledger_of en (?es @ tx_entries ?n b (loop_entries r)) \<and> entries_ok (?es @ tx_entries ?n b (loop_entries r)) \<and>
    (\<exists>k\<le>length transactions. map te_tx (loop_entries r) = map te_tx txs @ take k transactions \<and> (loop_complete r \<longrightarrow> k = length transactions))"
    by (rule push_transactions_refines [OF _ len _ _ ok(2,6) inj_on_subset [OF ok(7) sub] run]) (use ok1 ok(1,3) ent in simp_all)
  then obtain k where k: "k \<le> length transactions" "map te_tx (loop_entries r) = map te_tx txs @ take k transactions"
      "loop_complete r \<longrightarrow> k = length transactions" "loop_ledger r = ledger_of en (?es @ tx_entries ?n b (loop_entries r))"
      "entries_ok (?es @ tx_entries ?n b (loop_entries r))" by blast
  have "map te_tx (loop_entries r) = ?base # take k transactions" using k(2) same by simp
  then show thesis by (rule that [OF k(1,3) _ k(5,4)])
qed

definition same_chain :: "Blockchain \<Rightarrow> Blockchain \<Rightarrow> bool" where
  "same_chain c c' \<longleftrightarrow> m_ledger c' = m_ledger c \<and> m_blocks c' = m_blocks c \<and> m_blockIndex c' = m_blockIndex c \<and>
     m_blocksTimestampIndex c' = m_blocksTimestampIndex c \<and> m_generatedTransactionsIndex c' = m_generatedTransactionsIndex c"

text \<open>The chain after an accepted block, with what its removal needs.\<close>

definition extended :: "bool \<Rightarrow> Block \<Rightarrow> Transaction list \<Rightarrow> Blockchain \<Rightarrow> Blockchain \<Rightarrow> bool" where
  "extended en b transactions c c' \<longleftrightarrow>
     (\<exists>e. be_bl e = b \<and> map te_tx (be_transactions e) = baseTransaction b # transactions \<and> m_blocks c' = m_blocks c @ [e] \<and> chain_inv en c' \<and>
        block_id e \<notin> block_id ` set (m_blocks c) \<and>
        m_blocksTimestampIndex c' = fst (TimestampBlocksIndex_add (timestamp b) (block_id e) (m_blocksTimestampIndex c)) \<and>
        gi_enabled (m_generatedTransactionsIndex c') = gi_enabled (m_generatedTransactionsIndex c) \<and>
        (gi_enabled (m_generatedTransactionsIndex c) \<or> m_generatedTransactionsIndex c' = m_generatedTransactionsIndex c))"

lemma finish_block_cases:
  assumes "chain_inv en c" and "block_txs_ok c b transactions" and "precheck_block env cur b bvc c = Inr d"
    and "map te_tx txs = baseTransaction b # transactions"
    and "entries_ok (chain_entries (m_blocks c) @ tx_entries (length (m_blocks c)) b txs)"
    and "l = ledger_of en (chain_entries (m_blocks c) @ tx_entries (length (m_blocks c)) b txs)"
    and "finish_block env cur b (transaction_hash (baseTransaction b)) d bvc c l txs s f = Inr (c', bvc', ok)"
  shows "if ok then extended en b transactions c c'
    else c' = c \<or> c' = c\<lparr>m_ledger := l\<rparr> \<and> checkCumulativeBlockSize cur s (word_of_nat (length (m_blocks c))) = Some False"
proof -
  let ?n = "length (m_blocks c)"
  have len: "length txs = Suc (length transactions)" using map_eq_imp_length_eq [of te_tx txs "\<lambda>x. x" "baseTransaction b # transactions"] assms(4) by simp
  have hs: "length (transactionHashes b) = length transactions" "Suc ?n < 2 ^ 32" using assms(2) by (simp_all add: block_txs_ok_def)
  have led: "m_ledger c = ledger_of en (chain_entries (m_blocks c))" "blocks_inv c" using assms(1) by (simp_all add: chain_inv_def)
  have pop: "popTransactions txs b (transaction_hash (baseTransaction b)) l = Inr (m_ledger c)"
    unfolding assms(6) led(1) using len hs(1) assms(5) by (intro popTransactions_removes) (auto simp: entries_ok_def)
  consider (big) "checkCumulativeBlockSize cur s (word_of_nat ?n) = Some False"
    | (fits) "checkCumulativeBlockSize cur s (word_of_nat ?n) = Some True"
    using assms(7) by (auto simp: finish_block_def Let_def split: option.splits bool.splits)
  then show ?thesis
  proof cases
    case big
    then show ?thesis using assms(7) by (simp add: finish_block_def Let_def)
  next
    case fits
    show ?thesis
    proof (cases ok)
      case False
      then show ?thesis using assms(7) pop by (auto simp: finish_block_def Let_def fits split: sum.splits option.splits)
    next
      case True
      define e where "e = (\<lambda>em. \<lparr>be_bl = b, be_height = word_of_nat ?n, be_block_cumulative_size = s,
        be_cumulative_difficulty = d + (if 0 < ?n then be_cumulative_difficulty (last (m_blocks c)) else 0),
        be_already_generated_coins = (if m_blocks c = [] then 0 else be_already_generated_coins (last (m_blocks c))) + em, be_transactions = txs\<rparr>)"
      obtain em c1 c2 where run: "pushBlock_entry (e em) (c\<lparr>m_ledger := l\<rparr>) = Inr c1" "detectors_pushed cur c1 = Inr c2"
        "c' = update_next_cumulative_size_limit cur c2"
        using assms(7) True pop by (auto simp: finish_block_def Let_def fits e_def split: sum.splits option.splits)
      have id: "block_id (e em) = snd (getBlockHash b)" "be_bl (e em) = b" "be_transactions (e em) = txs" by (simp_all add: e_def block_id_def)
      obtain i where i: "inputs (baseTransaction b) = [TxBaseInput i]" "bi_blockIndex i = word_of_nat ?n"
        by (rule prevalidate_base [OF precheckD(2) [OF assms(3)]])
      have bo: "block_ok ?n (e em)" using i len hs(1) by (simp add: block_ok_def e_def OrphanBlocksIndex_height_def)
      have bi: "blocks_inv (c\<lparr>m_ledger := l\<rparr>)" using led(2) blocks_inv_cong [of "c\<lparr>m_ledger := l\<rparr>" c] by simp
      have new: "block_id (e em) \<notin> set (m_blockIndex c)" using precheckD(1) [OF assms(3)] id(1) by simp
      obtain c1' where c1: "pushBlock_entry (e em) (c\<lparr>m_ledger := l\<rparr>) = Inr c1'" "blocks_inv c1'" "m_blocks c1' = m_blocks c @ [e em]" "m_ledger c1' = l"
        "m_blocksTimestampIndex c1' = fst (TimestampBlocksIndex_add (timestamp b) (block_id (e em)) (m_blocksTimestampIndex c))"
        "gi_enabled (m_generatedTransactionsIndex c1') = gi_enabled (m_generatedTransactionsIndex c)"
        "gi_enabled (m_generatedTransactionsIndex c) \<or> m_generatedTransactionsIndex c1' = m_generatedTransactionsIndex c"
        using pushBlock_entry_inv [OF bi, of "e em"] hs(2) new bo by (simp add: id(2)) blast
      have eq: "c1' = c1" using run(1) c1(1) by simp
      have same: "m_ledger c' = l" "m_blocks c' = m_blocks c @ [e em]" "m_blocksTimestampIndex c' = m_blocksTimestampIndex c1"
        "m_generatedTransactionsIndex c' = m_generatedTransactionsIndex c1" "blocks_inv c'"
        using detectors_pushed_fields [OF run(2)] c1(2-4) blocks_inv_cong [of c' c1] unfolding eq run(3) by simp_all
      have "chain_inv en c'" unfolding chain_inv_def same chain_entries_snoc id using same(5) assms(5,6) by simp
      moreover have "block_id (e em) \<notin> block_id ` set (m_blocks c)" using new led(2) by (simp add: blocks_inv_def)
      ultimately have "extended en b transactions c c'"
        unfolding extended_def using id same c1(5-7) assms(4) unfolding eq by (intro exI [of _ "e em"]) simp
      then show ?thesis using True by simp
    qed
  qed
qed

lemma push_block_cases:
  assumes "chain_inv en c" and "block_txs_ok c b transactions"
    and "pushBlock_transactions env cur b transactions bvc c = Inr (c', bvc', ok)"
  shows "if ok then extended en b transactions c c'
    else c' = c \<or> (\<exists>txs. map te_tx txs = baseTransaction b # transactions \<and>
      c' = c\<lparr>m_ledger := ledger_of en (chain_entries (m_blocks c) @ tx_entries (length (m_blocks c)) b txs)\<rparr> \<and>
      checkCumulativeBlockSize cur (block_size b transactions) (word_of_nat (length (m_blocks c))) = Some False)"
proof (cases "precheck_block env cur b bvc c")
  case (Inl x)
  then show ?thesis using assms(3) by (simp add: pushBlock_transactions_def)
next
  case (Inr d)
  let ?n = "length (m_blocks c)" and ?ix = "\<lparr>ti_block = word_of_nat (length (m_blocks c)) :: u32, ti_transaction = 0 :: u16\<rparr>"
  let ?s = "snd (getObjectBinarySize put_Transaction (baseTransaction b))" and ?h = "transaction_hash (baseTransaction b)"
  obtain st r where st: "push_entry ?h ?ix (m_ledger c, [\<lparr>te_tx = baseTransaction b, te_global_output_indexes = []\<rparr>]) = Inr st"
    and r: "push_transactions env cur c b transactions 0 ?ix st ?s 0 = Inr r"
    using assms(3) Inr by (auto simp: pushBlock_transactions_def Let_def split: sum.splits)
  obtain k where k: "k \<le> length transactions" "loop_complete r \<longrightarrow> k = length transactions"
      "map te_tx (loop_entries r) = baseTransaction b # take k transactions"
      "entries_ok (chain_entries (m_blocks c) @ tx_entries ?n b (loop_entries r))"
      "loop_ledger r = ledger_of en (chain_entries (m_blocks c) @ tx_entries ?n b (loop_entries r))"
    by (rule pushed_transactions [OF assms(1,2) Inr st r])
  show ?thesis
  proof (cases r)
    case (WrongInputs l txs)
    have "length txs = Suc (length (take k transactions))"
      using k(3) map_eq_imp_length_eq [of te_tx txs "\<lambda>x. x" "baseTransaction b # take k transactions"] by (simp add: loop_entries_def WrongInputs)
    then have "popTransactions txs b ?h l = Inr (ledger_of en (chain_entries (m_blocks c)))"
      using k assms(2) unfolding WrongInputs loop_ledger_def loop_entries_def loop_result.case
      by (simp only:, intro popTransactions_removes) (auto simp: entries_ok_def block_txs_ok_def)
    then have "popTransactions txs b ?h l = Inr (m_ledger c)" using assms(1) by (simp add: chain_inv_def)
    then show ?thesis using assms(3) Inr st r WrongInputs by (auto simp: pushBlock_transactions_def Let_def)
  next
    case (Pushed l txs s f)
    have full: "map te_tx txs = baseTransaction b # transactions" using k by (simp add: Pushed loop_complete_def loop_entries_def)
    have "finish_block env cur b ?h d bvc c l txs s f = Inr (c', bvc', ok)"
      using assms(3) Inr st r Pushed by (simp add: pushBlock_transactions_def Let_def)
    from finish_block_cases [OF assms(1,2) Inr full _ _ this]
    have "if ok then extended en b transactions c c'
      else c' = c \<or> c' = c\<lparr>m_ledger := l\<rparr> \<and> checkCumulativeBlockSize cur s (word_of_nat ?n) = Some False"
      using k(4,5) by (simp add: Pushed loop_ledger_def loop_entries_def)
    moreover have "s = block_size b transactions" using push_transactions_size [of env cur c b transactions 0 ?ix st ?s 0 l txs s f] r Pushed
      by (simp add: block_size_def)
    moreover have "l = ledger_of en (chain_entries (m_blocks c) @ tx_entries ?n b txs)" using k(5) by (simp add: Pushed loop_ledger_def loop_entries_def)
    ultimately show ?thesis using full by (cases ok) (simp, metis)
  qed
qed

section \<open>Rolling back\<close>

lemma rollback_inv:
  assumes "chain_inv en c"
  shows "\<exists>c'. rollbackBlockchainTo height c = Inr c' \<and> m_blocks c' = take (unat (height + 1)) (m_blocks c) \<and> chain_inv en c'"
  using assms
proof (induction "length (m_blocks c)" arbitrary: c)
  case 0
  then show ?case by (simp add: rollbackBlockchainTo.simps [of height c])
next
  case (Suc n)
  show ?case
  proof (cases "unat (height + 1) < length (m_blocks c)")
    case True
    obtain bs e where b: "m_blocks c = bs @ [e]" using Suc(2) by (cases "m_blocks c" rule: rev_cases) auto
    obtain c1 where c1: "removeLastBlock c = Inr c1" "chain_inv en c1" "m_blocks c1 = bs" by (rule removeLastBlock_inv [OF Suc(3) b])
    have "n = length (m_blocks c1)" using Suc(2) b c1(3) by simp
    then obtain c' where "rollbackBlockchainTo height c1 = Inr c'" "m_blocks c' = take (unat (height + 1)) bs" "chain_inv en c'"
      using Suc(1) [OF _ c1(2)] c1(3) by auto
    then show ?thesis using True c1(1) b by (simp add: rollbackBlockchainTo.simps [of height c])
  next
    case False
    then show ?thesis using Suc(3) by (simp add: rollbackBlockchainTo.simps [of height c])
  qed
qed

section \<open>Reachable chains\<close>

definition empty_ledger :: "bool \<Rightarrow> ledger" where
  "empty_ledger en =
     \<lparr>m_spent_keys = {}, m_outputs = Map.empty, m_multisignatureOutputs = Map.empty, m_transactionMap = Map.empty,
      l_paymentIdIndex = \<lparr>hi_enabled = en, hi_index = []\<rparr>\<rparr>"

definition is_empty_chain :: "bool \<Rightarrow> Blockchain \<Rightarrow> bool" where
  "is_empty_chain en c \<longleftrightarrow> m_ledger c = empty_ledger en \<and> m_blocks c = [] \<and> m_blockIndex c = [] \<and>
     m_blocksTimestampIndex c = \<lparr>hi_enabled = en, hi_index = []\<rparr> \<and>
     m_generatedTransactionsIndex c = \<lparr>gi_enabled = en, gi_index = [], lastGeneratedTxNumber = 0\<rparr>"

text \<open>
  The states of a chain after blocks were pushed and removed. A block above the largest cumulative size is not among the refused ones: the
  ledger keeps its transactions.
\<close>

inductive chain_reachable :: "bool \<Rightarrow> Currency \<Rightarrow> Blockchain \<Rightarrow> bool" for en cur where
  chain_start: "is_empty_chain en c \<Longrightarrow> chain_reachable en cur c"
| chain_accept: "chain_reachable en cur c \<Longrightarrow> block_txs_ok c b transactions \<Longrightarrow>
    pushBlock_transactions env cur b transactions bvc c = Inr (c', bvc', True) \<Longrightarrow> chain_reachable en cur c'"
| chain_refuse: "chain_reachable en cur c \<Longrightarrow> block_txs_ok c b transactions \<Longrightarrow>
    pushBlock_transactions env cur b transactions bvc c = Inr (c', bvc', False) \<Longrightarrow>
    checkCumulativeBlockSize cur (block_size b transactions) (word_of_nat (length (m_blocks c))) \<noteq> Some False \<Longrightarrow> chain_reachable en cur c'"
| chain_remove: "chain_reachable en cur c \<Longrightarrow> removeLastBlock c = Inr c' \<Longrightarrow> chain_reachable en cur c'"
| chain_pop: "chain_reachable en cur c \<Longrightarrow> popBlock cur c = Inr (c', saved) \<Longrightarrow> chain_reachable en cur c'"
| chain_rollback: "chain_reachable en cur c \<Longrightarrow> rollbackBlockchainTo height c = Inr c' \<Longrightarrow> chain_reachable en cur c'"

lemma ledger_of_Nil: "ledger_of en [] = empty_ledger en"
  by (auto simp: ledger_of_def empty_ledger_def all_images_def all_key_outs_def all_msig_outs_def opt_list_def usage_def payment_entries_def)

lemma empty_chain_inv: "is_empty_chain en c \<Longrightarrow> chain_inv en c"
  by (simp add: is_empty_chain_def chain_inv_def blocks_inv_def chain_entries_def ledger_of_Nil entries_ok_def chain_empty hashes_ok_def bases_ok_def
      times_ok_def generated_ok_def generated_inv_def generated_def)

lemma removeLastBlock_keeps_inv:
  assumes "chain_inv en c" and "removeLastBlock c = Inr c'"
  shows "chain_inv en c'"
proof (cases "m_blocks c" rule: rev_cases)
  case Nil
  then show ?thesis using assms by (simp add: removeLastBlock_def)
next
  case (snoc bs e)
  show ?thesis by (rule removeLastBlock_inv [OF assms(1) snoc]) (use assms(2) in simp)
qed

lemma chain_inv_cong:
  "m_ledger c' = m_ledger c \<and> m_blocks c' = m_blocks c \<and> m_blockIndex c' = m_blockIndex c \<and>
   m_blocksTimestampIndex c' = m_blocksTimestampIndex c \<and> m_generatedTransactionsIndex c' = m_generatedTransactionsIndex c \<Longrightarrow>
   chain_inv en c' = chain_inv en c"
  using blocks_inv_cong [of c' c] by (simp add: chain_inv_def)

lemma popBlock_keeps_inv:
  assumes "chain_inv en c" and "popBlock cur c = Inr (c', saved)"
  shows "chain_inv en c'"
proof (cases "m_blocks c = []")
  case True
  then show ?thesis using assms by (simp add: popBlock_def)
next
  case False
  then obtain c1 where c1: "removeLastBlock c = Inr c1" "detectors_popped cur c1 = Inr c'"
    using assms(2) by (auto simp: popBlock_def Let_def split: sum.splits)
  show ?thesis using chain_inv_cong [OF detectors_popped_fields [OF c1(2)]] removeLastBlock_keeps_inv [OF assms(1) c1(1)] by simp
qed

lemma chain_reachable_inv: "chain_reachable en cur c \<Longrightarrow> chain_inv en c"
proof (induction rule: chain_reachable.induct)
  case (chain_start c)
  then show ?case by (rule empty_chain_inv)
next
  case (chain_accept c b transactions env bvc c' bvc')
  then show ?case using push_block_cases [OF chain_accept.IH chain_accept.hyps(2,3)] by (auto simp: extended_def)
next
  case (chain_refuse c b transactions env bvc c' bvc')
  then show ?case using push_block_cases [OF chain_refuse.IH chain_refuse.hyps(2,3)] by auto
next
  case (chain_remove c c')
  then show ?case by (blast intro: removeLastBlock_keeps_inv)
next
  case (chain_pop c c' saved)
  then show ?case by (blast intro: popBlock_keeps_inv)
next
  case (chain_rollback c height c')
  then show ?case using rollback_inv [OF chain_rollback.IH, of height] by auto
qed

definition block_transactions :: "BlockEntry \<Rightarrow> Transaction list" where
  "block_transactions e = baseTransaction (be_bl e) # tl (map te_tx (be_transactions e))"

lemma tx_entries_txs: "map (\<lambda>(h, ix, tx). tx) (tx_entries n (be_bl e) (be_transactions e)) = block_transactions e"
  by (auto simp: tx_entries_def block_transactions_def nth_tl intro!: nth_equalityI)

lemma chain_entries_txs: "map (\<lambda>(h, ix, tx). tx) (chain_entries bs) = concat (map block_transactions bs)"
proof -
  have "map (\<lambda>(h, ix, tx). tx) (chain_entries bs) = concat (map (\<lambda>n. block_transactions (bs ! n)) [0..<length bs])"
    by (simp add: chain_entries_def map_concat comp_def tx_entries_txs)
  also have "map (\<lambda>n. block_transactions (bs ! n)) [0..<length bs] = map block_transactions bs"
    by (metis (no_types, lifting) map_eq_conv map_map map_nth comp_apply)
  finally show ?thesis .
qed

definition chain_images :: "Transaction list \<Rightarrow> bytes list" where
  "chain_images txs = concat (map (\<lambda>tx. images (inputs tx)) txs)"

lemma valid_chain_images:
  "valid_chain es \<Longrightarrow> distinct (chain_images (map (\<lambda>(h, ix, tx). tx) es)) \<and> set (chain_images (map (\<lambda>(h, ix, tx). tx) es)) = all_images es"
proof (induction rule: valid_chain.induct)
  case (chain_add es e)
  obtain h ix tx where "e = (h, ix, tx)" by (rule prod_cases3)
  then show ?case using chain_add by (auto simp: chain_images_def valid_entry_def all_snoc)
qed (simp add: chain_images_def all_images_def)

section \<open>A first block\<close>

definition genesis_currency :: "u64 \<Rightarrow> Currency" where
  "genesis_currency maxSize =
     undefined\<lparr>m_upgradeHeightV2 := 1000, m_upgradeHeightV3 := 1000, m_upgradeHeightV4 := 1000, m_upgradeHeightV5 := 1000, m_upgradeHeightV6 := 1000,
       m_maxBlockSizeInitial := maxSize, m_maxBlockSizeGrowthSpeedNumerator := 1, m_maxBlockSizeGrowthSpeedDenominator := 1,
       m_timestampCheckWindow := 10, m_blockFutureTimeLimit := 0, m_minedMoneyUnlockWindow := 10, m_governanceHeightStart := 5,
       m_governanceHeightEnd := 6, m_rewardBlocksWindow := 10\<rparr>"

definition genesis_block :: Block where
  "genesis_block =
     \<lparr>majorVersion = 1, minorVersion = 0, nonce = 0, timestamp = 0, previousBlockHash = NULL_HASH,
      baseTransaction = \<lparr>version = 1, unlockTime = 10, inputs = [TxBaseInput \<lparr>bi_blockIndex = 0\<rparr>],
        outputs = [\<lparr>to_amount = TAIL_EMISSION_REWARD, to_target = TxKeyOutput \<lparr>ko_key = replicate 32 0\<rparr>\<rparr>], extra = [], signatures = []\<rparr>,
      transactionHashes = []\<rparr>"

definition genesis_env :: chain_env where
  "genesis_env =
     \<lparr>get_adjusted_time = 0, cn_pow_hash = (\<lambda>_. NULL_HASH), scalarMultKey = (\<lambda>_ _. []), checkSignature = (\<lambda>_ _ _. False),
      checkRingSignature = (\<lambda>_ _ _ _. False), getDifficultyForNextBlock = (\<lambda>_ _. 1), reward_scale = (\<lambda>_ _ _. 0),
      validateGovernmentFee = (\<lambda>_. True)\<rparr>"

definition genesis_chain :: Blockchain where
  "genesis_chain =
     \<lparr>m_ledger = empty_ledger False, m_blocks = [], m_blockIndex = [], m_blocksTimestampIndex = \<lparr>hi_enabled = False, hi_index = []\<rparr>,
      m_generatedTransactionsIndex = \<lparr>gi_enabled = False, gi_index = [], lastGeneratedTxNumber = 0\<rparr>, m_current_block_cumul_sz_limit = 0,
      m_checkpoints = [(5, NULL_HASH)], m_upgradeDetectorV2 = - 1, m_upgradeDetectorV3 = - 1, m_upgradeDetectorV4 = - 1,
      m_upgradeDetectorV5 = - 1, m_upgradeDetectorV6 = - 1\<rparr>"

definition genesis_bvc :: block_verification_context where
  "genesis_bvc = \<lparr>m_added_to_main_chain = False, b_verification_failed = False, m_marked_as_orphaned = False, m_already_exists = False,
     m_switched_to_alt_chain = False\<rparr>"

lemma genesis_start: "chain_reachable False cur genesis_chain"
  by (rule chain_start) (simp add: is_empty_chain_def genesis_chain_def)

lemma genesis_txs_ok: "block_txs_ok genesis_chain genesis_block []"
  by (simp add: block_txs_ok_def genesis_chain_def genesis_block_def chain_entries_def txs_of_def)

lemma genesis_precheck: "precheck_block genesis_env (genesis_currency maxSize) genesis_block genesis_bvc genesis_chain = Inr 1"
proof -
  have v: "checkBlockVersion (genesis_currency maxSize) genesis_chain genesis_block"
    by (simp add: checkBlockVersion_def getBlockMajorVersionForHeight_def ud_upgradeHeight_def upgradeHeight_def genesis_currency_def genesis_block_def
        get_block_height_def UNDEF_HEIGHT_def BLOCK_MAJOR_VERSION_6_def BLOCK_MAJOR_VERSION_1_def)
  have m: "getMergeMiningTagFromExtra (extra (baseTransaction genesis_block)) = None"
    by (simp add: getMergeMiningTagFromExtra_def genesis_block_def)
  have t: "check_block_timestamp_main genesis_env (genesis_currency maxSize) genesis_chain genesis_block"
    by (simp add: check_block_timestamp_main_def genesis_env_def genesis_block_def genesis_currency_def genesis_chain_def check_block_timestamp_def Let_def)
  have p: "prevalidate_miner_transaction (genesis_currency maxSize) genesis_block (word_of_nat (length (m_blocks genesis_chain)))"
    by (simp add: prevalidate_miner_transaction_def genesis_block_def genesis_chain_def genesis_currency_def check_outs_overflow_def Let_def)
  show ?thesis using v m t p
    by (simp add: precheck_block_def Let_def hasBlock_def genesis_chain_def bc_getTailId_def)
      (simp add: genesis_block_def genesis_env_def getCurrentBlockchainHeight_def is_in_checkpoint_zone_def check_block_def)
qed

definition genesis_size :: u64 where
  "genesis_size = snd (getObjectBinarySize put_Transaction (baseTransaction genesis_block))"

lemma genesis_size_val: "genesis_size = 45"
  by code_simp

lemma genesis_pushed:
  obtains l txs where "push_entry (transaction_hash (baseTransaction genesis_block)) \<lparr>ti_block = 0, ti_transaction = 0\<rparr>
    (m_ledger genesis_chain, [\<lparr>te_tx = baseTransaction genesis_block, te_global_output_indexes = []\<rparr>]) = Inr (l, txs)"
    and "m_transactionMap l \<noteq> Map.empty"
proof -
  let ?b = "baseTransaction genesis_block"
  have v: "valid_entry [] (transaction_hash ?b, \<lparr>ti_block = 0, ti_transaction = 0\<rparr>, ?b)"
    by (simp add: valid_entry_def genesis_block_def)
  obtain txs where "push_entry (transaction_hash ?b) \<lparr>ti_block = 0, ti_transaction = 0\<rparr>
      (ledger_of False [], [\<lparr>te_tx = ?b, te_global_output_indexes = []\<rparr>]) =
    Inr (ledger_of False ([] @ [(transaction_hash ?b, \<lparr>ti_block = 0, ti_transaction = 0\<rparr>, ?b)]), txs)"
    by (rule push_entry_refines [OF chain_empty v, of "[\<lparr>te_tx = ?b, te_global_output_indexes = []\<rparr>]" False]) simp_all
  then have push: "push_entry (transaction_hash ?b) \<lparr>ti_block = 0, ti_transaction = 0\<rparr>
      (m_ledger genesis_chain, [\<lparr>te_tx = ?b, te_global_output_indexes = []\<rparr>]) =
    Inr (ledger_of False ([] @ [(transaction_hash ?b, \<lparr>ti_block = 0, ti_transaction = 0\<rparr>, ?b)]), txs)"
    by (simp add: genesis_chain_def ledger_of_Nil)
  show thesis by (rule that [OF push]) (simp add: ledger_of_def)
qed

lemma genesis_pushes:
  "(\<exists>c'. pushBlock_transactions genesis_env (genesis_currency 100000) genesis_block [] genesis_bvc genesis_chain =
      Inr (c', genesis_bvc\<lparr>m_added_to_main_chain := True\<rparr>, True)) \<and>
   (\<exists>c'. pushBlock_transactions genesis_env (genesis_currency 0) genesis_block [] genesis_bvc genesis_chain =
      Inr (c', genesis_bvc\<lparr>b_verification_failed := True\<rparr>, False) \<and> c' \<noteq> genesis_chain)"
proof -
  obtain l txs where p: "push_entry (transaction_hash (baseTransaction genesis_block)) \<lparr>ti_block = 0, ti_transaction = 0\<rparr>
    (m_ledger genesis_chain, [\<lparr>te_tx = baseTransaction genesis_block, te_global_output_indexes = []\<rparr>]) = Inr (l, txs)"
    and l: "m_transactionMap l \<noteq> Map.empty" by (rule genesis_pushed)
  have run: "pushBlock_transactions genesis_env (genesis_currency m) genesis_block [] genesis_bvc genesis_chain =
      finish_block genesis_env (genesis_currency m) genesis_block (transaction_hash (baseTransaction genesis_block)) 1 genesis_bvc genesis_chain l txs genesis_size 0" for m
  proof -
    have "word_of_nat (length (m_blocks genesis_chain)) = (0 :: u32)" by (simp add: genesis_chain_def)
    then show ?thesis using p by (simp add: pushBlock_transactions_def genesis_precheck Let_def genesis_size_def)
  qed
  have "finish_block genesis_env (genesis_currency 0) genesis_block (transaction_hash (baseTransaction genesis_block)) 1 genesis_bvc genesis_chain l txs genesis_size 0 =
      Inr (genesis_chain\<lparr>m_ledger := l\<rparr>, genesis_bvc\<lparr>b_verification_failed := True\<rparr>, False)"
    by (simp add: finish_block_def Let_def checkCumulativeBlockSize_def maxBlockCumulativeSize_def genesis_currency_def genesis_chain_def genesis_size_val)
  moreover have "genesis_chain\<lparr>m_ledger := l\<rparr> \<noteq> genesis_chain"
  proof
    assume "genesis_chain\<lparr>m_ledger := l\<rparr> = genesis_chain"
    then have "m_ledger (genesis_chain\<lparr>m_ledger := l\<rparr>) = m_ledger genesis_chain" by (rule arg_cong)
    then have "l = m_ledger genesis_chain" by simp
    then show False using l by (simp add: genesis_chain_def empty_ledger_def)
  qed
  moreover have "\<exists>c'. finish_block genesis_env (genesis_currency 100000) genesis_block (transaction_hash (baseTransaction genesis_block)) 1 genesis_bvc genesis_chain l txs genesis_size 0 =
      Inr (c', genesis_bvc\<lparr>m_added_to_main_chain := True\<rparr>, True)"
  proof -
    have z: "checkCumulativeBlockSize (genesis_currency 100000) genesis_size (word_of_nat (length (m_blocks genesis_chain))) = Some True"
      by (simp add: checkCumulativeBlockSize_def maxBlockCumulativeSize_def genesis_currency_def genesis_chain_def genesis_size_val)
    have v: "getBlockMajorVersionForHeight (genesis_currency 100000) genesis_chain 0 = 1"
      by (simp add: getBlockMajorVersionForHeight_def ud_upgradeHeight_def upgradeHeight_def genesis_currency_def UNDEF_HEIGHT_def
          BLOCK_MAJOR_VERSION_6_def BLOCK_MAJOR_VERSION_1_def)
    have med: "medianValue (last_sizes (genesis_currency 100000) genesis_chain) = 0"
      by (simp add: medianValue_def last_sizes_def get_last_n_blocks_sizes_def genesis_chain_def)
    have b: "m_blocks genesis_chain = []" by (simp add: genesis_chain_def)
    have m: "validate_miner_transaction genesis_env (genesis_currency 100000) genesis_chain genesis_block (word_of_nat (length (m_blocks genesis_chain))) genesis_size
        (if m_blocks genesis_chain = [] then 0 else be_already_generated_coins (last (m_blocks genesis_chain))) 0 = Inr (Some (TAIL_EMISSION_REWARD, TAIL_EMISSION_REWARD))"
      using v med
      by (simp add: validate_miner_transaction_def Let_def UPGRADE_HEIGHT_V1_def genesis_size_val b CRYPTONOTE_BLOCK_GRANTED_FULL_REWARD_ZONE_def getBlockReward_def
          getPenalizedAmount_def blockGrantedFullRewardZoneByBlockVersion_def isGovernanceEnabled_def genesis_env_def genesis_block_def TAIL_EMISSION_REWARD_def)
    define e where "e = \<lparr>be_bl = genesis_block, be_height = 0, be_block_cumulative_size = genesis_size, be_cumulative_difficulty = 1,
      be_already_generated_coins = TAIL_EMISSION_REWARD, be_transactions = txs\<rparr>"
    obtain c1 where c1: "pushBlock_entry e (genesis_chain\<lparr>m_ledger := l\<rparr>) = Inr c1" "m_blocks c1 = [e]"
      by (simp add: pushBlock_entry_def Let_def genesis_chain_def GeneratedTransactionsIndex_add_def bi_push_def bi_size_def)
    have h: "headers c1 = [BlockHeader.truncate genesis_block]" by (simp add: headers_def c1(2) e_def)
    obtain c2 where c2: "detectors_pushed (genesis_currency 100000) c1 = Inr c2"
      by (simp add: detectors_pushed_def h blockPushed_def ud_assert_def upgradeHeight_def UNDEF_HEIGHT_def genesis_currency_def BLOCK_MAJOR_VERSION_6_def
          Let_def BlockHeader.truncate_def genesis_block_def)
    show ?thesis using z m c1(1) c2 b by (simp add: finish_block_def Let_def e_def)
  qed
  ultimately show ?thesis unfolding run by blast
qed

lemma genesis_accepted:
  obtains c' where "pushBlock_transactions genesis_env (genesis_currency 100000) genesis_block [] genesis_bvc genesis_chain =
    Inr (c', genesis_bvc\<lparr>m_added_to_main_chain := True\<rparr>, True)" and "chain_reachable False (genesis_currency 100000) c'"
  using genesis_pushes chain_accept [OF genesis_start genesis_txs_ok] by blast

section \<open>Properties\<close>





text \<open>
  C3: removing the last block undoes the push of an accepted block: the ledger, the blocks and the indices by hash, by time and of generated
  transactions are again what they were.
\<close>

theorem remove_undoes_push:
  assumes "chain_reachable en cur c" and "block_txs_ok c b transactions"
    and "pushBlock_transactions env cur b transactions bvc c = Inr (c', bvc', True)"
  shows "\<exists>c''. removeLastBlock c' = Inr c'' \<and> same_chain c c''"
proof -
  have inv: "chain_inv en c" by (rule chain_reachable_inv [OF assms(1)])
  have ext: "extended en b transactions c c'" using push_block_cases [OF inv assms(2,3)] by simp
  then obtain e where e: "be_bl e = b" "m_blocks c' = m_blocks c @ [e]" "chain_inv en c'" "block_id e \<notin> block_id ` set (m_blocks c)"
      "m_blocksTimestampIndex c' = fst (TimestampBlocksIndex_add (timestamp b) (block_id e) (m_blocksTimestampIndex c))"
      "gi_enabled (m_generatedTransactionsIndex c') = gi_enabled (m_generatedTransactionsIndex c)"
      "gi_enabled (m_generatedTransactionsIndex c) \<or> m_generatedTransactionsIndex c' = m_generatedTransactionsIndex c"
    unfolding extended_def by blast
  obtain c'' where r: "removeLastBlock c' = Inr c''" "chain_inv en c''" "m_blocks c'' = m_blocks c"
      "m_blocksTimestampIndex c'' = fst (TimestampBlocksIndex_remove (timestamp (be_bl e)) (block_id e) (m_blocksTimestampIndex c'))"
      "gi_enabled (m_generatedTransactionsIndex c'') = gi_enabled (m_generatedTransactionsIndex c')"
      "gi_enabled (m_generatedTransactionsIndex c') \<or> m_generatedTransactionsIndex c'' = m_generatedTransactionsIndex c'"
    by (rule removeLastBlock_inv [OF e(3,2)])
  have i: "times_ok (m_blocks c) (m_blocksTimestampIndex c)" "generated_ok (m_blocks c) (m_generatedTransactionsIndex c)"
      "generated_ok (m_blocks c) (m_generatedTransactionsIndex c'')" "m_ledger c'' = m_ledger c" "m_blockIndex c'' = m_blockIndex c"
    using inv r(2,3) by (simp_all add: chain_inv_def blocks_inv_def)
  have "m_blocksTimestampIndex c'' = m_blocksTimestampIndex c"
    using times_add_remove [OF i(1) e(4)] by (simp add: r(4) e(1,5))
  moreover have "m_generatedTransactionsIndex c'' = m_generatedTransactionsIndex c"
    using i(2,3) e(6,7) r(5,6) generated_unique unfolding generated_ok_def by metis
  ultimately show ?thesis using r(1,3) i(4,5) by (simp add: same_chain_def)
qed

theorem remove_undoes_push_witness:
  "\<exists>c' c''. pushBlock_transactions genesis_env (genesis_currency 100000) genesis_block [] genesis_bvc genesis_chain =
      Inr (c', genesis_bvc\<lparr>m_added_to_main_chain := True\<rparr>, True) \<and> removeLastBlock c' = Inr c'' \<and> same_chain genesis_chain c''"
proof -
  obtain c' where c: "pushBlock_transactions genesis_env (genesis_currency 100000) genesis_block [] genesis_bvc genesis_chain =
    Inr (c', genesis_bvc\<lparr>m_added_to_main_chain := True\<rparr>, True)" by (rule genesis_accepted)
  show ?thesis using remove_undoes_push [OF genesis_start genesis_txs_ok c] c by blast
qed

text \<open>
  C4: a refused block leaves the chain as it was, with one exception: when the block is refused because its cumulative size is above the limit,
  nothing takes its transactions out of the ledger again, which from then on holds transactions and spent key images that no block of the chain has.
\<close>

theorem refused_block_restores_unless_too_big:
  assumes "chain_reachable en cur c" and "block_txs_ok c b transactions"
    and "pushBlock_transactions env cur b transactions bvc c = Inr (c', bvc', False)"
  shows "c' = c \<or> (\<exists>txs. map te_tx txs = baseTransaction b # transactions \<and>
      c' = c\<lparr>m_ledger := ledger_of en (chain_entries (m_blocks c) @ tx_entries (length (m_blocks c)) b txs)\<rparr> \<and>
      checkCumulativeBlockSize cur (block_size b transactions) (word_of_nat (length (m_blocks c))) = Some False)"
  using push_block_cases [OF chain_reachable_inv [OF assms(1)] assms(2,3)] by simp

theorem refused_block_restores_unless_too_big_witness:
  "\<exists>c' txs. pushBlock_transactions genesis_env (genesis_currency 0) genesis_block [] genesis_bvc genesis_chain =
      Inr (c', genesis_bvc\<lparr>b_verification_failed := True\<rparr>, False) \<and> c' \<noteq> genesis_chain \<and>
      c' = genesis_chain\<lparr>m_ledger := ledger_of False (chain_entries (m_blocks genesis_chain) @ tx_entries (length (m_blocks genesis_chain)) genesis_block txs)\<rparr>"
proof -
  obtain c' where c: "pushBlock_transactions genesis_env (genesis_currency 0) genesis_block [] genesis_bvc genesis_chain =
    Inr (c', genesis_bvc\<lparr>b_verification_failed := True\<rparr>, False)" "c' \<noteq> genesis_chain" using genesis_pushes by blast
  show ?thesis using refused_block_restores_unless_too_big [OF genesis_start genesis_txs_ok c(1)] c by blast
qed



end
