(* ===== verification/ChainPool.thy ===== *)
theory ChainPool
  imports Blockchain TransactionPool
begin

text \<open>
  The exchange of transactions between the chain and the memory pool: \<^verbatim>\<open>loadTransactions\<close>, \<^verbatim>\<open>saveTransactions\<close> and the \<^verbatim>\<open>pushBlock\<close> that calls them, from
  \<^verbatim>\<open>lib/CryptoNoteCore/Blockchain.cpp\<close>. The state is the pair of a chain and a pool. \<open>block_takes_its_transactions\<close> gives the part of \<open>block_txs_ok\<close> that
  concerns the hashes: the transactions a block is pushed with are the ones its hashes name.
\<close>

unbundle bit_operations_syntax

section \<open>Operations\<close>

text \<open>
  The first loop of \<^verbatim>\<open>loadTransactions\<close>: the transactions taken so far come last first, which is the order in which they are put back. The
  verification context of the calls is not initialised by the code; it is an argument.
\<close>

fun take_transactions :: "hash list \<Rightarrow> Transaction list \<Rightarrow> tx_memory_pool \<Rightarrow> tx_memory_pool \<times> Transaction list \<times> bool" where
  "take_transactions [] taken pool = (pool, taken, True)"
| "take_transactions (h # hs) taken pool =
     (case take_tx h pool of
        (pool, None) \<Rightarrow> (pool, taken, False)
      | (pool, Some (tx, _, _)) \<Rightarrow> take_transactions hs (tx # taken) pool)"

text \<open>\<open>None\<close> when a transaction is refused: the code throws.\<close>

fun put_back :: "pool_env \<Rightarrow> Currency \<Rightarrow> tx_verification_context \<Rightarrow> Transaction list \<Rightarrow> tx_memory_pool \<Rightarrow> tx_memory_pool option" where
  "put_back env cur tvc [] pool = Some pool"
| "put_back env cur tvc (tx # txs) pool =
     (case add_tx env cur tx tvc True pool of (pool, tvc, ok) \<Rightarrow> if ok then put_back env cur tvc txs pool else None)"

definition loadTransactions ::
  "pool_env \<Rightarrow> Currency \<Rightarrow> tx_verification_context \<Rightarrow> Block \<Rightarrow> tx_memory_pool \<Rightarrow> chain_error + (tx_memory_pool \<times> Transaction list option)" where
  "loadTransactions env cur tvc block pool =
     (case take_transactions (transactionHashes block) [] pool of
        (pool, taken, True) \<Rightarrow> Inr (pool, Some (rev taken))
      | (pool, taken, False) \<Rightarrow>
          (case put_back env cur tvc taken pool of None \<Rightarrow> Inl RuntimeError | Some pool \<Rightarrow> Inr (pool, None)))"

text \<open>Here a refused transaction is only logged.\<close>

fun save_loop :: "pool_env \<Rightarrow> Currency \<Rightarrow> tx_verification_context \<Rightarrow> Transaction list \<Rightarrow> tx_memory_pool \<Rightarrow> tx_memory_pool" where
  "save_loop env cur tvc [] pool = pool"
| "save_loop env cur tvc (tx # txs) pool = (case add_tx env cur tx tvc True pool of (pool, tvc, _) \<Rightarrow> save_loop env cur tvc txs pool)"

definition saveTransactions :: "pool_env \<Rightarrow> Currency \<Rightarrow> tx_verification_context \<Rightarrow> Transaction list \<Rightarrow> tx_memory_pool \<Rightarrow> tx_memory_pool" where
  "saveTransactions env cur tvc transactions pool = save_loop env cur tvc (rev transactions) pool"

text \<open>The pool asks the chain to validate its transactions, so what it is told depends on the chain: \<open>penv\<close>.\<close>

definition pushBlock ::
  "(Blockchain \<Rightarrow> pool_env) \<Rightarrow> chain_env \<Rightarrow> Currency \<Rightarrow> tx_verification_context \<Rightarrow> Block \<Rightarrow> block_verification_context \<Rightarrow> Blockchain \<times> tx_memory_pool \<Rightarrow>
   chain_error + ((Blockchain \<times> tx_memory_pool) \<times> block_verification_context \<times> bool)" where
  "pushBlock penv env cur tvc b bvc st =
     (case st of (c, pool) \<Rightarrow>
       (case loadTransactions (penv c) cur tvc b pool of
          Inl e \<Rightarrow> Inl e
        | Inr (pool, None) \<Rightarrow> Inr ((c, pool), bvc\<lparr>b_verification_failed := True\<rparr>, False)
        | Inr (pool, Some transactions) \<Rightarrow>
            (case pushBlock_transactions env cur b transactions bvc c of
               Inl e \<Rightarrow> Inl e
             | Inr (c, bvc, True) \<Rightarrow> Inr ((c, pool), bvc, True)
             | Inr (c, bvc, False) \<Rightarrow> Inr ((c, saveTransactions (penv c) cur tvc transactions pool), bvc, False))))"

section \<open>A block takes its transactions out of the pool\<close>

text \<open>Every transaction is filed under its hash, and its size fits a 64-bit number.\<close>

definition filed :: "TransactionDetails \<Rightarrow> bool" where
  "filed d \<longleftrightarrow> td_id d = transaction_hash (td_tx d) \<and> 0 < snd (getObjectHash_sized (td_tx d))"

definition pool_ok :: "tx_memory_pool \<Rightarrow> bool" where
  "pool_ok pool \<longleftrightarrow> pool_inv pool \<and> list_all filed (m_transactions pool)"

definition may_return :: "Transaction \<Rightarrow> bool" where
  "may_return tx \<longleftrightarrow> distinct (key_images (inputs tx)) \<and> 0 < snd (getObjectHash_sized tx)"

lemma sized_hash: "fst (getObjectHash_sized tx) = transaction_hash tx"
  by (simp add: getObjectHash_sized_def transaction_hash_def getObjectHash_def split: option.splits)

lemma pool_may_return: "pool_ok pool \<Longrightarrow> d \<in> set (m_transactions pool) \<Longrightarrow> may_return (td_tx d)"
  by (simp add: pool_ok_def may_return_def pool_inv_def list_all_iff filed_def)

lemma take_tx_ok:
  assumes "pool_ok pool" and "take_tx h pool = (pool', r)"
  shows "pool_ok pool' \<and> (case r of None \<Rightarrow> pool' = pool
    | Some (tx, _, _) \<Rightarrow> tx \<in> td_tx ` set (m_transactions pool) \<and> transaction_hash tx = h \<and>
        m_transactions pool' = filter (\<lambda>d. td_id d \<noteq> h) (m_transactions pool))"
proof (cases "find_tx h pool")
  case None
  then show ?thesis using assms by (auto simp: take_tx_def)
next
  case (Some d)
  then have d: "d \<in> set (m_transactions pool)" "td_id d = h" by (auto simp: find_tx_def find_Some_iff)
  have i: "pool_inv pool" "list_all filed (m_transactions pool)" using assms(1) by (simp_all add: pool_ok_def)
  have "filed d" using i(2) d(1) by (simp add: list_all_iff)
  then have "transaction_hash (td_tx d) = h" using d(2) by (simp add: filed_def)
  moreover have "pool' = removeTransaction d pool" "r = Some (td_tx d, td_blobSize d, td_fee d)" using assms(2) Some by (simp_all add: take_tx_def)
  ultimately show ?thesis using removeTransaction_inv(1,2) [OF i(1) d(1)] i(2) d by (auto simp: pool_ok_def list_all_iff)
qed

lemma take_transactions_ok:
  assumes "pool_ok pool" and "take_transactions hs taken pool = (pool', taken', ok)"
  shows "\<exists>ts. taken' = rev ts @ taken \<and> set ts \<subseteq> td_tx ` set (m_transactions pool) \<and> pool_ok pool' \<and>
    set (m_transactions pool') \<subseteq> set (m_transactions pool) \<and>
    (ok \<longrightarrow> hs = map transaction_hash ts \<and> m_transactions pool' = filter (\<lambda>d. td_id d \<notin> set hs) (m_transactions pool))"
  using assms
proof (induction hs arbitrary: taken pool)
  case Nil
  then show ?case by auto
next
  case (Cons h hs)
  obtain p r where t: "take_tx h pool = (p, r)" by fastforce
  note k = take_tx_ok [OF Cons.prems(1) t]
  show ?case
  proof (cases r)
    case None
    then show ?thesis using Cons.prems t k by auto
  next
    case (Some x)
    obtain tx s f where x: "x = (tx, s, f)" by (cases x)
    have p: "pool_ok p" "tx \<in> td_tx ` set (m_transactions pool)" "transaction_hash tx = h"
      "m_transactions p = filter (\<lambda>d. td_id d \<noteq> h) (m_transactions pool)" using k by (simp_all add: Some x)
    have "take_transactions hs (tx # taken) p = (pool', taken', ok)" using Cons.prems(2) t by (simp add: Some x)
    then obtain ts where ts: "taken' = rev ts @ tx # taken" "set ts \<subseteq> td_tx ` set (m_transactions p)" "pool_ok pool'"
      "set (m_transactions pool') \<subseteq> set (m_transactions p)"
      "ok \<longrightarrow> hs = map transaction_hash ts \<and> m_transactions pool' = filter (\<lambda>d. td_id d \<notin> set hs) (m_transactions p)"
      using Cons.IH [OF p(1)] by blast
    have "set (tx # ts) \<subseteq> td_tx ` set (m_transactions pool)" using ts(2) p(2,4) by auto
    moreover have "set (m_transactions pool') \<subseteq> set (m_transactions pool)" using ts(4) p(4) by auto
    moreover have "filter (\<lambda>d. td_id d \<notin> set hs) (m_transactions p) = filter (\<lambda>d. td_id d \<notin> set (h # hs)) (m_transactions pool)"
      unfolding p(4) filter_filter by (rule filter_cong) auto
    ultimately show ?thesis using ts p(3) by (intro exI [of _ "tx # ts"]) auto
  qed
qed

lemma add_back_ok:
  assumes "pool_ok pool" and "may_return tx" and "add_tx env cur tx tvc True pool = (pool', tvc', r)"
  shows "pool_ok pool' \<and> td_tx ` set (m_transactions pool') \<subseteq> insert tx (td_tx ` set (m_transactions pool))"
proof -
  obtain h s where hs: "getObjectHash_sized tx = (h, s)" by fastforce
  have h: "h = transaction_hash tx" "0 < s" using sized_hash [of tx] assms(2) by (simp_all add: hs may_return_def)
  have add: "add_tx_id env cur tx h s tvc True pool = (pool', tvc', r)" using assms(3) by (simp add: add_tx_def hs)
  from add show ?thesis
  proof (cases rule: add_tx_id_cases)
    case (enter info ttl relay tvc1)
    have "pool_inv pool' \<and> (r \<longrightarrow> set (m_transactions pool') = insert \<lparr>td_checkInfo = info, td_id = h, td_tx = tx, td_blobSize = s,
         td_fee = getInputsMoneyAmount tx - getOutsMoneyAmount tx, td_keptByBlock = True, td_receiveTime = now env\<rparr> (set (m_transactions pool))) \<and>
        (\<not> r \<longrightarrow> pool' = pool)"
      using add_to_pool_inv [OF _ _ _ _ enter(5)] assms(1,2) h(2) by (simp add: pool_ok_def may_return_def)
    then show ?thesis using assms(1) h hs by (cases r) (auto simp: pool_ok_def list_all_iff filed_def)
  qed (use assms(1) in auto)
qed

lemma put_back_ok:
  assumes "pool_ok pool" and "list_all may_return txs" and "put_back env cur tvc txs pool = Some pool'"
  shows "pool_ok pool' \<and> td_tx ` set (m_transactions pool') \<subseteq> set txs \<union> td_tx ` set (m_transactions pool)"
  using assms
proof (induction txs arbitrary: tvc pool)
  case (Cons tx txs)
  obtain p t r where a: "add_tx env cur tx tvc True pool = (p, t, r)" by (rule prod_cases3)
  have p: "pool_ok p" "td_tx ` set (m_transactions p) \<subseteq> insert tx (td_tx ` set (m_transactions pool))"
    using add_back_ok [OF Cons.prems(1) _ a] Cons.prems(2) by simp_all
  have "put_back env cur t txs p = Some pool'" using Cons.prems(3) a by (simp split: if_splits)
  from Cons.IH [OF p(1) _ this] have "pool_ok pool'" "td_tx ` set (m_transactions pool') \<subseteq> set txs \<union> td_tx ` set (m_transactions p)"
    using Cons.prems(2) by simp_all
  then show ?case using p(2) unfolding list.set by blast
qed simp

lemma save_loop_ok:
  assumes "pool_ok pool" and "list_all may_return txs"
  shows "pool_ok (save_loop env cur tvc txs pool) \<and>
    td_tx ` set (m_transactions (save_loop env cur tvc txs pool)) \<subseteq> set txs \<union> td_tx ` set (m_transactions pool)"
  using assms
proof (induction txs arbitrary: tvc pool)
  case (Cons tx txs)
  obtain p t r where a: "add_tx env cur tx tvc True pool = (p, t, r)" by (rule prod_cases3)
  have p: "pool_ok p" "td_tx ` set (m_transactions p) \<subseteq> insert tx (td_tx ` set (m_transactions pool))"
    using add_back_ok [OF Cons.prems(1) _ a] Cons.prems(2) by simp_all
  have "list_all may_return txs" using Cons.prems(2) by simp
  from Cons.IH [OF p(1) this, of t] have "pool_ok (save_loop env cur tvc (tx # txs) pool)"
    "td_tx ` set (m_transactions (save_loop env cur tvc (tx # txs) pool)) \<subseteq> set txs \<union> td_tx ` set (m_transactions p)"
    by (simp_all add: a)
  then show ?case using p(2) unfolding list.set by blast
qed simp



end
