(* ===== verification/SynchronizationState.thy ===== *)
theory SynchronizationState
  imports Prelude
begin

text \<open>
  What a wallet knows of the chain: \<^verbatim>\<open>lib/Transfers/SynchronizationState.cpp\<close> and the step of \<^verbatim>\<open>lib/Transfers/BlockchainSynchronizer.cpp\<close> that brings one consumer
  up to date. The state is the list of known block hashes. The loop of \<^verbatim>\<open>getShortHistory\<close> is a partial function, so that its end is a theorem.
  Saving and loading the state are the binary serializer's.
\<close>

unbundle bit_operations_syntax

section \<open>Operations\<close>

text \<open>The hashes of the known blocks, from the first block on.\<close>

type_synonym SynchronizationState = "hash list"

record CheckResult =
  detachRequired :: bool
  detachHeight :: u32
  hasNewBlocks :: bool
  newBlockHeight :: u32

record BlockchainInterval =
  startHeight :: u32
  iv_blocks :: "hash list"

definition SynchronizationState_new :: "hash \<Rightarrow> SynchronizationState" where
  "SynchronizationState_new genesisBlockHash = [genesisBlockHash]"

text \<open>The loop of \<^verbatim>\<open>getShortHistory\<close>: its counters have 32 bits, and nothing in it bounds the number of rounds.\<close>

partial_function (option) short_history_loop ::
  "SynchronizationState \<Rightarrow> u32 \<Rightarrow> u32 \<Rightarrow> u32 \<Rightarrow> u32 \<Rightarrow> bool \<Rightarrow> hash list \<Rightarrow> (hash list \<times> bool) option" where
  "short_history_loop m_blockchain sz i current_multiplier current_back_offset genesis_included history =
     (if current_back_offset < sz
      then (if i < 10
            then short_history_loop m_blockchain sz (i + 1) current_multiplier (current_back_offset + 1)
                   (genesis_included \<or> sz - current_back_offset = 0) (history @ [m_blockchain ! unat (sz - current_back_offset)])
            else short_history_loop m_blockchain sz (i + 1) (current_multiplier * 2) (current_back_offset + current_multiplier * 2)
                   (genesis_included \<or> sz - current_back_offset = 0) (history @ [m_blockchain ! unat (sz - current_back_offset)]))
      else Some (history, genesis_included))"

definition getShortHistory :: "u32 \<Rightarrow> SynchronizationState \<Rightarrow> hash list option" where
  "getShortHistory localHeight m_blockchain =
     (let sz = min (word_of_nat (length m_blockchain)) (localHeight + 1)
      in if sz = 0 then Some []
         else map_option (\<lambda>(history, genesis_included). if genesis_included then history else history @ [m_blockchain ! 0])
                (short_history_loop m_blockchain sz 0 1 1 False []))"

text \<open>\<open>None\<close> when an assertion fails.\<close>

definition checkInterval :: "BlockchainInterval \<Rightarrow> SynchronizationState \<Rightarrow> CheckResult option" where
  "checkInterval interval m_blockchain =
     (if length m_blockchain < unat (startHeight interval) then None
      else (let intervalEnd = startHeight interval + word_of_nat (length (iv_blocks interval));
                iterationEnd = min (word_of_nat (length m_blockchain)) intervalEnd
            in (case find (\<lambda>i. m_blockchain ! i \<noteq> iv_blocks interval ! (i - unat (startHeight interval)))
                       [unat (startHeight interval)..<unat iterationEnd] of
                  Some i \<Rightarrow> Some \<lparr>detachRequired = True, detachHeight = word_of_nat i, hasNewBlocks = True, newBlockHeight = word_of_nat i\<rparr>
                | None \<Rightarrow>
                    if length m_blockchain < unat intervalEnd
                    then Some \<lparr>detachRequired = False, detachHeight = 0, hasNewBlocks = True, newBlockHeight = word_of_nat (length m_blockchain)\<rparr>
                    else Some \<lparr>detachRequired = False, detachHeight = 0, hasNewBlocks = False, newBlockHeight = 0\<rparr>)))"

definition detach :: "u32 \<Rightarrow> SynchronizationState \<Rightarrow> SynchronizationState option" where
  "detach height m_blockchain = (if unat height < length m_blockchain then Some (take (unat height) m_blockchain) else None)"

text \<open>The hashes come as a pointer into a list and a count.\<close>

definition addBlocks :: "hash list \<Rightarrow> u32 \<Rightarrow> u32 \<Rightarrow> SynchronizationState \<Rightarrow> SynchronizationState option" where
  "addBlocks blockHashes height n m_blockchain =
     (if length m_blockchain \<noteq> unat height \<or> length blockHashes < unat n then None
      else Some (m_blockchain @ take (unat n) blockHashes))"

definition getHeight :: "SynchronizationState \<Rightarrow> u32" where
  "getHeight m_blockchain = word_of_nat (length m_blockchain)"

text \<open>
  One consumer in \<^verbatim>\<open>BlockchainSynchronizer::updateConsumers\<close>, whose complete blocks are as many as the hashes of the interval; \<open>accepts\<close> is what its \<^verbatim>\<open>onNewBlocks\<close> answers for a height and a number of blocks. The
  second component is false when it failed, the third tells whether blocks were added.
\<close>

definition updateConsumer ::
  "(u32 \<Rightarrow> u32 \<Rightarrow> bool) \<Rightarrow> BlockchainInterval \<Rightarrow> SynchronizationState \<Rightarrow> (SynchronizationState \<times> bool \<times> bool) option" where
  "updateConsumer accepts interval state =
     (case checkInterval interval state of
        None \<Rightarrow> None
      | Some result \<Rightarrow>
          (case (if detachRequired result then detach (detachHeight result) state else Some state) of
             None \<Rightarrow> None
           | Some state \<Rightarrow>
               if hasNewBlocks result
               then (let startOffset = newBlockHeight result - startHeight interval;
                         blockCount = word_of_nat (length (iv_blocks interval)) - startOffset
                     in if accepts (newBlockHeight result) blockCount
                        then map_option (\<lambda>s. (s, True, True)) (addBlocks (drop (unat startOffset) (iv_blocks interval)) (newBlockHeight result) blockCount state)
                        else Some (state, False, False))
               else Some (state, True, False)))"

section \<open>The short history\<close>

lemma short_history_loop_returns:
  assumes "unat sz \<le> 2 ^ 31" and "unat sz \<le> length bc" and "unat i < unat off"
    and "unat i < 10 \<and> mult = 1 \<and> unat off = Suc (unat i) \<or> 10 \<le> unat i \<and> 0 < unat mult \<and> 2 * unat mult \<le> unat off"
  shows "\<exists>rest. short_history_loop bc sz i mult off g history = Some (history @ rest, g) \<and> set rest \<subseteq> set (take (unat sz) bc) \<and>
    (off < sz \<longrightarrow> rest \<noteq> [] \<and> hd rest = bc ! unat (sz - off))"
  using assms
proof (induction "unat sz - unat off" arbitrary: i mult off history rule: less_induct)
  case less
  show ?case
  proof (cases "off < sz")
    case False
    then show ?thesis by (simp add: short_history_loop.simps)
  next
    case True
    then have o: "unat off < unat sz" by (simp add: word_less_nat_alt)
    let ?x = "bc ! unat (sz - off)"
    have d: "unat (sz - off) = unat sz - unat off" using o by (intro unat_sub) (simp add: word_le_nat_alt)
    have x: "?x \<in> set (take (unat sz) bc)"
      using o less.prems(2,3) unfolding d by (auto simp: in_set_conv_nth intro!: exI [of _ "unat sz - unat off"])
    have nz: "sz - off \<noteq> 0" using True by auto
    have i1: "unat (i + 1) = Suc (unat i)" using o less.prems(1,3) by (simp add: unat_word_ariths)
    have step: "\<exists>rest. short_history_loop bc sz (i + 1) mult' off' g (history @ [?x]) = Some ((history @ [?x]) @ rest, g) \<and>
        set rest \<subseteq> set (take (unat sz) bc)"
      if "unat off < unat off'" "unat (i + 1) < unat off'"
        "unat (i + 1) < 10 \<and> mult' = 1 \<and> unat off' = Suc (unat (i + 1)) \<or> 10 \<le> unat (i + 1) \<and> 0 < unat mult' \<and> 2 * unat mult' \<le> unat off'" for mult' off'
    proof -
      have "unat sz - unat off' < unat sz - unat off" using that(1) o by linarith
      from less.hyps [OF this less.prems(1,2) that(2,3), of "history @ [?x]"] show ?thesis by blast
    qed
    have goal: ?thesis if "\<exists>rest. short_history_loop bc sz i mult off g history = Some ((history @ [?x]) @ rest, g) \<and> set rest \<subseteq> set (take (unat sz) bc)"
    proof -
      from that obtain rest where "short_history_loop bc sz i mult off g history = Some (history @ (?x # rest), g)" "set rest \<subseteq> set (take (unat sz) bc)" by auto
      then show ?thesis using x by (intro exI [of _ "?x # rest"]) auto
    qed
    show ?thesis
    proof (cases "i < 10")
      case True
      then have i: "unat i < 10" "mult = 1" "unat off = Suc (unat i)" using less.prems(4) by (auto simp: word_less_nat_alt)
      have o1: "unat (off + 1) = Suc (unat off)" using o less.prems(1) by (simp add: unat_word_ariths)
      have "\<exists>rest. short_history_loop bc sz (i + 1) mult (off + 1) g (history @ [?x]) = Some ((history @ [?x]) @ rest, g) \<and> set rest \<subseteq> set (take (unat sz) bc)"
        by (rule step) (use i i1 o1 in auto)
      then show ?thesis using \<open>off < sz\<close> True nz by (intro goal) (simp add: short_history_loop.simps [of bc sz i])
    next
      case False
      then have i: "10 \<le> unat i" "0 < unat mult" "2 * unat mult \<le> unat off" using less.prems(4) by (auto simp: word_less_nat_alt)
      have m2: "unat (mult * 2) = 2 * unat mult" using i o less.prems(1) by (simp add: unat_word_ariths)
      have o2: "unat (off + mult * 2) = unat off + 2 * unat mult" using i o less.prems(1) m2 by (simp add: unat_word_ariths)
      have "\<exists>rest. short_history_loop bc sz (i + 1) (mult * 2) (off + mult * 2) g (history @ [?x]) = Some ((history @ [?x]) @ rest, g) \<and>
          set rest \<subseteq> set (take (unat sz) bc)"
        by (rule step) (use i i1 o2 m2 less.prems(3) in auto)
      then show ?thesis using \<open>off < sz\<close> False nz by (intro goal) (simp add: short_history_loop.simps [of bc sz i])
    qed
  qed
qed

text \<open>
  C39: on a chain of at most 2 to the 31 blocks the loop of \<^verbatim>\<open>getShortHistory\<close> ends: its 32-bit offset grows and does not wrap. The history holds
  hashes of known blocks below the given height, begins with the newest of them and ends with the first block of the chain.
\<close>

theorem short_history_terminates:
  assumes "0 < length bc" and "length bc \<le> 2 ^ 31" and "localHeight + 1 \<noteq> 0"
  shows "\<exists>history. getShortHistory localHeight bc = Some history \<and> history \<noteq> [] \<and> last history = bc ! 0 \<and>
    hd history = bc ! (min (length bc) (unat (localHeight + 1)) - 1) \<and> set history \<subseteq> set (take (unat (localHeight + 1)) bc)"
proof -
  define sz where "sz = min (word_of_nat (length bc)) (localHeight + 1)"
  have l: "unat (word_of_nat (length bc) :: u32) = length bc" using assms(2) by (simp add: unsigned_of_nat take_bit_nat_eq_self)
  have s: "unat sz = min (length bc) (unat (localHeight + 1))" using l by (auto simp: sz_def min_def word_le_nat_alt)
  have p: "0 < unat sz" using assms(1,3) s by (auto simp: unat_gt_0)
  obtain rest where r: "short_history_loop bc sz 0 1 1 False [] = Some ([] @ rest, False)" "set rest \<subseteq> set (take (unat sz) bc)"
      "1 < sz \<longrightarrow> rest \<noteq> [] \<and> hd rest = bc ! unat (sz - 1)"
  proof -
    have "unat sz \<le> 2 ^ 31" "unat sz \<le> length bc" using s assms(2) by linarith+
    then show thesis using short_history_loop_returns [of sz bc 0 1 1 False "[]"] that by auto
  qed
  have g: "getShortHistory localHeight bc = Some (rest @ [bc ! 0])"
    using r(1) p unfolding getShortHistory_def Let_def sz_def [symmetric] by (cases "sz = 0") simp_all
  have sub: "set (take (unat sz) bc) \<subseteq> set (take (unat (localHeight + 1)) bc)" using s by (intro set_take_subset_set_take) simp
  have "bc ! 0 \<in> set (take (unat sz) bc)" using p assms(1) by (auto simp: in_set_conv_nth)
  then have m: "set (rest @ [bc ! 0]) \<subseteq> set (take (unat (localHeight + 1)) bc)" using r(2) sub by auto
  have "hd (rest @ [bc ! 0]) = bc ! (unat sz - 1)"
  proof (cases "1 < sz")
    case True
    then have "unat (sz - 1) = unat sz - 1" by (intro unat_minus_one) auto
    then show ?thesis using r(3) True by simp
  next
    case False
    have "rest = []" using r(1) False by (simp add: short_history_loop.simps)
    moreover have "unat sz = 1" using p False by (simp add: word_less_nat_alt)
    ultimately show ?thesis by simp
  qed
  then show ?thesis using g m s by (intro exI [of _ "rest @ [bc ! 0]"]) simp
qed

theorem short_history_terminates_witness:
  "\<exists>history. getShortHistory 1 [[1], [2], [3]] = Some history \<and> hd history = [2] \<and> last history = [1]"
  using short_history_terminates [of "[[1], [2], [3]]" 1] by auto

section \<open>Following an interval\<close>

lemma find_upt_agree:
  assumes "find P [a..<b] = Some i"
  shows "a \<le> i \<and> i < b \<and> P i \<and> (\<forall>j. a \<le> j \<longrightarrow> j < i \<longrightarrow> \<not> P j)"
proof -
  obtain k where k: "k < length [a..<b]" "P ([a..<b] ! k)" "i = [a..<b] ! k" "\<forall>j<k. \<not> P ([a..<b] ! j)"
    using assms by (auto simp: find_Some_iff)
  then have i: "i = a + k" "i < b" by auto
  have "\<not> P j" if "a \<le> j" "j < i" for j
    using k(4) [rule_format, of "j - a"] that i by auto
  then show ?thesis using k i by auto
qed

lemma common_prefix:
  assumes "a \<le> i" and "i \<le> length bc" and "i - a \<le> length bs" and "\<forall>j. a \<le> j \<longrightarrow> j < i \<longrightarrow> bc ! j = bs ! (j - a)"
  shows "take i bc = take a bc @ take (i - a) bs"
proof (rule nth_equalityI)
  fix j assume "j < length (take i bc)"
  then show "take i bc ! j = (take a bc @ take (i - a) bs) ! j"
    using assms by (cases "j < a") (auto simp: nth_append)
qed (use assms in simp)

text \<open>
  C40: a consumer that accepts new blocks follows the interval: if its known blocks already agree with the whole interval nothing changes, otherwise
  its chain becomes its blocks below the interval followed by the blocks of the interval; no assertion fails.
\<close>

theorem consumer_follows_interval:
  assumes "unat (startHeight iv) \<le> length bc" and "length bc < 2 ^ 32" and "unat (startHeight iv) + length (iv_blocks iv) < 2 ^ 32"
  shows "updateConsumer (\<lambda>_ _. True) iv bc =
    Some (if take (length (iv_blocks iv)) (drop (unat (startHeight iv)) bc) = iv_blocks iv then (bc, True, False)
          else (take (unat (startHeight iv)) bc @ iv_blocks iv, True, True))"
proof -
  let ?a = "unat (startHeight iv)" and ?bs = "iv_blocks iv" and ?n = "length (iv_blocks iv)"
  have w: "unat (word_of_nat m :: u32) = m" if "m < 2 ^ 32" for m using that by (simp add: unsigned_of_nat take_bit_nat_eq_self)
  have e: "unat (startHeight iv + word_of_nat ?n) = ?a + ?n"
    using assms(3) w [of ?n] by (simp add: unat_word_ariths)
  have m: "unat (min (word_of_nat (length bc)) (startHeight iv + word_of_nat ?n)) = min (length bc) (?a + ?n)"
    using e w [OF assms(2)] by (auto simp: min_def word_le_nat_alt)
  let ?P = "\<lambda>i. bc ! i \<noteq> ?bs ! (i - ?a)"
  have sub: "unat (word_of_nat i - startHeight iv) = i - ?a" if "?a \<le> i" "i < 2 ^ 32" for i
    using that w [of i] unat_sub [of "startHeight iv" "word_of_nat i"] by (simp add: word_le_nat_alt)
  have cnt: "unat (word_of_nat ?n - (word_of_nat i - startHeight iv)) = ?n - (i - ?a)" if "?a \<le> i" "i < 2 ^ 32" "i - ?a \<le> ?n" for i
    using that sub [of i] w [of ?n] assms(3) unat_sub [of "word_of_nat i - startHeight iv" "word_of_nat ?n"] by (simp add: word_le_nat_alt)
  show ?thesis
  proof (cases "find ?P [?a..<min (length bc) (?a + ?n)]")
    case (Some i)
    have f: "?a \<le> i" "i < min (length bc) (?a + ?n)" "bc ! i \<noteq> ?bs ! (i - ?a)" "\<forall>j. ?a \<le> j \<longrightarrow> j < i \<longrightarrow> bc ! j = ?bs ! (j - ?a)"
      using find_upt_agree [OF Some] by auto
    have ne: "take ?n (drop ?a bc) \<noteq> ?bs"
    proof
      assume "take ?n (drop ?a bc) = ?bs"
      then have "take ?n (drop ?a bc) ! (i - ?a) = ?bs ! (i - ?a)" by simp
      then show False using f(1-3) by simp
    qed
    have q: "i \<le> length bc" "i - ?a \<le> ?n" "i < 2 ^ 32" using f(1,2) assms(2) by linarith+
    have "take i bc @ drop (i - ?a) ?bs = take ?a bc @ ?bs" using common_prefix [OF f(1) q(1,2) f(4)] by simp
    moreover have "checkInterval iv bc =
        Some \<lparr>detachRequired = True, detachHeight = word_of_nat i, hasNewBlocks = True, newBlockHeight = word_of_nat i\<rparr>"
      using assms(1) unfolding checkInterval_def Let_def m Some by simp
    ultimately show ?thesis using f(1,2) ne w [OF q(3)] sub [OF f(1) q(3)] cnt [OF f(1) q(3,2)]
      by (simp add: updateConsumer_def Let_def detach_def addBlocks_def)
  next
    case None
    then have f: "\<forall>j. ?a \<le> j \<longrightarrow> j < min (length bc) (?a + ?n) \<longrightarrow> bc ! j = ?bs ! (j - ?a)" by (auto simp: find_None_iff)
    show ?thesis
    proof (cases "length bc < ?a + ?n")
      case True
      have q: "length bc - ?a \<le> ?n" using True by linarith
      have "\<forall>j. ?a \<le> j \<longrightarrow> j < length bc \<longrightarrow> bc ! j = ?bs ! (j - ?a)" using f True by simp
      then have "take (length bc) bc = take ?a bc @ take (length bc - ?a) ?bs" by (rule common_prefix [OF assms(1) order_refl q])
      then have "bc = take ?a bc @ take (length bc - ?a) ?bs" by simp
      then have "bc @ drop (length bc - ?a) ?bs = (take ?a bc @ take (length bc - ?a) ?bs) @ drop (length bc - ?a) ?bs" by (rule arg_cong)
      then have "bc @ drop (length bc - ?a) ?bs = take ?a bc @ ?bs" by simp
      moreover have "take ?n (drop ?a bc) \<noteq> ?bs"
      proof
        assume "take ?n (drop ?a bc) = ?bs"
        then have "length (take ?n (drop ?a bc)) = ?n" by simp
        then show False using True assms(1) by simp
      qed
      moreover have "checkInterval iv bc =
          Some \<lparr>detachRequired = False, detachHeight = 0, hasNewBlocks = True, newBlockHeight = word_of_nat (length bc)\<rparr>"
        using True assms(1) unfolding checkInterval_def Let_def m None e by simp
      ultimately show ?thesis using True assms(1) w [OF assms(2)] sub [OF assms(1,2)] cnt [OF assms(1,2) q]
        by (simp add: updateConsumer_def Let_def addBlocks_def)
    next
      case False
      then have "take ?n (drop ?a bc) = ?bs" using f by (intro nth_equalityI) auto
      moreover have "checkInterval iv bc = Some \<lparr>detachRequired = False, detachHeight = 0, hasNewBlocks = False, newBlockHeight = 0\<rparr>"
        using False assms(1) unfolding checkInterval_def Let_def m None e by simp
      ultimately show ?thesis by (simp add: updateConsumer_def)
    qed
  qed
qed

theorem consumer_follows_interval_witness:
  "updateConsumer (\<lambda>_ _. True) \<lparr>startHeight = 1, iv_blocks = [[2], [4]]\<rparr> [[1], [2], [3]] = Some ([[1], [2], [4]], True, True)"
  using consumer_follows_interval [of "\<lparr>startHeight = 1, iv_blocks = [[2], [4]]\<rparr>" "[[1], [2], [3]]"] by simp

end
