(* ===== verification/Spec2Isabelle.thy ===== *)
theory Spec2Isabelle
  imports IntUtil Streams Base58 Config CryptoNoteTypes Serialization StringTools Chacha Keccak TreeHash TransactionExtra OrderedMap TextNumbers Checkpoints BlockIndex FormatUtils Currency UpgradeDetector BlockchainIndices TransactionPool Ledger Blockchain ChainPool SynchronizationState
begin

text \<open>
  \<^bold>\<open>The program.\<close> A CryptoNote full node and wallet in C++. Blocks and transactions travel as bytes
  (\<^verbatim>\<open>lib/Serialization\<close>, \<^verbatim>\<open>lib/CryptoNoteCore/CryptoNoteSerialization.cpp\<close>), are hashed and checked
  (\<^verbatim>\<open>lib/crypto\<close>, \<^verbatim>\<open>CryptoNoteFormatUtils.cpp\<close>), and are ordered into a chain that is indexed by height and pinned by
  checkpoints (\<^verbatim>\<open>Blockchain.cpp\<close>, \<^verbatim>\<open>BlockIndex.cpp\<close>, \<^verbatim>\<open>Checkpoints.cpp\<close>). Transactions that are in no block wait in a memory pool, from which the chain takes
  the ones a block names (\<^verbatim>\<open>TransactionPool.cpp\<close>). Users see addresses and amounts as text (\<^verbatim>\<open>Base58.cpp\<close>,
  \<^verbatim>\<open>StringTools.cpp\<close>). All paths below are relative to \<^verbatim>\<open>src/\<close>.

  \<^bold>\<open>Conventions.\<close> Machine integers are words, so sums and products wrap as in the code; a \<^verbatim>\<open>size_t\<close> that counts elements of a
  container is a natural number. An exception or a \<^verbatim>\<open>return false\<close> is a value: \<open>Inl e\<close> of the type \<open>'a result\<close>, or \<open>None\<close>. Readers consume
  the front of a byte list. Loops are recursive functions with termination proofs; no fuel is used. The one loop
  that can run forever, in \<^verbatim>\<open>getShortHistory\<close>, is a partial function, and that it ends is a theorem. Log messages are left out. Functions of the
  elliptic curve (\<^verbatim>\<open>generateKeyDerivation\<close>, \<^verbatim>\<open>derivePublicKey\<close>, \<^verbatim>\<open>checkKey\<close>) and the proof-of-work hash are arguments of the definitions that
  call them; what a theorem needs of them is a named hypothesis.

  \<^bold>\<open>The theories.\<close>
  \<^item> \<open>Prelude\<close>: word types, the result and reader types, little-endian bytes, and lemmas on \<open>unat\<close> of word operations
    (collections \<open>word_nat\<close> and \<open>reads\<close>).
  \<^item> \<open>IntUtil\<close>: \<^verbatim>\<open>lib/Common/int-util.h\<close>, \<^verbatim>\<open>Difficulty.cpp\<close> and \<^verbatim>\<open>getPenalizedAmount\<close>. 64 by 64 bit multiplication, 128 by 32 bit division and the
    difficulty test compute the exact arithmetic results.
  \<^item> \<open>Streams\<close>: \<^verbatim>\<open>lib/Common/StreamTools.cpp\<close>, the memory and string streams, \<^verbatim>\<open>Varint.h\<close>. The locale \<open>IInputStream\<close> is the stream
    interface, interpreted on both stream classes; the locales \<open>codec\<close> and \<open>canonical_codec\<close> relate writers and readers and are interpreted on every
    pair.
  \<^item> \<open>Config\<close>, \<open>CryptoNoteTypes\<close>: protocol constants and the records of \<^verbatim>\<open>include/CryptoNote.h\<close>.
  \<^item> \<open>Serialization\<close>: the binary format. Each reader accepts exactly the output of its writer (collection \<open>codec_iff\<close>).
  \<^item> \<open>StringTools\<close>: hexadecimal, base64 and string helpers. \<open>Base58\<close>: \<^verbatim>\<open>lib/Common/Base58.cpp\<close>; encoding and decoding are inverse, and addresses survive
    the round trip.
  \<^item> \<open>Chacha\<close>, \<open>Keccak\<close>, \<open>TreeHash\<close>: the cipher, the hash and the Merkle tree of \<^verbatim>\<open>lib/crypto\<close>. Deciphering inverts enciphering, the hash is a sponge over an
    injective padding, a Merkle branch reproduces the root.
  \<^item> \<open>TransactionExtra\<close>: the extra field of transactions; written fields, payment ids, keys and messages are read back.
  \<^item> \<open>OrderedMap\<close>: \<^verbatim>\<open>std::map\<close> as a sorted association list, with the laws clients use in the locale \<open>finite_map_ops\<close>.
  \<^item> \<open>Checkpoints\<close>: checkpoints never change once set, and exactly which alternative blocks are allowed.
  \<^item> \<open>BlockIndex\<close>: heights and hashes correspond one to one, and a sparse chain always leads to a common block.
  \<^item> \<open>FormatUtils\<close>: fees, overflow checks, decomposition of amounts, output checks, block hashing and offsets.
  \<^item> \<open>TextNumbers\<close>: decimal numbers and lines as the standard library reads and prints them.
  \<^item> \<open>Currency\<close>: parameters, builder, rewards, fusion checks, amounts as text and the difficulty after late blocks.
  \<^item> \<open>UpgradeDetector\<close>: a step relation of pushed and popped blocks whose state is always the first complete voting.
  \<^item> \<open>BlockchainIndices\<close>: payment id, timestamp, orphan and generated-transaction indices; the multimap contract is the locale \<open>entry_index\<close>.
  \<^item> \<open>TransactionPool\<close>: the memory pool as a step relation; its reachable states satisfy \<open>pool_inv\<close>, from which admission, expiry and block templates without
    double spends follow. The order of the fee index is the locale \<open>ordered_index\<close>.
  \<^item> \<open>Ledger\<close>: what a transaction adds to the chain's tables and how it is taken out again; both operations refine a list of transactions.
  \<^item> \<open>Blockchain\<close>: validation, pushing, refusing, removing and rolling back blocks of the main chain as a step relation; in its reachable states the tables
    and indices are functions of the blocks, and nothing is spent twice.
  \<^item> \<open>ChainPool\<close>: the exchange of a block's transactions between the pool and the chain.
  \<^item> \<open>SynchronizationState\<close>: what a wallet knows of the chain; the short history ends, and a consumer follows the interval it is sent.

  \<^bold>\<open>Bounds.\<close> Hypotheses such as a length below 2 to the 64 (32 for block heights) state that a count fits the type the code stores it in.

  \<^bold>\<open>Not modelled.\<close> Of the chain, the alternative chains and the switch to one of them (\<^verbatim>\<open>Blockchain::handle_alternative_block\<close>,
  \<^verbatim>\<open>switch_to_alternative_blockchain\<close>), whose decision is a Poisson test in floating point. The group and scalar arithmetic of ed25519 and the ring signatures (\<^verbatim>\<open>lib/crypto/crypto-ops.c\<close>, \<^verbatim>\<open>Crypto.cpp\<close>): its correctness
  rests on the group law of the curve, for which the available library has no theory; its functions are arguments here. The memory-hard proof-of-work
  hash (\<^verbatim>\<open>slow-hash\<close>, AES, Groestl, JH, Skein). Floating-point code (\<^verbatim>\<open>Currency::getMinimalFee\<close>, the difficulty estimators): there is no executable model of
  IEEE doubles in the library used. Threads, sockets, files, databases, RPC and the command-line programs (\<^verbatim>\<open>lib/System\<close>, \<^verbatim>\<open>lib/Platform\<close>,
  \<^verbatim>\<open>lib/P2p\<close>, \<^verbatim>\<open>lib/Rpc\<close>, \<^verbatim>\<open>lib/Wallet\<close> and others), which are input and output around the parts above.
\<close>

end
